(* ===== verification/Go_Prelude.thy ===== *)
theory Go_Prelude
  imports Main "HOL-Library.List_Lexorder" "HOL-Library.Char_ord" "HOL-Library.While_Combinator"
  "HOL-Library.AList"
begin

text \<open>
  Shared vocabulary of the development. A Go string (and a byte slice) is a list of bytes,
  Isabelle's \<^typ>\<open>string\<close>; Go's comparison of strings is the lexicographic order of the bytes,
  which the library theories \<open>List_Lexorder\<close> and \<open>Char_ord\<close> provide, so that
  \<^const>\<open>sort\<close> on strings is \<open>slices.Sort\<close>. The theory models the functions of the packages
  \<open>strings\<close>, \<open>bytes\<close> and \<open>strconv\<close> that the sources call, with the facts about them that
  several components share.

  Unicode: \<open>TrimSpace\<close> and \<open>Fields\<close> strip every code point with the White Space
  property, which are one to three bytes long in UTF-8 (\<open>space1\<close>, \<open>space2\<close>, \<open>space3\<close> below).
  A byte that starts such a code point never occurs inside another code point, so matching the
  bytes gives what decoding the runes gives, on invalid UTF-8 too.
\<close>

named_theorems go_str \<open>equations of the string functions, for evaluation\<close>

section \<open>Outcomes of fallible operations\<close>

definition result_bind :: "'e + 'a \<Rightarrow> ('a \<Rightarrow> 'e + 'b) \<Rightarrow> 'e + 'b" where
  "result_bind r f = (case r of Inl e \<Rightarrow> Inl e | Inr a \<Rightarrow> f a)"

lemma result_bind_simps [simp]:
  "result_bind (Inl e) f = Inl e"
  "result_bind (Inr a) f = f a"
  by (simp_all add: result_bind_def)

lemma result_bind_eq_Inr:
  "result_bind r f = Inr b \<longleftrightarrow> (\<exists>a. r = Inr a \<and> f a = Inr b)"
  by (cases r) auto

lemma result_bind_eq_Inl:
  "result_bind r f = Inl e \<longleftrightarrow> r = Inl e \<or> (\<exists>a. r = Inr a \<and> f a = Inl e)"
  by (cases r) auto

section \<open>Refinement\<close>

text \<open>
  The contract between a component and its specification: a relation between concrete and abstract
  states that every operation keeps. What holds of one operation then holds of any run.
\<close>

locale simulation =
  fixes step :: "'op \<Rightarrow> 'c \<Rightarrow> 'c" and spec :: "'op \<Rightarrow> 'a \<Rightarrow> 'a" and rel :: "'c \<Rightarrow> 'a \<Rightarrow> bool"
  assumes simulates: "rel c a \<Longrightarrow> rel (step x c) (spec x a)"
begin

lemma simulates_run: "rel c a \<Longrightarrow> rel (fold step xs c) (fold spec xs a)"
  by (induction xs arbitrary: c a) (auto intro: simulates)

end

section \<open>Lists of lists\<close>

lemma in_concat_nth: "x \<in> set (concat ls) \<longleftrightarrow> (\<exists>i < length ls. x \<in> set (ls ! i))"
  unfolding set_concat by (metis UN_iff in_set_conv_nth)

lemma int_card_Diff:
  assumes "finite A" "B \<subseteq> A"
  shows "int (card (A - B)) = int (card A) - int (card B)"
proof -
  have "card B \<le> card A" using assms by (intro card_mono)
  moreover have "card (A - B) = card A - card B"
    using assms by (intro card_Diff_subset) (auto intro: finite_subset)
  ultimately show ?thesis by simp
qed

section \<open>Prefixes, suffixes and searching\<close>

definition has_prefix :: "string \<Rightarrow> string \<Rightarrow> bool" where
  "has_prefix s p = (take (length p) s = p)"

definition has_suffix :: "string \<Rightarrow> string \<Rightarrow> bool" where
  "has_suffix s p = (length p \<le> length s \<and> drop (length s - length p) s = p)"

definition trim_prefix :: "string \<Rightarrow> string \<Rightarrow> string" where
  "trim_prefix s p = (if has_prefix s p then drop (length p) s else s)"

lemma has_prefix_append [simp]: "has_prefix (p @ s) p"
  by (simp add: has_prefix_def)

lemma has_prefix_iff: "has_prefix s p \<longleftrightarrow> (\<exists>t. s = p @ t)"
  by (metis append_eq_conv_conj append_take_drop_id has_prefix_def)

lemma has_suffix_iff: "has_suffix s p \<longleftrightarrow> (\<exists>t. s = t @ p)"
proof
  assume "has_suffix s p"
  then have "s = take (length s - length p) s @ p"
    by (metis append_take_drop_id has_suffix_def)
  then show "\<exists>t. s = t @ p" ..
qed (auto simp: has_suffix_def)

fun contains :: "string \<Rightarrow> string \<Rightarrow> bool" where
  "contains [] sub = (sub = [])"
| "contains (c # s) sub = (has_prefix (c # s) sub \<or> contains s sub)"

section \<open>Trimming, splitting and joining\<close>

definition trim_left :: "char set \<Rightarrow> string \<Rightarrow> string" where
  "trim_left cs s = dropWhile (\<lambda>c. c \<in> cs) s"

definition trim_right :: "char set \<Rightarrow> string \<Rightarrow> string" where
  "trim_right cs s = rev (dropWhile (\<lambda>c. c \<in> cs) (rev s))"

lemma trim_right_Nil [simp]: "trim_right cs [] = []"
  by (simp add: trim_right_def)

lemma trim_right_snoc [simp]:
  "trim_right cs (s @ [c]) = (if c \<in> cs then trim_right cs s else s @ [c])"
  by (simp add: trim_right_def)

lemma trim_right_prefix: "\<exists>t. s = trim_right cs s @ t \<and> set t \<subseteq> cs"
proof -
  have "rev s = takeWhile (\<lambda>c. c \<in> cs) (rev s) @ dropWhile (\<lambda>c. c \<in> cs) (rev s)"
    by simp
  then have "s = rev (dropWhile (\<lambda>c. c \<in> cs) (rev s)) @ rev (takeWhile (\<lambda>c. c \<in> cs) (rev s))"
    by (metis rev_append rev_rev_ident)
  moreover have "set (rev (takeWhile (\<lambda>c. c \<in> cs) (rev s))) \<subseteq> cs"
    by (auto dest: set_takeWhileD)
  ultimately show ?thesis unfolding trim_right_def by blast
qed

lemma trim_right_id: "s = [] \<or> last s \<notin> cs \<Longrightarrow> trim_right cs s = s"
  by (cases s rule: rev_cases) auto

definition newline :: char where "newline = CHR 0x0A"
definition tab :: char where "tab = CHR 0x09"
definition carriage_return :: char where "carriage_return = CHR 0x0D"

lemmas control_chars = newline_def tab_def carriage_return_def

definition space1 :: "char \<Rightarrow> bool" where
  "space1 c = (c = CHR '' '' \<or> c = CHR 0x09 \<or> c = CHR 0x0A \<or> c = CHR 0x0B \<or> c = CHR 0x0C \<or> c = CHR 0x0D)"

definition space2 :: "char \<Rightarrow> char \<Rightarrow> bool" where
  "space2 a b = (a = CHR 0xC2 \<and> (b = CHR 0x85 \<or> b = CHR 0xA0))"

definition space3 :: "char \<Rightarrow> char \<Rightarrow> char \<Rightarrow> bool" where
  "space3 a b c =
     (a = CHR 0xE1 \<and> b = CHR 0x9A \<and> c = CHR 0x80 \<or>
      a = CHR 0xE2 \<and> b = CHR 0x80 \<and>
        (CHR 0x80 \<le> c \<and> c \<le> CHR 0x8A \<or> c = CHR 0xA8 \<or> c = CHR 0xA9 \<or> c = CHR 0xAF) \<or>
      a = CHR 0xE2 \<and> b = CHR 0x81 \<and> c = CHR 0x9F \<or>
      a = CHR 0xE3 \<and> b = CHR 0x80 \<and> c = CHR 0x80)"

fun trim_space_left :: "string \<Rightarrow> string" where
  "trim_space_left (a # b # c # s) =
     (if space1 a then trim_space_left (b # c # s)
      else if space2 a b then trim_space_left (c # s)
      else if space3 a b c then trim_space_left s
      else a # b # c # s)"
| "trim_space_left [a, b] =
     (if space1 a then trim_space_left [b] else if space2 a b then [] else [a, b])"
| "trim_space_left [a] = (if space1 a then [] else [a])"
| "trim_space_left [] = []"

text \<open>The same from the right end, on the reversed bytes.\<close>

fun trim_space_rev :: "string \<Rightarrow> string" where
  "trim_space_rev (c # b # a # s) =
     (if space1 c then trim_space_rev (b # a # s)
      else if space2 b c then trim_space_rev (a # s)
      else if space3 a b c then trim_space_rev s
      else c # b # a # s)"
| "trim_space_rev [b, a] =
     (if space1 b then trim_space_rev [a] else if space2 a b then [] else [b, a])"
| "trim_space_rev [a] = (if space1 a then [] else [a])"
| "trim_space_rev [] = []"

definition trim_space :: "string \<Rightarrow> string" where
  "trim_space s = rev (trim_space_rev (rev (trim_space_left s)))"

fun split_on :: "char \<Rightarrow> string \<Rightarrow> string list" where
  "split_on d [] = [[]]"
| "split_on d (c # s) =
     (if c = d then [] # split_on d s
      else (case split_on d s of [] \<Rightarrow> [[c]] | w # ws \<Rightarrow> (c # w) # ws))"

fun join :: "string \<Rightarrow> string list \<Rightarrow> string" where
  "join sep [] = []"
| "join sep [w] = w"
| "join sep (w # v # ws) = w @ sep @ join sep (v # ws)"

text \<open>\<open>strings.Cut\<close>: the text before and after the first separator; \<open>None\<close> when absent.\<close>

fun cut_at :: "char \<Rightarrow> string \<Rightarrow> (string \<times> string) option" where
  "cut_at d [] = None"
| "cut_at d (c # s) =
     (if c = d then Some ([], s)
      else map_option (\<lambda>(a, b). (c # a, b)) (cut_at d s))"

fun split_fields_from :: "string \<Rightarrow> string \<Rightarrow> string list" where
  "split_fields_from w (a # b # c # s) =
     (if space1 a then (if w = [] then [] else [w]) @ split_fields_from [] (b # c # s)
      else if space2 a b then (if w = [] then [] else [w]) @ split_fields_from [] (c # s)
      else if space3 a b c then (if w = [] then [] else [w]) @ split_fields_from [] s
      else split_fields_from (w @ [a]) (b # c # s))"
| "split_fields_from w [a, b] =
     (if space1 a then (if w = [] then [] else [w]) @ split_fields_from [] [b]
      else if space2 a b then (if w = [] then [] else [w])
      else split_fields_from (w @ [a]) [b])"
| "split_fields_from w [a] =
     (if space1 a then (if w = [] then [] else [w]) else [w @ [a]])"
| "split_fields_from w [] = (if w = [] then [] else [w])"

definition split_fields :: "string \<Rightarrow> string list" where
  "split_fields s = split_fields_from [] s"

lemma split_on_nonempty [simp]: "split_on d s \<noteq> []"
  by (induction s) (auto split: list.splits)

lemma join_split_on [simp]: "join [d] (split_on d s) = s"
proof (induction s)
  case Nil
  then show ?case by simp
next
  case (Cons c s)
  obtain w ws where w: "split_on d s = w # ws"
    by (cases "split_on d s") auto
  show ?case
  proof (cases ws)
    case Nil
    with w Cons.IH show ?thesis by auto
  next
    case (Cons v vs)
    with w Cons.IH show ?thesis by auto
  qed
qed

lemma split_on_no_sep: "d \<notin> set s \<Longrightarrow> split_on d s = [s]"
  by (induction s) auto

lemma split_on_append_sep: "d \<notin> set s \<Longrightarrow> split_on d (s @ d # t) = s # split_on d t"
  by (induction s) auto

lemma split_on_parts: "w \<in> set (split_on d s) \<Longrightarrow> d \<notin> set w"
proof (induction s arbitrary: w)
  case Nil
  then show ?case by simp
next
  case (Cons c s)
  obtain v vs where v: "split_on d s = v # vs"
    by (cases "split_on d s") auto
  with Cons show ?case by (auto split: if_splits)
qed

lemma cut_at_Some: "cut_at d s = Some (a, b) \<Longrightarrow> s = a @ d # b \<and> d \<notin> set a"
  by (induction s arbitrary: a) (auto split: if_splits)

lemma cut_at_None: "cut_at d s = None \<longleftrightarrow> d \<notin> set s"
  by (induction s) auto

lemma cut_at_append: "d \<notin> set a \<Longrightarrow> cut_at d (a @ d # b) = Some (a, b)"
  by (induction a) auto

text \<open>Words of characters that neither are nor start a space.\<close>

definition plain :: "char \<Rightarrow> bool" where
  "plain c = (\<not> space1 c \<and> c \<noteq> CHR 0xC2 \<and> c \<noteq> CHR 0xE1 \<and> c \<noteq> CHR 0xE2 \<and> c \<noteq> CHR 0xE3)"

lemma plain_not_space: "plain c \<Longrightarrow> \<not> space1 c \<and> \<not> space2 c b \<and> \<not> space3 c b d"
  by (auto simp: plain_def space2_def space3_def)

lemma split_fields_plain: "plain c \<Longrightarrow> split_fields_from w (c # s) = split_fields_from (w @ [c]) s"
  using plain_not_space [of c]
  by (cases s rule: remdups_adj.cases) simp_all

lemma split_fields_space: "space1 c \<Longrightarrow>
  split_fields_from w (c # s) = (if w = [] then [] else [w]) @ split_fields_from [] s"
  by (cases s rule: remdups_adj.cases) simp_all

text \<open>A text that \<open>Fields\<close> never cuts, whatever stands around it.\<close>

definition solid :: "string \<Rightarrow> bool" where
  "solid v = (\<forall>w s. split_fields_from w (v @ s) = split_fields_from (w @ v) s)"

lemma solid_Nil [simp]: "solid []"
  by (simp add: solid_def)

lemma solid_append: "solid u \<Longrightarrow> solid v \<Longrightarrow> solid (u @ v)"
  by (simp add: solid_def)

lemma solid_plain: "list_all plain v \<Longrightarrow> solid v"
proof -
  have "list_all plain v \<Longrightarrow> split_fields_from w (v @ s) = split_fields_from (w @ v) s" for w s
    by (induction v arbitrary: w) (simp_all add: split_fields_plain)
  then show "list_all plain v \<Longrightarrow> solid v" by (simp add: solid_def)
qed

lemma split_fields_join_solid:
  "list_all (\<lambda>v. v \<noteq> [] \<and> solid v) ws \<Longrightarrow> split_fields (join '' '' ws) = ws"
proof (induction "'' ''" ws rule: join.induct)
  case 1
  then show ?case by (simp add: split_fields_def)
next
  case (2 w)
  then have "solid w" by simp
  then have "split_fields_from [] (w @ []) = split_fields_from ([] @ w) []" unfolding solid_def by blast
  with 2 show ?case by (simp add: split_fields_def)
next
  case (3 w v ws)
  have "space1 CHR '' ''" by (simp add: space1_def)
  moreover have "split_fields_from [] (w @ t) = split_fields_from ([] @ w) t" for t using 3(2) by (simp add: solid_def)
  ultimately show ?case using 3 by (simp add: split_fields_def split_fields_space)
qed

lemma split_fields_join:
  "list_all (\<lambda>v. v \<noteq> [] \<and> list_all plain v) ws \<Longrightarrow> split_fields (join '' '' ws) = ws"
  by (rule split_fields_join_solid) (auto simp: list_all_iff intro: solid_plain)

lemma split_on_join:
  "ws \<noteq> [] \<Longrightarrow> list_all (\<lambda>w. d \<notin> set w) ws \<Longrightarrow> split_on d (join [d] ws) = ws"
  by (induction "[d]" ws rule: join.induct) (simp_all add: split_on_no_sep split_on_append_sep)

section \<open>Numbers in text\<close>

definition is_digit :: "char \<Rightarrow> bool" where
  "is_digit c = (CHR ''0'' \<le> c \<and> c \<le> CHR ''9'')"

definition is_lower :: "char \<Rightarrow> bool" where
  "is_lower c = (CHR ''a'' \<le> c \<and> c \<le> CHR ''z'')"

definition is_upper :: "char \<Rightarrow> bool" where
  "is_upper c = (CHR ''A'' \<le> c \<and> c \<le> CHR ''Z'')"

definition digit_val :: "char \<Rightarrow> int" where
  "digit_val c = of_char c - 48"

definition digits_val :: "int \<Rightarrow> string \<Rightarrow> int" where
  "digits_val b s = foldl (\<lambda>n c. n * b + digit_val c) 0 s"

text \<open>
  \<open>strconv.Atoi\<close> and \<open>strconv.ParseInt(s, 10, 64)\<close>: an optional sign, then decimal digits,
  within the range of a 64-bit \<open>int\<close>. \<^const>\<open>None\<close> stands for the error.
\<close>

definition parse_int :: "string \<Rightarrow> int option" where
  "parse_int s =
     (let neg = (s \<noteq> [] \<and> hd s = CHR ''-'');
          ds = (if s \<noteq> [] \<and> (hd s = CHR ''-'' \<or> hd s = CHR ''+'') then tl s else s);
          v = (if neg then - digits_val 10 ds else digits_val 10 ds)
      in if ds = [] \<or> \<not> list_all is_digit ds then None
         else if v < - (2 ^ 63) \<or> 2 ^ 63 \<le> v then None
         else Some v)"

lemma parse_int_range: "parse_int s = Some v \<Longrightarrow> - (2 ^ 63) \<le> v \<and> v < 2 ^ 63"
  unfolding parse_int_def Let_def by (simp split: if_splits)

text \<open>\<open>strconv.ParseUint(s, 8, 32)\<close>.\<close>

definition parse_octal32 :: "string \<Rightarrow> int option" where
  "parse_octal32 s =
     (if s = [] \<or> \<not> list_all (\<lambda>c. CHR ''0'' \<le> c \<and> c \<le> CHR ''7'') s then None
      else if 2 ^ 32 \<le> digits_val 8 s then None
      else Some (digits_val 8 s))"

text \<open>\<open>strconv.Itoa\<close> and the verb \<open>%d\<close>.\<close>

definition digit_char :: "nat \<Rightarrow> char" where
  "digit_char n = char_of (48 + n)"

fun nat_digits :: "nat \<Rightarrow> string" where
  "nat_digits n = (if n < 10 then [digit_char n] else nat_digits (n div 10) @ [digit_char (n mod 10)])"

declare nat_digits.simps [simp del]

definition itoa :: "int \<Rightarrow> string" where
  "itoa i = (if i < 0 then CHR ''-'' # nat_digits (nat (- i)) else nat_digits (nat i))"

lemma of_char_digit_char: "n < 10 \<Longrightarrow> of_char (digit_char n) = (48 + n :: nat)"
  by (simp add: digit_char_def of_char_of)

lemma digit_val_digit_char [simp]: "n < 10 \<Longrightarrow> digit_val (digit_char n) = int n"
proof -
  assume "n < 10"
  moreover have "(of_char (digit_char n) :: int) = int (of_char (digit_char n))"
    by (rule of_nat_of_char [symmetric])
  ultimately show ?thesis by (simp add: digit_val_def of_char_digit_char)
qed

lemma is_digit_iff: "is_digit c \<longleftrightarrow> (48::nat) \<le> of_char c \<and> of_char c \<le> (57::nat)"
  by (simp add: is_digit_def less_eq_char_def)

lemma is_digit_digit_char [simp]: "n < 10 \<Longrightarrow> is_digit (digit_char n)"
  by (simp add: is_digit_iff of_char_digit_char)

lemma digits_val_snoc [simp]: "digits_val b (s @ [c]) = digits_val b s * b + digit_val c"
  by (simp add: digits_val_def)

lemma digits_val_Nil [simp]: "digits_val b [] = 0"
  by (simp add: digits_val_def)

lemma digit_val_bounds: "is_digit c \<Longrightarrow> 0 \<le> digit_val c \<and> digit_val c < 10"
proof -
  assume "is_digit c"
  then have "48 \<le> (of_char c :: nat)" "(of_char c :: nat) \<le> 57" by (simp_all add: is_digit_iff)
  moreover have "(of_char c :: int) = int (of_char c)" by (rule of_nat_of_char [symmetric])
  ultimately show ?thesis unfolding digit_val_def by linarith
qed

lemma digits_val_ge: "list_all is_digit ds \<Longrightarrow> 0 \<le> digits_val 10 ds"
  by (induction ds rule: rev_induct) (auto dest: digit_val_bounds)

lemma nat_digits_correct:
  "digits_val 10 (nat_digits n) = int n \<and> list_all is_digit (nat_digits n) \<and> nat_digits n \<noteq> []"
proof (induction n rule: nat_digits.induct)
  case (1 n)
  show ?case
  proof (cases "n < 10")
    case True
    then show ?thesis
      by (simp add: nat_digits.simps [of n] digits_val_def)
  next
    case False
    have "int (n div 10) * 10 + int (n mod 10) = int n" by presburger
    with False 1 show ?thesis
      by (simp add: nat_digits.simps [of n] del: of_nat_div of_nat_mod)
  qed
qed

lemma parse_int_itoa: "- (2 ^ 63) \<le> i \<Longrightarrow> i < 2 ^ 63 \<Longrightarrow> parse_int (itoa i) = Some i"
proof -
  assume b: "- (2 ^ 63) \<le> i" "i < 2 ^ 63"
  show ?thesis
  proof (cases "i < 0")
    case True
    have "nat_digits (nat (- i)) \<noteq> []" and "list_all is_digit (nat_digits (nat (- i)))"
      and "digits_val 10 (nat_digits (nat (- i))) = - i"
      using nat_digits_correct [of "nat (- i)"] True by simp_all
    with True b show ?thesis
      by (simp add: parse_int_def itoa_def Let_def)
  next
    case False
    have nd: "nat_digits (nat i) \<noteq> []" "list_all is_digit (nat_digits (nat i))"
      "digits_val 10 (nat_digits (nat i)) = i"
      using nat_digits_correct [of "nat i"] False by simp_all
    then obtain c cs where c: "nat_digits (nat i) = c # cs"
      by (cases "nat_digits (nat i)") auto
    with nd have "is_digit c" by simp
    then have "c \<noteq> CHR ''-''" "c \<noteq> CHR ''+''"
      by (auto simp: is_digit_def less_eq_char_def)
    with False b nd c show ?thesis
      by (simp add: parse_int_def itoa_def Let_def)
  qed
qed

section \<open>64-bit integers\<close>

text \<open>The value that a 64-bit \<open>int\<close> keeps of a result, and the quotient of \<open>/\<close>, which is cut off towards 0.\<close>

definition wrap64 :: "int \<Rightarrow> int" where
  "wrap64 i = (i + 2 ^ 63) mod 2 ^ 64 - 2 ^ 63"

definition go_quot :: "int \<Rightarrow> int \<Rightarrow> int" where
  "go_quot a b = sgn a * sgn b * (\<bar>a\<bar> div \<bar>b\<bar>)"

lemma wrap64_id: "- (2 ^ 63) \<le> i \<Longrightarrow> i < 2 ^ 63 \<Longrightarrow> wrap64 i = i"
  by (simp add: wrap64_def)

lemma wrap64_range: "- (2 ^ 63) \<le> wrap64 i \<and> wrap64 i < 2 ^ 63"
  by (simp add: wrap64_def)

lemma go_quot_pos: "0 \<le> a \<Longrightarrow> 0 < b \<Longrightarrow> go_quot a b = a div b"
  by (cases "a = 0") (simp_all add: go_quot_def)

section \<open>ASCII text\<close>

text \<open>A text that starts and ends with ASCII characters other than spaces is trimmed.\<close>

definition ascii_text :: "char \<Rightarrow> bool" where
  "ascii_text c = (\<not> space1 c \<and> (of_char c :: nat) < 128)"

lemma ascii_text_not_space:
  assumes "ascii_text c" shows "\<not> space1 c" "\<not> space2 c b" "\<not> space2 b c" "\<not> space3 c b d" "\<not> space3 b d c"
proof -
  have n: "(of_char c :: nat) < 128" "\<not> space1 c" using assms by (simp_all add: ascii_text_def)
  show "\<not> space1 c" by (rule n(2))
  have "c \<noteq> x" if "128 \<le> (of_char x :: nat)" for x using n(1) that by auto
  note this [of "CHR 0xC2"] this [of "CHR 0xE1"] this [of "CHR 0xE2"] this [of "CHR 0xE3"] this [of "CHR 0x85"]
    this [of "CHR 0xA0"] this [of "CHR 0x80"] this [of "CHR 0xA8"] this [of "CHR 0xA9"] this [of "CHR 0xAF"] this [of "CHR 0x9F"]
  then show "\<not> space2 c b" "\<not> space2 b c" "\<not> space3 c b d" "\<not> space3 b d c"
    using n(1) by (auto simp: space2_def space3_def less_eq_char_def)
qed

lemma trim_space_ascii:
  assumes "s \<noteq> []" "ascii_text (hd s)" "ascii_text (last s)"
  shows "trim_space s = s"
proof -
  have left: "trim_space_left s = s"
    using ascii_text_not_space [OF assms(2)] assms(1) by (cases s rule: trim_space_left.cases) simp_all
  have "trim_space_rev t = t" if "t \<noteq> []" "ascii_text (hd t)" for t
    using ascii_text_not_space [OF that(2)] that(1) by (cases t rule: trim_space_rev.cases) simp_all
  then have "trim_space_rev (rev s) = rev s" using assms(1,3) by (simp add: hd_rev)
  with left show ?thesis by (simp add: trim_space_def)
qed

section \<open>Letter case\<close>

text \<open>
  \<open>strings.ToLower\<close> and \<open>strings.ToUpper\<close>. Beside the ASCII letters, four code points have an
  ASCII image: U+0130 and U+212A map to i and k, U+0131 and U+017F to I and S. The other
  non-ASCII code points map to non-ASCII ones and are left alone here: every caller compares the
  result with ASCII words only.
\<close>

definition lower_char :: "char \<Rightarrow> char" where
  "lower_char c = (if is_upper c then char_of (of_char c + (32::nat)) else c)"

definition upper_char :: "char \<Rightarrow> char" where
  "upper_char c = (if is_lower c then char_of (of_char c - (32::nat)) else c)"

fun to_lower :: "string \<Rightarrow> string" where
  "to_lower (a # b # c # s) =
     (if a = CHR 0xC4 \<and> b = CHR 0xB0 then CHR ''i'' # to_lower (c # s)
      else if a = CHR 0xE2 \<and> b = CHR 0x84 \<and> c = CHR 0xAA then CHR ''k'' # to_lower s
      else lower_char a # to_lower (b # c # s))"
| "to_lower [a, b] =
     (if a = CHR 0xC4 \<and> b = CHR 0xB0 then [CHR ''i''] else [lower_char a, lower_char b])"
| "to_lower [a] = [lower_char a]"
| "to_lower [] = []"

fun to_upper :: "string \<Rightarrow> string" where
  "to_upper (a # b # s) =
     (if a = CHR 0xC4 \<and> b = CHR 0xB1 then CHR ''I'' # to_upper s
      else if a = CHR 0xC5 \<and> b = CHR 0xBF then CHR ''S'' # to_upper s
      else upper_char a # to_upper (b # s))"
| "to_upper [a] = [upper_char a]"
| "to_upper [] = []"

text \<open>Digits have no case.\<close>

lemma to_lower_digits: "list_all is_digit s \<Longrightarrow> to_lower s = s"
  by (induction s rule: to_lower.induct) (auto simp: is_digit_def lower_char_def is_upper_def less_eq_char_def)


text \<open>Words of capital letters and digits, as the names of signals are.\<close>

definition capital :: "char \<Rightarrow> bool" where
  "capital c = (is_upper c \<or> is_digit c)"

lemma of_char_bounds:
  "is_upper c \<longleftrightarrow> 65 \<le> (of_char c :: nat) \<and> (of_char c :: nat) \<le> 90"
  "is_lower c \<longleftrightarrow> 97 \<le> (of_char c :: nat) \<and> (of_char c :: nat) \<le> 122"
  by (simp_all add: is_upper_def is_lower_def less_eq_char_def)

lemma capital_case:
  assumes "capital c"
  shows "upper_char c = c" "upper_char (lower_char c) = c" "ascii_text c" "ascii_text (lower_char c)"
proof -
  have b: "48 \<le> (of_char c :: nat)" "(of_char c :: nat) \<le> 90"
    using assms by (auto simp: capital_def of_char_bounds is_digit_iff)
  have l: "of_char (lower_char c) = (if is_upper c then of_char c + 32 else of_char c :: nat)"
    using b by (simp add: lower_char_def of_char_of)
  show up: "upper_char c = c" using b by (simp add: upper_char_def of_char_bounds)
  show "upper_char (lower_char c) = c"
  proof (cases "is_upper c")
    case True
    then have "is_lower (lower_char c)" using l b by (simp add: of_char_bounds)
    then show ?thesis using True l by (simp add: upper_char_def)
  next
    case False
    then show ?thesis using up by (simp add: lower_char_def)
  qed
  have sp: "\<not> space1 x" if "48 \<le> (of_char x :: nat)" for x using that by (auto simp: space1_def)
  show "ascii_text c" using sp [of c] b by (simp add: ascii_text_def)
  show "ascii_text (lower_char c)" using sp [of "lower_char c"] b l by (simp add: ascii_text_def)
qed

lemma to_upper_ascii: "list_all ascii_text s \<Longrightarrow> to_upper s = map upper_char s"
  by (induction s rule: to_upper.induct) (auto simp: ascii_text_def)

lemma capital_word:
  assumes "list_all capital w" "w \<noteq> []"
  shows "to_upper w = w" "to_upper (map lower_char w) = w" "trim_space w = w"
    "trim_space (map lower_char w) = map lower_char w"
proof -
  have a: "list_all ascii_text w" "list_all ascii_text (map lower_char w)"
    using assms(1) capital_case by (auto simp: list_all_iff)
  show "to_upper w = w" using to_upper_ascii [OF a(1)] assms(1) capital_case(1) by (auto simp: list_all_iff intro: map_idI)
  show "to_upper (map lower_char w) = w"
    using to_upper_ascii [OF a(2)] assms(1) capital_case(2) by (auto simp: list_all_iff intro: map_idI)
  have ends: "trim_space v = v" if "list_all ascii_text v" "v \<noteq> []" for v
    using that by (intro trim_space_ascii) (auto simp: list_all_iff)
  then show "trim_space w = w" "trim_space (map lower_char w) = map lower_char w" using a assms(2) by auto
qed


section \<open>Runes\<close>

text \<open>
  The number of bytes of the first code point of a UTF-8 text, and the number of code points as
  \<open>utf8.RuneCountInString\<close> counts them: a byte that starts no valid code point counts as one.
\<close>

definition cont_byte :: "char \<Rightarrow> bool" where
  "cont_byte c = (CHR 0x80 \<le> c \<and> c \<le> CHR 0xBF)"

definition second_byte :: "char \<Rightarrow> char \<Rightarrow> bool" where
  "second_byte a b =
     ((if a = CHR 0xE0 then CHR 0xA0 else if a = CHR 0xF0 then CHR 0x90 else CHR 0x80) \<le> b \<and>
      b \<le> (if a = CHR 0xED then CHR 0x9F else if a = CHR 0xF4 then CHR 0x8F else CHR 0xBF))"

definition rune_len :: "string \<Rightarrow> nat" where
  "rune_len s =
     (case s of
        a # b # t \<Rightarrow>
          if CHR 0xC2 \<le> a \<and> a \<le> CHR 0xDF \<and> cont_byte b then 2
          else if CHR 0xE0 \<le> a \<and> a \<le> CHR 0xEF \<and> second_byte a b \<and> t \<noteq> [] \<and> cont_byte (hd t) then 3
          else if CHR 0xF0 \<le> a \<and> a \<le> CHR 0xF4 \<and> second_byte a b \<and> 2 \<le> length t \<and>
            cont_byte (hd t) \<and> cont_byte (t ! 1) then 4
          else 1
      | _ \<Rightarrow> 1)"

lemma rune_len_pos [simp]: "0 < rune_len s"
  by (simp add: rune_len_def split: list.split)

function rune_count :: "string \<Rightarrow> nat" where
  "rune_count s = (if s = [] then 0 else Suc (rune_count (drop (rune_len s) s)))"
  by pat_completeness auto

termination
  by (relation "measure length") auto

declare rune_count.simps [simp del]

text \<open>The verb \<open>%-ws\<close>: pad with blanks on the right to a width in code points.\<close>

definition pad_right :: "nat \<Rightarrow> string \<Rightarrow> string" where
  "pad_right w s = s @ replicate (w - rune_count s) (CHR '' '')"

section \<open>Dictionaries\<close>

text \<open>
  A Go map is an association list with distinct keys. Where the order of an iteration over a map
  can be observed, the definition takes the order as an argument.
\<close>

definition dict_ok :: "('k \<times> 'v) list \<Rightarrow> bool" where
  "dict_ok d = distinct (map fst d)"

lemma dict_ok_Nil [simp]: "dict_ok []"
  by (simp add: dict_ok_def)

lemma dict_ok_update [simp]: "dict_ok d \<Longrightarrow> dict_ok (AList.update k v d)"
  by (simp add: dict_ok_def distinct_update)

lemma dict_ok_delete [simp]: "dict_ok d \<Longrightarrow> dict_ok (AList.delete k d)"
  by (simp add: dict_ok_def AList.distinct_delete)

lemma map_of_dict_update [simp]: "map_of (AList.update k v d) = (map_of d)(k \<mapsto> v)"
  by (rule update_conv')

lemma map_of_dict_delete [simp]: "map_of (AList.delete k d) = (map_of d)(k := None)"
  by (rule delete_conv')

lemma dict_keys: "k \<in> set (map fst d) \<longleftrightarrow> map_of d k \<noteq> None"
  by (metis map_of_eq_None_iff set_map)

end
