(* ===== verification/Order.thy ===== *)
theory Order
  imports Go_Prelude "HOL-Library.Multiset"
begin

text \<open>
  The package \<open>internal/order\<close>: start order of the services. \<open>TopoSort\<close> (Kahn's algorithm
  over a queue with a head index) and \<open>TopoLayers\<close> (repeated removal of the nodes of in-degree
  zero) are translated with their graph construction; a Go map with a zero default is a
  function. Both loops are \<^const>\<open>while_option\<close>s, so that not returning would be
  \<^const>\<open>None\<close>; the lemmas below show that both always return. The specification is
  \<open>dep_edges\<close>, the set of ordering constraints read off the service list.
\<close>

section \<open>The program\<close>

record order_service =
  svc_name :: string
  svc_after :: "string list"
  svc_before :: "string list"
  svc_requires :: "string list"

datatype order_error =
    DuplicateName string
  | UnknownAfter string string
  | UnknownBefore string string
  | UnknownRequires string string
  | CycleAmong "string list"

fun collect_names :: "string list \<Rightarrow> order_service list \<Rightarrow> order_error + string list" where
  "collect_names names [] = Inr names"
| "collect_names names (s # ss) =
     (if svc_name s \<in> set names then Inl (DuplicateName (svc_name s))
      else collect_names (names @ [svc_name s]) ss)"

record graph =
  edges :: "string \<Rightarrow> string list"
  inDegree :: "string \<Rightarrow> int"
  seenEdge :: "(string \<times> string) list"

definition empty_graph :: graph where
  "empty_graph = \<lparr>edges = (\<lambda>_. []), inDegree = (\<lambda>_. 0), seenEdge = []\<rparr>"

definition addEdge :: "string \<Rightarrow> string \<Rightarrow> graph \<Rightarrow> graph" where
  "addEdge from to g =
     (if (from, to) \<in> set (seenEdge g) then g
      else g\<lparr>seenEdge := (from, to) # seenEdge g,
             edges := (edges g)(from := edges g from @ [to]),
             inDegree := (inDegree g)(to := inDegree g to + 1)\<rparr>)"

fun add_deps ::
  "(string \<Rightarrow> order_error) \<Rightarrow> (string \<Rightarrow> string \<times> string) \<Rightarrow> string list \<Rightarrow> string list \<Rightarrow> graph
     \<Rightarrow> order_error + graph" where
  "add_deps unknown edge names [] g = Inr g"
| "add_deps unknown edge names (dep # deps) g =
     (if dep \<notin> set names then Inl (unknown dep)
      else add_deps unknown edge names deps (addEdge (fst (edge dep)) (snd (edge dep)) g))"

definition add_service :: "string list \<Rightarrow> order_service \<Rightarrow> graph \<Rightarrow> order_error + graph" where
  "add_service names s g =
     result_bind (add_deps (UnknownAfter (svc_name s)) (\<lambda>dep. (dep, svc_name s)) names (svc_after s) g)
       (\<lambda>g1. result_bind
          (add_deps (UnknownBefore (svc_name s)) (\<lambda>dep. (svc_name s, dep)) names (svc_before s) g1)
          (\<lambda>g2. add_deps (UnknownRequires (svc_name s)) (\<lambda>dep. (dep, svc_name s)) names (svc_requires s) g2))"

fun build_graph :: "string list \<Rightarrow> order_service list \<Rightarrow> graph \<Rightarrow> order_error + graph" where
  "build_graph names [] g = Inr g"
| "build_graph names (s # ss) g = result_bind (add_service names s g) (build_graph names ss)"

record kahn =
  queue :: "string list"
  head :: nat
  result :: "string list"
  degree :: "string \<Rightarrow> int"

definition kahn_init :: "order_service list \<Rightarrow> graph \<Rightarrow> kahn" where
  "kahn_init services g =
     \<lparr>queue = filter (\<lambda>n. inDegree g n = 0) (map svc_name services),
      head = 0, result = [], degree = inDegree g\<rparr>"

definition relax :: "string \<Rightarrow> string list \<times> (string \<Rightarrow> int) \<Rightarrow> string list \<times> (string \<Rightarrow> int)" where
  "relax neighbor st =
     (let deg = (snd st)(neighbor := snd st neighbor - 1)
      in (if deg neighbor = 0 then fst st @ [neighbor] else fst st, deg))"

definition kahn_step :: "graph \<Rightarrow> kahn \<Rightarrow> kahn" where
  "kahn_step g k =
     (let node = queue k ! head k;
          st = fold relax (edges g node) (queue k, degree k)
      in \<lparr>queue = fst st, head = Suc (head k), result = result k @ [node], degree = snd st\<rparr>)"

definition kahn_loop :: "graph \<Rightarrow> kahn \<Rightarrow> kahn option" where
  "kahn_loop g k = while_option (\<lambda>k. head k < length (queue k)) (kahn_step g) k"

definition cycled :: "string list \<Rightarrow> (string \<Rightarrow> int) \<Rightarrow> string list" where
  "cycled names deg = sort (filter (\<lambda>n. 0 < deg n) names)"

definition TopoSort :: "order_service list \<Rightarrow> (order_error + string list) option" where
  "TopoSort services =
     (case collect_names [] services of
        Inl e \<Rightarrow> Some (Inl e)
      | Inr names \<Rightarrow>
          (case build_graph names services empty_graph of
             Inl e \<Rightarrow> Some (Inl e)
           | Inr g \<Rightarrow>
               map_option
                 (\<lambda>k. if length (result k) \<noteq> length names
                      then Inl (CycleAmong (cycled names (degree k)))
                      else Inr (result k))
                 (kahn_loop g (kahn_init services g))))"

record layering =
  layers :: "string list list"
  emitted :: nat
  ldegree :: "string \<Rightarrow> int"
  stuck :: "order_error option"

definition drain :: "graph \<Rightarrow> string \<Rightarrow> (string \<Rightarrow> int) \<Rightarrow> (string \<Rightarrow> int)" where
  "drain g n deg = fold (\<lambda>neighbor d. d(neighbor := d neighbor - 1)) (edges g n) (deg(n := - 1))"

definition layers_step :: "string list \<Rightarrow> graph \<Rightarrow> layering \<Rightarrow> layering" where
  "layers_step names g st =
     (let layer = filter (\<lambda>n. ldegree st n = 0) names
      in if layer = [] then st\<lparr>stuck := Some (CycleAmong (cycled names (ldegree st)))\<rparr>
         else st\<lparr>layers := layers st @ [sort layer],
                 emitted := emitted st + length layer,
                 ldegree := fold (drain g) (sort layer) (ldegree st)\<rparr>)"

definition layers_loop :: "string list \<Rightarrow> graph \<Rightarrow> layering \<Rightarrow> layering option" where
  "layers_loop names g st =
     while_option (\<lambda>st. stuck st = None \<and> emitted st < length names) (layers_step names g) st"

definition layers_init :: "graph \<Rightarrow> layering" where
  "layers_init g = \<lparr>layers = [], emitted = 0, ldegree = inDegree g, stuck = None\<rparr>"

definition TopoLayers :: "order_service list \<Rightarrow> (order_error + string list list) option" where
  "TopoLayers services =
     (case collect_names [] services of
        Inl e \<Rightarrow> Some (Inl e)
      | Inr names \<Rightarrow>
          (case build_graph names services empty_graph of
             Inl e \<Rightarrow> Some (Inl e)
           | Inr g \<Rightarrow>
               map_option (\<lambda>st. case stuck st of Some e \<Rightarrow> Inl e | None \<Rightarrow> Inr (layers st))
                 (layers_loop names g (layers_init g))))"

section \<open>The specification: ordering constraints\<close>

definition service_edges :: "order_service \<Rightarrow> (string \<times> string) set" where
  "service_edges s =
     {(d, svc_name s) | d. d \<in> set (svc_after s) \<union> set (svc_requires s)} \<union>
     {(svc_name s, d) | d. d \<in> set (svc_before s)}"

definition dep_edges :: "order_service list \<Rightarrow> (string \<times> string) set" where
  "dep_edges ss = (\<Union>s \<in> set ss. service_edges s)"

definition node_names :: "order_service list \<Rightarrow> string set" where
  "node_names ss = set (map svc_name ss)"

definition refs_of :: "order_service \<Rightarrow> string set" where
  "refs_of s = set (svc_after s) \<union> set (svc_before s) \<union> set (svc_requires s)"

definition valid_services :: "order_service list \<Rightarrow> bool" where
  "valid_services ss = (distinct (map svc_name ss) \<and> (\<forall>s \<in> set ss. refs_of s \<subseteq> node_names ss))"

text \<open>Every predecessor of an element stands before it in the list.\<close>

definition ordered_by :: "('a \<times> 'a) set \<Rightarrow> 'a list \<Rightarrow> bool" where
  "ordered_by E xs = (\<forall>i < length xs. \<forall>a. (a, xs ! i) \<in> E \<longrightarrow> a \<in> set (take i xs))"

text \<open>The nodes on a cycle and the nodes reachable from one.\<close>

definition cycle_reach :: "('a \<times> 'a) set \<Rightarrow> 'a set" where
  "cycle_reach E = {x. \<exists>y. (y, y) \<in> E\<^sup>+ \<and> (y, x) \<in> E\<^sup>*}"

section \<open>Facts about finite dependency graphs\<close>

lemma cycle_reach_empty: "cycle_reach E = {} \<longleftrightarrow> acyclic E"
  by (auto simp: cycle_reach_def acyclic_def)

lemma ranked_acyclic:
  assumes "\<And>a b. (a, b) \<in> E \<Longrightarrow> rank a < (rank b :: nat)"
  shows "acyclic E"
proof (rule acyclic_subset)
  show "acyclic (measure rank)" by (rule wf_acyclic) simp
  show "E \<subseteq> measure rank" using assms by auto
qed

lemma ordered_by_rank:
  assumes "distinct xs" "ordered_by E xs"
  obtains rank :: "'a \<Rightarrow> nat" where "\<And>x f. x \<in> set xs \<Longrightarrow> (f, x) \<in> E \<Longrightarrow> rank f < rank x"
proof -
  define idx where "idx x = (LEAST i. i < length xs \<and> xs ! i = x)" for x
  have idx: "idx (xs ! i) = i" if "i < length xs" for i
    unfolding idx_def using that assms(1) by (intro Least_equality) (auto simp: nth_eq_iff_index_eq)
  have "idx a < idx b" if ab: "(a, b) \<in> E" and b: "b \<in> set xs" for a b
  proof -
    from b obtain i where i: "i < length xs" "xs ! i = b" by (auto simp: in_set_conv_nth)
    with ab assms(2) have "a \<in> set (take i xs)" unfolding ordered_by_def by blast
    then obtain j where "j < i" "xs ! j = a" by (auto simp: in_set_conv_nth)
    with i idx [of i] idx [of j] show ?thesis by simp
  qed
  with that show thesis by blast
qed

lemma ordered_by_acyclic:
  assumes "distinct xs" "ordered_by E xs" "E \<subseteq> UNIV \<times> set xs"
  shows "acyclic E"
proof -
  obtain rank :: "'a \<Rightarrow> nat" where "\<And>x f. x \<in> set xs \<Longrightarrow> (f, x) \<in> E \<Longrightarrow> rank f < rank x"
    using ordered_by_rank [OF assms(1,2)] by blast
  with assms(3) show ?thesis by (intro ranked_acyclic [of E rank]) auto
qed

lemma ordered_by_append:
  assumes "ordered_by E xs" "\<And>y a. y \<in> set ys \<Longrightarrow> (a, y) \<in> E \<Longrightarrow> a \<in> set xs"
  shows "ordered_by E (xs @ ys)"
  unfolding ordered_by_def
proof (intro allI impI)
  fix i a assume i: "i < length (xs @ ys)" and a: "(a, (xs @ ys) ! i) \<in> E"
  show "a \<in> set (take i (xs @ ys))"
  proof (cases "i < length xs")
    case True
    with a have "(a, xs ! i) \<in> E" by (simp add: nth_append)
    with True assms(1) show ?thesis unfolding ordered_by_def by simp
  next
    case False
    with i a have "(ys ! (i - length xs)) \<in> set ys" "(a, ys ! (i - length xs)) \<in> E"
      by (auto simp: nth_append)
    with assms(2) have "a \<in> set xs" by blast
    with False show ?thesis by simp
  qed
qed

text \<open>
  The interface between the graph construction and the two sorting algorithms: finitely many
  nodes, and constraints between nodes only.
\<close>

locale dependency_graph =
  fixes valid :: "'s \<Rightarrow> bool" and nodes :: "'s \<Rightarrow> 'a set" and deps :: "'s \<Rightarrow> ('a \<times> 'a) set"
  assumes finite_nodes: "finite (nodes s)"
    and deps_in_nodes: "valid s \<Longrightarrow> deps s \<subseteq> nodes s \<times> nodes s"
begin

lemma finite_deps: "valid s \<Longrightarrow> finite (deps s)"
  using finite_nodes deps_in_nodes by (meson finite_SigmaI finite_subset)

lemma stuck_cyclic:
  assumes "valid s" "R \<noteq> {}" "\<And>x. x \<in> R \<Longrightarrow> \<exists>y \<in> R. (y, x) \<in> deps s"
  shows "\<not> acyclic (deps s)"
proof
  assume "acyclic (deps s)"
  then have "wf (deps s)" using finite_acyclic_wf finite_deps [OF assms(1)] by blast
  then obtain z where "z \<in> R" "\<And>y. (y, z) \<in> deps s \<Longrightarrow> y \<notin> R"
    using assms(2) by (metis wfE_min ex_in_conv)
  with assms(3) show False by blast
qed

lemma complete_order_acyclic:
  "valid s \<Longrightarrow> set xs = nodes s \<Longrightarrow> distinct xs \<Longrightarrow> ordered_by (deps s) xs \<Longrightarrow> acyclic (deps s)"
  using deps_in_nodes [of s] by (intro ordered_by_acyclic) auto

lemma finite_preds: "valid s \<Longrightarrow> finite {f. (f, x) \<in> deps s \<and> f \<notin> P}"
  by (rule finite_subset [of _ "nodes s"]) (use deps_in_nodes finite_nodes in auto)

text \<open>Removing a node from the pending set lowers exactly its successors' counts.\<close>

lemma card_preds_insert:
  assumes "valid s" "n \<notin> P"
  shows "int (card {f. (f, x) \<in> deps s \<and> f \<notin> insert n P}) =
         int (card {f. (f, x) \<in> deps s \<and> f \<notin> P}) - (if (n, x) \<in> deps s then 1 else 0)"
proof (cases "(n, x) \<in> deps s")
  case True
  let ?A = "{f. (f, x) \<in> deps s \<and> f \<notin> P}"
  have "{f. (f, x) \<in> deps s \<and> f \<notin> insert n P} = ?A - {n}" by auto
  moreover have "n \<in> ?A" using True assms(2) by simp
  moreover have "0 < card ?A" using finite_preds [OF assms(1)] \<open>n \<in> ?A\<close> by (auto simp: card_gt_0_iff)
  ultimately show ?thesis using True by (simp add: of_nat_diff)
next
  case False
  then have "{f. (f, x) \<in> deps s \<and> f \<notin> insert n P} = {f. (f, x) \<in> deps s \<and> f \<notin> P}" by auto
  with False show ?thesis by simp
qed

text \<open>
  Peeling off a ranked, predecessor-closed part that leaves no source behind leaves exactly the
  nodes a cycle reaches.
\<close>

lemma residue_cyclic:
  assumes v: "valid s" and R: "R \<subseteq> nodes s"
    and peeled: "\<And>x f. x \<in> nodes s - R \<Longrightarrow> (f, x) \<in> deps s \<Longrightarrow> f \<notin> R \<and> rank f < (rank x :: nat)"
    and left: "\<And>x. x \<in> R \<Longrightarrow> \<exists>y \<in> R. (y, x) \<in> deps s"
  shows "R = cycle_reach (deps s)"
proof
  note dn = deps_in_nodes [OF v]
  show "R \<subseteq> cycle_reach (deps s)"
  proof
    fix x assume x: "x \<in> R"
    let ?A = "{y \<in> R. (y, x) \<in> (deps s)\<^sup>*}"
    let ?r = "deps s \<inter> ?A \<times> ?A"
    have "\<exists>y \<in> ?A. (y, z) \<in> ?r" if "z \<in> ?A" for z
      using left [of z] that by (auto intro: converse_rtrancl_into_rtrancl)
    moreover have "x \<in> ?A" using x by simp
    ultimately have "\<not> wf ?r" by (metis (no_types, lifting) wfE_min)
    then have "\<not> acyclic ?r" using finite_acyclic_wf finite_deps [OF v] by blast
    then obtain z where z: "(z, z) \<in> ?r\<^sup>+" by (auto simp: acyclic_def)
    then have "(z, z) \<in> (deps s)\<^sup>+" by (meson inf_le1 trancl_mono)
    moreover from z have "z \<in> ?A" by (auto elim: tranclE)
    ultimately show "x \<in> cycle_reach (deps s)" by (auto simp: cycle_reach_def)
  qed
  have anc: "f \<notin> R \<and> f \<in> nodes s \<and> rank f < rank x" if "(f, x) \<in> (deps s)\<^sup>+" "x \<in> nodes s - R" for f x
    using that
  proof (induction rule: converse_trancl_induct)
    case (base y)
    then show ?case using peeled [of x y] dn by auto
  next
    case (step y z)
    then show ?case using peeled [of z y] dn by force
  qed
  show "cycle_reach (deps s) \<subseteq> R"
  proof
    fix x assume "x \<in> cycle_reach (deps s)"
    then obtain y where y: "(y, y) \<in> (deps s)\<^sup>+" "(y, x) \<in> (deps s)\<^sup>*" by (auto simp: cycle_reach_def)
    then have "y \<in> nodes s" using dn by (auto elim: tranclE)
    with anc [OF y(1)] have yR: "y \<in> R" by auto
    show "x \<in> R"
    proof (rule ccontr)
      assume nR: "x \<notin> R"
      with yR y(2) have yx: "(y, x) \<in> (deps s)\<^sup>+" by (metis rtranclD)
      then have "x \<in> nodes s" using dn by (auto elim: tranclE)
      with anc [OF yx] nR yR show False by auto
    qed
  qed
qed

lemma no_preds_iff:
  "valid s \<Longrightarrow> card {f. (f, x) \<in> deps s \<and> f \<notin> P} = 0 \<longleftrightarrow> (\<forall>f. (f, x) \<in> deps s \<longrightarrow> f \<in> P)"
  using finite_preds [of s x P] by auto

end

interpretation og: dependency_graph valid_services node_names dep_edges
  by unfold_locales
    (auto simp: node_names_def valid_services_def dep_edges_def service_edges_def refs_of_def)

section \<open>Graph construction\<close>

lemma collect_names_ok:
  "distinct (acc @ map svc_name ss) \<Longrightarrow> collect_names acc ss = Inr (acc @ map svc_name ss)"
  by (induction ss arbitrary: acc) auto

lemma collect_names_dup:
  "distinct acc \<Longrightarrow> \<not> distinct (acc @ map svc_name ss) \<Longrightarrow>
   \<exists>n. collect_names acc ss = Inl (DuplicateName n) \<and> 2 \<le> count_list (acc @ map svc_name ss) n"
proof (induction ss arbitrary: acc)
  case Nil
  then show ?case by simp
next
  case (Cons s ss)
  show ?case
  proof (cases "svc_name s \<in> set acc")
    case True
    then have "0 < count_list acc (svc_name s)" by (meson count_list_0_iff gr0I)
    with True show ?thesis by simp
  next
    case False
    with Cons.prems have "distinct (acc @ [svc_name s])"
      and "\<not> distinct ((acc @ [svc_name s]) @ map svc_name ss)" by auto
    from Cons.IH [OF this] False show ?thesis by auto
  qed
qed

definition graph_ok :: "(string \<times> string) set \<Rightarrow> graph \<Rightarrow> bool" where
  "graph_ok E g =
     (set (seenEdge g) = E \<and>
      (\<forall>n. distinct (edges g n) \<and> set (edges g n) = {t. (n, t) \<in> E}) \<and>
      (\<forall>x. inDegree g x = int (card {f. (f, x) \<in> E})))"

lemma graph_ok_empty: "graph_ok {} empty_graph"
  by (simp add: graph_ok_def empty_graph_def)

lemma graph_ok_addEdge:
  assumes "graph_ok E g" shows "graph_ok (insert (a, b) E) (addEdge a b g)"
proof (cases "(a, b) \<in> E")
  case True
  with assms show ?thesis by (simp add: graph_ok_def addEdge_def insert_absorb)
next
  case False
  have fin: "finite {f. (f, x) \<in> E}" for x
  proof -
    have "finite E" using assms by (metis List.finite_set graph_ok_def)
    then have "finite (fst ` E)" by simp
    then show ?thesis by (rule rev_finite_subset) force
  qed
  have "{f. f = a \<or> (f, b) \<in> E} = insert a {f. (f, b) \<in> E}" by auto
  with False fin [of b] have "card {f. f = a \<or> (f, b) \<in> E} = Suc (card {f. (f, b) \<in> E})" by simp
  with assms False show ?thesis
    by (auto simp: graph_ok_def addEdge_def)
qed

lemma add_deps_ok:
  "graph_ok E g \<Longrightarrow> set deps \<subseteq> set names \<Longrightarrow>
   \<exists>g'. add_deps u e names deps g = Inr g' \<and> graph_ok (E \<union> e ` set deps) g'"
proof (induction deps arbitrary: E g)
  case Nil
  then show ?case by simp
next
  case (Cons d ds)
  have "graph_ok (insert (e d) E) (addEdge (fst (e d)) (snd (e d)) g)"
    using graph_ok_addEdge [OF Cons.prems(1)] by (metis prod.collapse)
  from Cons.IH [OF this] Cons.prems(2) show ?case by auto
qed

lemma add_deps_unknown:
  "\<not> set deps \<subseteq> set names \<Longrightarrow>
   \<exists>d. add_deps u e names deps g = Inl (u d) \<and> d \<in> set deps \<and> d \<notin> set names"
  by (induction deps arbitrary: g) auto

lemma add_service_ok:
  assumes "graph_ok E g" "refs_of s \<subseteq> set names"
  shows "\<exists>g'. add_service names s g = Inr g' \<and> graph_ok (E \<union> service_edges s) g'"
proof -
  let ?A = "(\<lambda>d. (d, svc_name s)) ` set (svc_after s)"
  let ?B = "(\<lambda>d. (svc_name s, d)) ` set (svc_before s)"
  let ?R = "(\<lambda>d. (d, svc_name s)) ` set (svc_requires s)"
  from assms(2) have r: "set (svc_after s) \<subseteq> set names" "set (svc_before s) \<subseteq> set names"
    "set (svc_requires s) \<subseteq> set names" by (auto simp: refs_of_def)
  obtain g1 where g1: "add_deps (UnknownAfter (svc_name s)) (\<lambda>dep. (dep, svc_name s)) names (svc_after s) g = Inr g1"
    "graph_ok (E \<union> ?A) g1" using add_deps_ok [OF assms(1) r(1)] by blast
  obtain g2 where g2: "add_deps (UnknownBefore (svc_name s)) (\<lambda>dep. (svc_name s, dep)) names (svc_before s) g1 = Inr g2"
    "graph_ok (E \<union> ?A \<union> ?B) g2" using add_deps_ok [OF g1(2) r(2)] by blast
  obtain g3 where g3: "add_deps (UnknownRequires (svc_name s)) (\<lambda>dep. (dep, svc_name s)) names (svc_requires s) g2 = Inr g3"
    "graph_ok (E \<union> ?A \<union> ?B \<union> ?R) g3" using add_deps_ok [OF g2(2) r(3)] by blast
  have "E \<union> ?A \<union> ?B \<union> ?R = E \<union> service_edges s" by (auto simp: service_edges_def)
  with g1(1) g2(1) g3 show ?thesis by (simp add: add_service_def)
qed

definition unknown_ref :: "string list \<Rightarrow> order_service list \<Rightarrow> order_error \<Rightarrow> bool" where
  "unknown_ref names ss e =
     (\<exists>s \<in> set ss. \<exists>d. d \<notin> set names \<and>
        (e = UnknownAfter (svc_name s) d \<and> d \<in> set (svc_after s) \<or>
         e = UnknownBefore (svc_name s) d \<and> d \<in> set (svc_before s) \<or>
         e = UnknownRequires (svc_name s) d \<and> d \<in> set (svc_requires s)))"

lemma add_service_unknown:
  assumes "\<not> refs_of s \<subseteq> set names" "graph_ok E g"
  shows "\<exists>e. add_service names s g = Inl e \<and> unknown_ref names [s] e"
proof -
  consider "\<not> set (svc_after s) \<subseteq> set names"
    | "set (svc_after s) \<subseteq> set names" "\<not> set (svc_before s) \<subseteq> set names"
    | "set (svc_after s) \<subseteq> set names" "set (svc_before s) \<subseteq> set names" "\<not> set (svc_requires s) \<subseteq> set names"
    using assms(1) unfolding refs_of_def by blast
  then show ?thesis
  proof cases
    case 1
    from add_deps_unknown [OF this, of "UnknownAfter (svc_name s)" "\<lambda>dep. (dep, svc_name s)" g]
    show ?thesis by (auto simp: add_service_def unknown_ref_def)
  next
    case 2
    from add_deps_ok [OF assms(2) 2(1)] obtain g1 where
      "add_deps (UnknownAfter (svc_name s)) (\<lambda>dep. (dep, svc_name s)) names (svc_after s) g = Inr g1" by blast
    with add_deps_unknown [OF 2(2), of "UnknownBefore (svc_name s)" "\<lambda>dep. (svc_name s, dep)" g1]
    show ?thesis by (auto simp: add_service_def unknown_ref_def)
  next
    case 3
    from add_deps_ok [OF assms(2) 3(1)] obtain g1 where g1: "graph_ok (E \<union> (\<lambda>dep. (dep, svc_name s)) ` set (svc_after s)) g1"
      "add_deps (UnknownAfter (svc_name s)) (\<lambda>dep. (dep, svc_name s)) names (svc_after s) g = Inr g1" by blast
    from add_deps_ok [OF g1(1) 3(2)] obtain g2 where
      "add_deps (UnknownBefore (svc_name s)) (\<lambda>dep. (svc_name s, dep)) names (svc_before s) g1 = Inr g2" by blast
    with g1(2) add_deps_unknown [OF 3(3), of "UnknownRequires (svc_name s)" "\<lambda>dep. (dep, svc_name s)" g2]
    show ?thesis by (auto simp: add_service_def unknown_ref_def)
  qed
qed

lemma build_graph_ok:
  "graph_ok E g \<Longrightarrow> (\<forall>s \<in> set ss. refs_of s \<subseteq> set names) \<Longrightarrow>
   \<exists>g'. build_graph names ss g = Inr g' \<and> graph_ok (E \<union> dep_edges ss) g'"
proof (induction ss arbitrary: E g)
  case Nil
  then show ?case by (simp add: dep_edges_def)
next
  case (Cons s ss)
  then obtain g1 where g1: "add_service names s g = Inr g1" "graph_ok (E \<union> service_edges s) g1"
    using add_service_ok [of E g s names] by auto
  from Cons.IH [OF g1(2)] Cons.prems(2) g1(1) show ?case
    by (auto simp: dep_edges_def Un_assoc)
qed

lemma build_graph_unknown:
  "graph_ok E g \<Longrightarrow> \<not> (\<forall>s \<in> set ss. refs_of s \<subseteq> set names) \<Longrightarrow>
   \<exists>e. build_graph names ss g = Inl e \<and> unknown_ref names ss e"
proof (induction ss arbitrary: E g)
  case Nil
  then show ?case by simp
next
  case (Cons s ss)
  show ?case
  proof (cases "refs_of s \<subseteq> set names")
    case True
    from add_service_ok [OF Cons.prems(1) True] obtain g1 where
      g1: "add_service names s g = Inr g1" "graph_ok (E \<union> service_edges s) g1" by blast
    from Cons.IH [OF g1(2)] Cons.prems(2) True g1(1) show ?thesis
      by (auto simp: unknown_ref_def)
  next
    case False
    from add_service_unknown [OF this Cons.prems(1)] show ?thesis
      by (auto simp: unknown_ref_def)
  qed
qed

text \<open>What both algorithms work on, once the names and references are valid.\<close>

lemma valid_graph:
  assumes "valid_services ss"
  obtains g where "collect_names [] ss = Inr (map svc_name ss)"
    and "build_graph (map svc_name ss) ss empty_graph = Inr g" and "graph_ok (dep_edges ss) g"
proof -
  from assms have "\<forall>s \<in> set ss. refs_of s \<subseteq> set (map svc_name ss)"
    and "collect_names [] ss = Inr (map svc_name ss)"
    using collect_names_ok [of "[]" ss] by (auto simp: valid_services_def node_names_def)
  with build_graph_ok [OF graph_ok_empty, of ss "map svc_name ss"] that show thesis by auto
qed

section \<open>Kahn's algorithm\<close>

lemma fold_relax:
  "distinct xs \<Longrightarrow>
   fold relax xs (q, deg) =
     (q @ filter (\<lambda>x. deg x = 1) xs, \<lambda>x. if x \<in> set xs then deg x - 1 else deg x)"
proof (induction xs arbitrary: q deg)
  case Nil
  then show ?case by simp
next
  case (Cons y ys)
  then have y: "y \<notin> set ys" and d: "distinct ys" by auto
  let ?deg = "deg(y := deg y - 1)"
  have "relax y (q, deg) = (if deg y = 1 then q @ [y] else q, ?deg)"
    by (simp add: relax_def)
  moreover have "filter (\<lambda>x. ?deg x = 1) ys = filter (\<lambda>x. deg x = 1) ys"
    using y by (intro filter_cong) auto
  ultimately show ?case
    using y by (auto simp: Cons.IH [OF d] fun_eq_iff)
qed

definition kahn_inv :: "order_service list \<Rightarrow> kahn \<Rightarrow> bool" where
  "kahn_inv ss k =
     (distinct (queue k) \<and> head k \<le> length (queue k) \<and> result k = take (head k) (queue k) \<and>
      set (queue k) = {x \<in> node_names ss. degree k x = 0} \<and>
      (\<forall>x. degree k x = int (card {f. (f, x) \<in> dep_edges ss \<and> f \<notin> set (result k)})) \<and>
      ordered_by (dep_edges ss) (queue k))"

lemma kahn_invD:
  assumes "kahn_inv ss k"
  shows "distinct (queue k)" and "head k \<le> length (queue k)" and "result k = take (head k) (queue k)"
    and "set (queue k) = {x \<in> node_names ss. degree k x = 0}"
    and "degree k x = int (card {f. (f, x) \<in> dep_edges ss \<and> f \<notin> set (result k)})"
    and "ordered_by (dep_edges ss) (queue k)"
  using assms unfolding kahn_inv_def by blast+

lemma kahn_inv_init:
  assumes "valid_services ss" "graph_ok (dep_edges ss) g"
  shows "kahn_inv ss (kahn_init ss g)"
proof -
  have deg: "inDegree g x = int (card {f. (f, x) \<in> dep_edges ss})" for x
    using assms(2) by (simp add: graph_ok_def)
  have no: "inDegree g x = 0 \<longleftrightarrow> (\<forall>f. (f, x) \<notin> dep_edges ss)" for x
    using og.no_preds_iff [OF assms(1), of x "{}"] deg by simp
  have "ordered_by (dep_edges ss) (queue (kahn_init ss g))"
    unfolding ordered_by_def
  proof (intro allI impI)
    fix i a
    assume i: "i < length (queue (kahn_init ss g))" and a: "(a, queue (kahn_init ss g) ! i) \<in> dep_edges ss"
    from i have "queue (kahn_init ss g) ! i \<in> set (queue (kahn_init ss g))" by (rule nth_mem)
    then have "inDegree g (queue (kahn_init ss g) ! i) = 0" by (simp add: kahn_init_def)
    with a no show "a \<in> set (take i (queue (kahn_init ss g)))" by blast
  qed
  with assms deg show ?thesis
    by (auto simp: kahn_inv_def kahn_init_def valid_services_def node_names_def)
qed

lemma kahn_inv_step:
  assumes v: "valid_services ss" and g: "graph_ok (dep_edges ss) g"
    and k: "kahn_inv ss k" and h: "head k < length (queue k)"
  shows "kahn_inv ss (kahn_step g k)"
proof -
  let ?E = "dep_edges ss" and ?node = "queue k ! head k"
  let ?succ = "edges g ?node" and ?P = "set (result k)"
  let ?new = "filter (\<lambda>x. degree k x = 1) ?succ"
  let ?deg = "\<lambda>x. if x \<in> set ?succ then degree k x - 1 else degree k x"
  note dist = kahn_invD(1) [OF k] and res = kahn_invD(3) [OF k] and q = kahn_invD(4) [OF k]
    and deg = kahn_invD(5) [OF k] and ord = kahn_invD(6) [OF k]
  from g have succ: "distinct ?succ" "set ?succ = {t. (?node, t) \<in> ?E}" by (auto simp: graph_ok_def)
  have step: "kahn_step g k = \<lparr>queue = queue k @ ?new, head = Suc (head k),
      result = result k @ [?node], degree = ?deg\<rparr>"
    by (simp add: kahn_step_def Let_def fold_relax [OF succ(1)])
  have notin: "?node \<notin> ?P"
    using dist h unfolding res by (auto simp: in_set_conv_nth nth_eq_iff_index_eq)
  have deg': "?deg x = int (card {f. (f, x) \<in> ?E \<and> f \<notin> insert ?node ?P})" for x
    using og.card_preds_insert [OF v notin, of x] deg [of x] succ(2) by auto
  have pos: "degree k x \<noteq> 0" if "x \<in> set ?succ" for x
    using og.no_preds_iff [OF v, of x ?P] deg [of x] that succ(2) notin by auto
  have inN: "x \<in> node_names ss" if "x \<in> set ?succ" for x
    using that succ(2) og.deps_in_nodes [OF v] by auto
  have set': "set (queue k @ ?new) = {x \<in> node_names ss. ?deg x = 0}"
    using q pos inN by auto
  have preds: "a \<in> set (queue k)" if "y \<in> set ?new" "(a, y) \<in> ?E" for y a
  proof -
    from that(1) have "?deg y = 0" by auto
    with deg' [of y] og.no_preds_iff [OF v, of y "insert ?node ?P"] that(2)
    have "a \<in> insert ?node ?P" by auto
    then show ?thesis using h res by (auto dest: in_set_takeD)
  qed
  have "result k @ [?node] = take (Suc (head k)) (queue k @ ?new)"
    using res h by (simp add: take_Suc_conv_app_nth)
  moreover have "distinct (queue k @ ?new)"
    using dist succ(1) q pos by auto
  moreover have "ordered_by ?E (queue k @ ?new)"
    by (rule ordered_by_append [OF ord preds])
  moreover have "set (result k @ [?node]) = insert ?node ?P" by auto
  ultimately show ?thesis
    using h set' deg' unfolding kahn_inv_def step by simp
qed

lemma kahn_loop_returns:
  assumes v: "valid_services ss" and g: "graph_ok (dep_edges ss) g"
  shows "\<exists>k. kahn_loop g (kahn_init ss g) = Some k \<and> kahn_inv ss k \<and> head k = length (queue k)"
proof -
  let ?more = "\<lambda>k. head k < length (queue k)"
  let ?m = "\<lambda>k. card (node_names ss) - head k"
  have small: "length (queue k) \<le> card (node_names ss)" if "kahn_inv ss k" for k
  proof -
    have "set (queue k) \<subseteq> node_names ss" and "distinct (queue k)"
      using kahn_invD(1,4) [OF that] by auto
    then show ?thesis by (metis card_mono distinct_card og.finite_nodes)
  qed
  have "\<exists>k. while_option ?more (kahn_step g) (kahn_init ss g) = Some k"
  proof (rule measure_while_option_Some [where P = "kahn_inv ss" and f = ?m])
    fix k assume k: "kahn_inv ss k" "?more k"
    with small [of k] have "?m (kahn_step g k) < ?m k" by (simp add: kahn_step_def Let_def)
    with kahn_inv_step [OF v g k] show "kahn_inv ss (kahn_step g k) \<and> ?m (kahn_step g k) < ?m k" by simp
  qed (rule kahn_inv_init [OF v g])
  then obtain k where k: "while_option ?more (kahn_step g) (kahn_init ss g) = Some k" by blast
  have "kahn_inv ss k"
    by (rule while_option_rule [where P = "kahn_inv ss", OF _ k])
       (use kahn_inv_step [OF v g] kahn_inv_init [OF v g] in auto)
  moreover have "\<not> ?more k" using while_option_stop [OF k] .
  ultimately show ?thesis
    using k kahn_invD(2) [of ss k] by (intro exI [of _ k]) (simp add: kahn_loop_def)
qed

text \<open>What a completed run leaves unsorted is a set in which every node has a predecessor.\<close>

lemma kahn_inv_final:
  assumes v: "valid_services ss" and k: "kahn_inv ss k" "head k = length (queue k)"
  shows "set (result k) = {x \<in> node_names ss. degree k x = 0}"
    and "distinct (result k)" and "ordered_by (dep_edges ss) (result k)"
    and "\<And>x. x \<in> node_names ss \<Longrightarrow> x \<notin> set (result k) \<Longrightarrow> 0 < degree k x"
    and "\<And>x. x \<in> node_names ss \<Longrightarrow> x \<notin> set (result k) \<Longrightarrow>
           \<exists>y. y \<in> node_names ss \<and> y \<notin> set (result k) \<and> (y, x) \<in> dep_edges ss"
proof -
  from kahn_invD(3) [OF k(1)] k(2) have r: "result k = queue k" by simp
  show res: "set (result k) = {x \<in> node_names ss. degree k x = 0}"
    unfolding r by (rule kahn_invD(4) [OF k(1)])
  show "distinct (result k)" unfolding r by (rule kahn_invD(1) [OF k(1)])
  show "ordered_by (dep_edges ss) (result k)" unfolding r by (rule kahn_invD(6) [OF k(1)])
  fix x assume x: "x \<in> node_names ss" "x \<notin> set (result k)"
  note d = kahn_invD(5) [OF k(1), of x]
  from x res have nz: "degree k x \<noteq> 0" by blast
  with d show "0 < degree k x" by linarith
  from nz d og.no_preds_iff [OF v, of x "set (result k)"] obtain y where
    "(y, x) \<in> dep_edges ss" "y \<notin> set (result k)" by auto
  with og.deps_in_nodes [OF v] show
    "\<exists>y. y \<in> node_names ss \<and> y \<notin> set (result k) \<and> (y, x) \<in> dep_edges ss" by blast
qed

section \<open>The layering algorithm\<close>

lemma fold_decrement:
  "distinct ys \<Longrightarrow>
   fold (\<lambda>nb d. d(nb := d nb - 1)) ys deg = (\<lambda>x. if x \<in> set ys then deg x - 1 else deg x :: int)"
  by (induction ys arbitrary: deg) (auto simp: fun_eq_iff)

lemma drain_eq:
  assumes "graph_ok E g"
  shows "drain g n deg x = (if x = n then - 1 else deg x) - (if (n, x) \<in> E then 1 else 0)"
proof -
  from assms have "distinct (edges g n)" "set (edges g n) = {t. (n, t) \<in> E}"
    by (simp_all add: graph_ok_def)
  then show ?thesis by (simp add: drain_def fold_decrement)
qed

lemma fold_drain:
  assumes g: "graph_ok E g"
  shows "distinct xs \<Longrightarrow> (\<And>a b. a \<in> set xs \<Longrightarrow> b \<in> set xs \<Longrightarrow> (a, b) \<notin> E) \<Longrightarrow>
   fold (drain g) xs deg x =
     (if x \<in> set xs then - 1 else deg x - int (card {n \<in> set xs. (n, x) \<in> E}))"
proof (induction xs arbitrary: deg)
  case Nil
  then show ?case by simp
next
  case (Cons y ys)
  from Cons.prems have y: "y \<notin> set ys" and d: "distinct ys"
    and ne: "\<And>a b. a \<in> set (y # ys) \<Longrightarrow> b \<in> set (y # ys) \<Longrightarrow> (a, b) \<notin> E" by auto
  have IH: "fold (drain g) ys (drain g y deg) x =
     (if x \<in> set ys then - 1 else drain g y deg x - int (card {n \<in> set ys. (n, x) \<in> E}))"
    using Cons.IH [OF d] ne by simp
  show ?case
  proof (cases "x \<in> set (y # ys)")
    case True
    then have "{n \<in> set ys. (n, x) \<in> E} = {}" "(y, x) \<notin> E" using ne by auto
    with True y IH drain_eq [OF g, of y deg x] show ?thesis by auto
  next
    case False
    have "{n \<in> set (y # ys). (n, x) \<in> E} =
        (if (y, x) \<in> E then insert y {n \<in> set ys. (n, x) \<in> E} else {n \<in> set ys. (n, x) \<in> E})" by auto
    with False y IH drain_eq [OF g, of y deg x] show ?thesis by simp
  qed
qed

abbreviation done_nodes :: "layering \<Rightarrow> string set" where
  "done_nodes st \<equiv> set (concat (layers st))"

text \<open>Each layer is sorted, holds no dependency of its own, and starts as early as it can.\<close>

definition layers_ok :: "('a::linorder \<times> 'a) set \<Rightarrow> 'a list list \<Rightarrow> bool" where
  "layers_ok E ls =
     (distinct (concat ls) \<and>
      (\<forall>i < length ls. ls ! i \<noteq> [] \<and> sorted (ls ! i) \<and>
         (\<forall>x \<in> set (ls ! i).
            (\<forall>f. (f, x) \<in> E \<longrightarrow> (\<exists>j < i. f \<in> set (ls ! j))) \<and>
            (0 < i \<longrightarrow> (\<exists>f \<in> set (ls ! (i - 1)). (f, x) \<in> E)))))"

definition layers_inv :: "order_service list \<Rightarrow> layering \<Rightarrow> bool" where
  "layers_inv ss st =
     (layers_ok (dep_edges ss) (layers st) \<and>
      done_nodes st \<subseteq> node_names ss \<and> emitted st = card (done_nodes st) \<and>
      (\<forall>x. ldegree st x =
         (if x \<in> done_nodes st then - 1
          else int (card {f. (f, x) \<in> dep_edges ss \<and> f \<notin> done_nodes st}))) \<and>
      (\<forall>x \<in> node_names ss. layers st \<noteq> [] \<longrightarrow> ldegree st x = 0 \<longrightarrow> (\<exists>f \<in> set (last (layers st)). (f, x) \<in> dep_edges ss)))"

lemma layers_invD:
  assumes "layers_inv ss st"
  shows "layers_ok (dep_edges ss) (layers st)" and "done_nodes st \<subseteq> node_names ss"
    and "emitted st = card (done_nodes st)"
    and "x \<in> done_nodes st \<Longrightarrow> ldegree st x = - 1"
    and "x \<notin> done_nodes st \<Longrightarrow> ldegree st x = int (card {f. (f, x) \<in> dep_edges ss \<and> f \<notin> done_nodes st})"
    and "x \<in> node_names ss \<Longrightarrow> layers st \<noteq> [] \<Longrightarrow> ldegree st x = 0 \<Longrightarrow> \<exists>f \<in> set (last (layers st)). (f, x) \<in> dep_edges ss"
  using assms unfolding layers_inv_def by simp_all

lemma layers_inv_init:
  assumes "graph_ok (dep_edges ss) g" shows "layers_inv ss (layers_init g)"
  using assms by (simp add: layers_inv_def layers_init_def layers_ok_def graph_ok_def)

lemma layers_ok_preds:
  assumes "layers_ok E ls" "x \<in> set (concat ls)" "(f, x) \<in> E"
  shows "f \<in> set (concat ls)"
proof -
  from assms(2) obtain i where "i < length ls" "x \<in> set (ls ! i)"
    unfolding in_concat_nth by blast
  with assms(1,3) obtain j where "j < i" "f \<in> set (ls ! j)" unfolding layers_ok_def by blast
  with \<open>i < length ls\<close> show ?thesis unfolding in_concat_nth by (meson order.strict_trans)
qed

lemma layers_ok_snoc:
  assumes ok: "layers_ok E ls" and l: "l \<noteq> []" "distinct l" "sorted l" "set l \<inter> set (concat ls) = {}"
    and preds: "\<And>x f. x \<in> set l \<Longrightarrow> (f, x) \<in> E \<Longrightarrow> f \<in> set (concat ls)"
    and early: "\<And>x. x \<in> set l \<Longrightarrow> ls \<noteq> [] \<Longrightarrow> \<exists>f \<in> set (last ls). (f, x) \<in> E"
  shows "layers_ok E (ls @ [l])"
  unfolding layers_ok_def
proof (intro conjI allI impI)
  show "distinct (concat (ls @ [l]))" using ok l by (auto simp: layers_ok_def)
next
  fix i assume i: "i < length (ls @ [l])"
  show "(ls @ [l]) ! i \<noteq> []" "sorted ((ls @ [l]) ! i)"
    using ok l i by (auto simp: layers_ok_def nth_append less_Suc_eq)
next
  fix i assume i: "i < length (ls @ [l])"
  show "\<forall>x \<in> set ((ls @ [l]) ! i).
      (\<forall>f. (f, x) \<in> E \<longrightarrow> (\<exists>j < i. f \<in> set ((ls @ [l]) ! j))) \<and>
      (0 < i \<longrightarrow> (\<exists>f \<in> set ((ls @ [l]) ! (i - 1)). (f, x) \<in> E))"
  proof (cases "i < length ls")
    case True
    then have eq: "(ls @ [l]) ! j = ls ! j" if "j \<le> i" for j using that by (simp add: nth_append)
    from True ok show ?thesis
      unfolding layers_ok_def using eq by (metis diff_le_self less_imp_le order_refl)
  next
    case False
    with i have i: "i = length ls" by simp
    show ?thesis
    proof (intro ballI conjI allI impI)
      fix x f assume "x \<in> set ((ls @ [l]) ! i)" "(f, x) \<in> E"
      with preds i have "f \<in> set (concat ls)" by simp
      then obtain j where "j < length ls" "f \<in> set (ls ! j)" unfolding in_concat_nth by blast
      then show "\<exists>j < i. f \<in> set ((ls @ [l]) ! j)" using i by (auto simp: nth_append intro!: exI [of _ j])
    next
      fix x assume x: "x \<in> set ((ls @ [l]) ! i)" and "0 < i"
      with i have "ls \<noteq> []" by auto
      with early x i show "\<exists>f \<in> set ((ls @ [l]) ! (i - 1)). (f, x) \<in> E"
        by (simp add: nth_append last_conv_nth)
    qed
  qed
qed

lemma layers_step_next:
  "filter (\<lambda>n. ldegree st n = 0) names \<noteq> [] \<Longrightarrow>
   layers_step names g st =
     st\<lparr>layers := layers st @ [sort (filter (\<lambda>n. ldegree st n = 0) names)],
        emitted := emitted st + length (filter (\<lambda>n. ldegree st n = 0) names),
        ldegree := fold (drain g) (sort (filter (\<lambda>n. ldegree st n = 0) names)) (ldegree st)\<rparr>"
  by (simp add: layers_step_def Let_def)

lemma layers_step_stuck:
  "filter (\<lambda>n. ldegree st n = 0) names = [] \<Longrightarrow>
   layers_step names g st = st\<lparr>stuck := Some (CycleAmong (cycled names (ldegree st)))\<rparr>"
  by (simp add: layers_step_def)

lemma layers_inv_step:
  assumes v: "valid_services ss" and g: "graph_ok (dep_edges ss) g" and st: "layers_inv ss st"
    and l: "filter (\<lambda>n. ldegree st n = 0) (map svc_name ss) \<noteq> []"
  shows "layers_inv ss (layers_step (map svc_name ss) g st)"
proof -
  let ?E = "dep_edges ss" and ?L = "filter (\<lambda>n. ldegree st n = 0) (map svc_name ss)"
  let ?l = "sort ?L" and ?D = "done_nodes st"
  let ?st = "layers_step (map svc_name ss) g st"
  note inv = layers_invD [OF st]
  have step: "?st = st\<lparr>layers := layers st @ [?l], emitted := emitted st + length ?L,
      ldegree := fold (drain g) ?l (ldegree st)\<rparr>"
    by (rule layers_step_next [OF l])
  have L: "set ?l = {x \<in> node_names ss. ldegree st x = 0}" by (auto simp: node_names_def)
  have dl: "distinct ?l" using v by (simp add: valid_services_def)
  have disj: "set ?l \<inter> ?D = {}" using inv(4) L by force
  have preds: "f \<in> ?D" if "x \<in> set ?l" "(f, x) \<in> ?E" for x f
  proof -
    from that(1) L disj have "ldegree st x = 0" "x \<notin> ?D" by auto
    with inv(5) [of x] have "card {f. (f, x) \<in> ?E \<and> f \<notin> ?D} = 0" by simp
    with that(2) og.no_preds_iff [OF v, of x ?D] show ?thesis by blast
  qed
  have indep: "(a, b) \<notin> ?E" if "a \<in> set ?l" "b \<in> set ?l" for a b
    using preds [OF that(2)] that(1) disj by blast
  have ok: "layers_ok ?E (layers st @ [?l])"
  proof (rule layers_ok_snoc [OF inv(1) _ dl _ disj preds])
    show "?l \<noteq> []" using l by (metis set_empty set_sort)
    show "\<exists>f \<in> set (last (layers st)). (f, x) \<in> ?E" if "x \<in> set ?l" "layers st \<noteq> []" for x
      using inv(6) [OF _ that(2), of x] that(1) L by blast
  qed simp_all
  have D': "done_nodes ?st = ?D \<union> set ?l" by (simp add: step)
  have deg: "ldegree ?st x = (if x \<in> set ?l then - 1 else ldegree st x - int (card {n \<in> set ?l. (n, x) \<in> ?E}))" for x
    using fold_drain [OF g dl indep, where deg = "ldegree st" and x = x] by (simp add: step)
  have deg_done: "ldegree ?st x = - 1" if "x \<in> done_nodes ?st" for x
  proof (cases "x \<in> set ?l")
    case False
    with that D' have x: "x \<in> ?D" by blast
    with layers_ok_preds [OF inv(1)] disj have "{n \<in> set ?l. (n, x) \<in> ?E} = {}" by blast
    with False deg inv(4) [OF x] show ?thesis by simp
  qed (simp add: deg)
  have deg_left: "ldegree ?st x = int (card {f. (f, x) \<in> ?E \<and> f \<notin> done_nodes ?st})" if "x \<notin> done_nodes ?st" for x
  proof -
    let ?A = "{f. (f, x) \<in> ?E \<and> f \<notin> ?D}" and ?B = "{n \<in> set ?l. (n, x) \<in> ?E}"
    from that D' have x: "x \<notin> ?D" "x \<notin> set ?l" by auto
    have "{f. (f, x) \<in> ?E \<and> f \<notin> done_nodes ?st} = ?A - ?B" using D' by auto
    moreover have "?B \<subseteq> ?A" using disj by auto
    moreover have "finite ?A" by (rule og.finite_preds [OF v])
    ultimately have "int (card {f. (f, x) \<in> ?E \<and> f \<notin> done_nodes ?st}) = int (card ?A) - int (card ?B)"
      by (simp add: int_card_Diff)
    with x(2) deg [of x] inv(5) [OF x(1)] show ?thesis by simp
  qed
  have early: "\<exists>f \<in> set (last (layers ?st)). (f, x) \<in> ?E" if "x \<in> node_names ss" "ldegree ?st x = 0" for x
  proof (rule ccontr)
    assume "\<not> ?thesis"
    then have "{n \<in> set ?l. (n, x) \<in> ?E} = {}" by (auto simp: step)
    with that(2) deg [of x] have "ldegree st x = 0" "x \<notin> set ?l" by (auto split: if_splits)
    with that(1) L show False by blast
  qed
  have "card (done_nodes ?st) = card ?D + card (set ?l)"
    unfolding D' using disj by (subst card_Un_disjoint) auto
  moreover have "card (set ?l) = length ?L" using distinct_card [OF dl] by simp
  ultimately have "emitted ?st = card (done_nodes ?st)"
    using inv(3) by (simp only: step) simp
  moreover have "done_nodes ?st \<subseteq> node_names ss" using D' L inv(2) by blast
  moreover have "layers_ok ?E (layers ?st)" using ok by (simp add: step)
  moreover have "\<forall>x. ldegree ?st x = (if x \<in> done_nodes ?st then - 1
      else int (card {f. (f, x) \<in> ?E \<and> f \<notin> done_nodes ?st}))"
    using deg_done deg_left by presburger
  ultimately show ?thesis
    unfolding layers_inv_def using early by blast
qed

text \<open>The loop as a whole: it returns, stuck exactly when a source-free remainder is left.\<close>

definition layers_end :: "order_service list \<Rightarrow> layering \<Rightarrow> bool" where
  "layers_end ss st =
     (layers_inv ss st \<and>
      (\<forall>e. stuck st = Some e \<longrightarrow>
         e = CycleAmong (cycled (map svc_name ss) (ldegree st)) \<and> emitted st < length ss \<and>
         (\<forall>x \<in> node_names ss. ldegree st x \<noteq> 0)))"

lemma layers_step_end:
  assumes v: "valid_services ss" and g: "graph_ok (dep_edges ss) g"
    and st: "layers_end ss st" "stuck st = None" "emitted st < length ss"
  shows "layers_end ss (layers_step (map svc_name ss) g st)"
    and "stuck (layers_step (map svc_name ss) g st) = None \<Longrightarrow>
           emitted st < emitted (layers_step (map svc_name ss) g st)"
proof -
  let ?L = "filter (\<lambda>n. ldegree st n = 0) (map svc_name ss)"
  let ?st = "layers_step (map svc_name ss) g st"
  from st(1) have inv: "layers_inv ss st" by (simp add: layers_end_def)
  show "layers_end ss ?st"
  proof (cases "?L = []")
    case True
    then have no: "\<forall>x \<in> node_names ss. ldegree st x \<noteq> 0"
      by (auto simp: node_names_def filter_empty_conv)
    with inv st(3) layers_step_stuck [OF True, of g] show ?thesis
      by (simp add: layers_end_def layers_inv_def)
  next
    case False
    have "stuck ?st = None" using st(2) unfolding layers_step_next [OF False] by simp
    with layers_inv_step [OF v g inv False] show ?thesis by (simp add: layers_end_def)
  qed
  show "emitted st < emitted ?st" if "stuck ?st = None"
  proof -
    have "?L \<noteq> []" using that layers_step_stuck [of st "map svc_name ss" g] by force
    then have "0 < length ?L" by blast
    then show ?thesis unfolding layers_step_next [OF \<open>?L \<noteq> []\<close>] by (simp del: length_filter_map)
  qed
qed

lemma layers_loop_returns:
  assumes v: "valid_services ss" and g: "graph_ok (dep_edges ss) g"
  shows "\<exists>st. layers_loop (map svc_name ss) g (layers_init g) = Some st \<and> layers_end ss st \<and>
           (stuck st = None \<longrightarrow> done_nodes st = node_names ss)"
proof -
  let ?more = "\<lambda>st. stuck st = None \<and> emitted st < length (map svc_name ss)"
  let ?step = "layers_step (map svc_name ss) g"
  let ?m = "\<lambda>st. if stuck st = None then Suc (length ss - emitted st) else 0"
  have init: "layers_end ss (layers_init g)"
    using layers_inv_init [OF g] by (simp add: layers_end_def layers_init_def)
  have "\<exists>st. while_option ?more ?step (layers_init g) = Some st"
  proof (rule measure_while_option_Some [where P = "layers_end ss" and f = ?m])
    fix st assume st: "layers_end ss st" "?more st"
    note s = layers_step_end [OF v g st(1)]
    have "?m (?step st) < ?m st" using s(2) st(2) by auto
    with s(1) st(2) show "layers_end ss (?step st) \<and> ?m (?step st) < ?m st" by simp
  qed (rule init)
  then obtain st where st: "while_option ?more ?step (layers_init g) = Some st" by blast
  have "layers_end ss st"
    by (rule while_option_rule [where P = "layers_end ss", OF _ st])
       (use layers_step_end(1) [OF v g] init in auto)
  moreover from this have inv: "layers_inv ss st" by (simp add: layers_end_def)
  have "done_nodes st = node_names ss" if "stuck st = None"
  proof -
    have "card (node_names ss) \<le> card (done_nodes st)"
    proof -
      have "card (node_names ss) = length ss"
        using v distinct_card [of "map svc_name ss"] by (simp add: valid_services_def node_names_def)
      moreover have "length ss \<le> emitted st" using while_option_stop [OF st] that by simp
      moreover note layers_invD(3) [OF inv]
      ultimately show ?thesis by simp
    qed
    with layers_invD(2) [OF inv] show ?thesis by (simp only: card_seteq og.finite_nodes)
  qed
  ultimately show ?thesis using st by (auto simp: layers_loop_def)
qed

lemma layers_ok_rank:
  assumes "layers_ok E ls"
  obtains rank :: "'a::linorder \<Rightarrow> nat" where
    "\<And>x f. x \<in> set (concat ls) \<Longrightarrow> (f, x) \<in> E \<Longrightarrow> rank f < rank x"
proof -
  define rank where "rank x = (LEAST i. i < length ls \<and> x \<in> set (ls ! i))" for x
  have "rank f < rank x" if x: "x \<in> set (concat ls)" and f: "(f, x) \<in> E" for x f
  proof -
    from x obtain i where "i < length ls \<and> x \<in> set (ls ! i)" unfolding in_concat_nth by blast
    then have r: "rank x < length ls" "x \<in> set (ls ! rank x)"
      unfolding rank_def by (metis (mono_tags, lifting) LeastI)+
    with assms f obtain j where j: "j < rank x" "f \<in> set (ls ! j)" unfolding layers_ok_def by blast
    from j(1) r(1) have "j < length ls" by simp
    with j(2) have "rank f \<le> j" unfolding rank_def by (intro Least_le) simp
    with j show ?thesis by simp
  qed
  with that show thesis by blast
qed

section \<open>Correctness of both algorithms\<close>

definition cycle_error :: "order_service list \<Rightarrow> order_error" where
  "cycle_error ss = CycleAmong (sorted_list_of_set (cycle_reach (dep_edges ss)))"

lemma cycled_eq:
  assumes "distinct names" "R \<subseteq> set names" "\<And>x. x \<in> set names \<Longrightarrow> 0 < deg x \<longleftrightarrow> x \<in> R"
  shows "cycled names deg = sorted_list_of_set R"
proof -
  have "set (filter (\<lambda>n. 0 < deg n) names) = R" using assms(2,3) by auto
  then show ?thesis unfolding cycled_def
    using assms(1) by (metis distinct_filter sorted_list_of_set_sort_remdups distinct_remdups_id)
qed

lemma kahn_residue:
  assumes v: "valid_services ss" and k: "kahn_inv ss k" "head k = length (queue k)"
  shows "node_names ss - set (result k) = cycle_reach (dep_edges ss)"
proof -
  note f = kahn_inv_final [OF v k]
  obtain rank :: "string \<Rightarrow> nat" where
    rank: "\<And>x f. x \<in> set (result k) \<Longrightarrow> (f, x) \<in> dep_edges ss \<Longrightarrow> rank f < rank x"
    using ordered_by_rank [OF f(2,3)] by blast
  have pred: "f \<in> set (result k)" if "x \<in> set (result k)" "(f, x) \<in> dep_edges ss" for x f
    using that f(3) unfolding ordered_by_def by (metis in_set_conv_nth in_set_takeD)
  show ?thesis
  proof (rule og.residue_cyclic [OF v, where rank = rank])
    show "node_names ss - set (result k) \<subseteq> node_names ss" by blast
    show "\<exists>y \<in> node_names ss - set (result k). (y, x) \<in> dep_edges ss"
      if "x \<in> node_names ss - set (result k)" for x using f(5) [of x] that by blast
    show "g \<notin> node_names ss - set (result k) \<and> rank g < rank x"
      if "x \<in> node_names ss - (node_names ss - set (result k))" "(g, x) \<in> dep_edges ss" for x g
      using that rank [of x g] pred [of x g] by blast
  qed
qed

lemma TopoSort_run:
  assumes v: "valid_services ss"
  shows "(\<exists>xs. TopoSort ss = Some (Inr xs) \<and> distinct xs \<and> set xs = node_names ss \<and>
            ordered_by (dep_edges ss) xs) \<and> acyclic (dep_edges ss) \<or>
         TopoSort ss = Some (Inl (cycle_error ss)) \<and> \<not> acyclic (dep_edges ss)"
proof -
  obtain g where g: "collect_names [] ss = Inr (map svc_name ss)"
    "build_graph (map svc_name ss) ss empty_graph = Inr g" "graph_ok (dep_edges ss) g"
    using valid_graph [OF v] by blast
  obtain k where k: "kahn_loop g (kahn_init ss g) = Some k" "kahn_inv ss k" "head k = length (queue k)"
    using kahn_loop_returns [OF v g(3)] by blast
  note f = kahn_inv_final [OF v k(2,3)] and res = kahn_residue [OF v k(2,3)]
  have d: "distinct (map svc_name ss)" and n: "set (map svc_name ss) = node_names ss"
    using v by (simp_all add: valid_services_def node_names_def)
  have len: "length (result k) = length ss \<longleftrightarrow> set (result k) = node_names ss"
  proof -
    have "card (node_names ss) = length ss" "card (set (result k)) = length (result k)"
      using distinct_card [OF d] distinct_card [OF f(2)] n by simp_all
    moreover have "set (result k) \<subseteq> node_names ss" using f(1) by blast
    ultimately show ?thesis using card_subset_eq [OF og.finite_nodes] by metis
  qed
  have "cycled (map svc_name ss) (degree k) = sorted_list_of_set (cycle_reach (dep_edges ss))"
    using f(1,4) res by (intro cycled_eq [OF d]) (auto simp only: n)
  then have "TopoSort ss = Some (if set (result k) = node_names ss then Inr (result k) else Inl (cycle_error ss))"
    using g(1,2) k(1) len by (simp add: TopoSort_def cycle_error_def)
  moreover have "set (result k) = node_names ss \<longleftrightarrow> acyclic (dep_edges ss)"
    using res f(1) cycle_reach_empty [of "dep_edges ss"] by blast
  ultimately show ?thesis using f(2,3) by (cases "acyclic (dep_edges ss)") simp_all
qed

lemma layers_residue:
  assumes v: "valid_services ss" and inv: "layers_inv ss st"
    and stop: "\<forall>x \<in> node_names ss. ldegree st x \<noteq> 0"
  shows "node_names ss - done_nodes st = cycle_reach (dep_edges ss)"
proof -
  note ok = layers_invD(1) [OF inv]
  obtain rank :: "string \<Rightarrow> nat" where
    rank: "\<And>x f. x \<in> done_nodes st \<Longrightarrow> (f, x) \<in> dep_edges ss \<Longrightarrow> rank f < rank x"
    using layers_ok_rank [OF ok] by blast
  show ?thesis
  proof (rule og.residue_cyclic [OF v, where rank = rank])
    show "node_names ss - done_nodes st \<subseteq> node_names ss" by blast
    show "\<exists>y \<in> node_names ss - done_nodes st. (y, x) \<in> dep_edges ss"
      if x: "x \<in> node_names ss - done_nodes st" for x
    proof -
      from x stop have "card {f. (f, x) \<in> dep_edges ss \<and> f \<notin> done_nodes st} \<noteq> 0"
        using layers_invD(5) [OF inv, of x] by (metis DiffD1 DiffD2 of_nat_0)
      then obtain y where "(y, x) \<in> dep_edges ss" "y \<notin> done_nodes st"
        unfolding og.no_preds_iff [OF v] by blast
      with og.deps_in_nodes [OF v] show ?thesis by blast
    qed
    show "g \<notin> node_names ss - done_nodes st \<and> rank g < rank x"
      if "x \<in> node_names ss - (node_names ss - done_nodes st)" "(g, x) \<in> dep_edges ss" for x g
      using that rank [of x g] layers_ok_preds [OF ok, of x g] by blast
  qed
qed

lemma TopoLayers_run:
  assumes v: "valid_services ss"
  shows "(\<exists>ls. TopoLayers ss = Some (Inr ls) \<and> layers_ok (dep_edges ss) ls \<and>
            set (concat ls) = node_names ss) \<and> acyclic (dep_edges ss) \<or>
         TopoLayers ss = Some (Inl (cycle_error ss)) \<and> \<not> acyclic (dep_edges ss)"
proof -
  obtain g where g: "collect_names [] ss = Inr (map svc_name ss)"
    "build_graph (map svc_name ss) ss empty_graph = Inr g" "graph_ok (dep_edges ss) g"
    using valid_graph [OF v] by blast
  obtain st where st: "layers_loop (map svc_name ss) g (layers_init g) = Some st" "layers_end ss st"
    "stuck st = None \<longrightarrow> done_nodes st = node_names ss"
    using layers_loop_returns [OF v g(3)] by (elim exE conjE)
  from st(2) have inv: "layers_inv ss st" by (simp add: layers_end_def)
  have run: "TopoLayers ss = Some (case stuck st of Some e \<Rightarrow> Inl e | None \<Rightarrow> Inr (layers st))"
    using g(1,2) st(1) by (simp add: TopoLayers_def)
  show ?thesis
  proof (cases "stuck st")
    case None
    obtain rank :: "string \<Rightarrow> nat" where
      "\<And>x f. x \<in> done_nodes st \<Longrightarrow> (f, x) \<in> dep_edges ss \<Longrightarrow> rank f < rank x"
      using layers_ok_rank [OF layers_invD(1) [OF inv]] by blast
    moreover have "x \<in> done_nodes st" if "(f, x) \<in> dep_edges ss" for f x
      using None st(3) og.deps_in_nodes [OF v] that by blast
    ultimately have "acyclic (dep_edges ss)" by (intro ranked_acyclic [of _ rank]) blast
    with None run st(3) layers_invD(1) [OF inv] show ?thesis by auto
  next
    case (Some e)
    with st(2) have e: "e = CycleAmong (cycled (map svc_name ss) (ldegree st))" "emitted st < length ss"
      and stop: "\<forall>x \<in> node_names ss. ldegree st x \<noteq> 0" by (simp_all add: layers_end_def)
    note res = layers_residue [OF v inv stop]
    have d: "distinct (map svc_name ss)" and n: "set (map svc_name ss) = node_names ss"
      using v by (simp_all add: valid_services_def node_names_def)
    have pos: "0 < ldegree st x \<longleftrightarrow> x \<in> cycle_reach (dep_edges ss)" if "x \<in> node_names ss" for x
    proof (cases "x \<in> done_nodes st")
      case True
      with res layers_invD(4) [OF inv] show ?thesis by auto
    next
      case False
      have "0 \<le> ldegree st x" unfolding layers_invD(5) [OF inv False] by simp
      moreover have "ldegree st x \<noteq> 0" using stop that by blast
      ultimately have "0 < ldegree st x" by simp
      moreover have "x \<in> cycle_reach (dep_edges ss)" using False that res by blast
      ultimately show ?thesis by blast
    qed
    have "cycled (map svc_name ss) (ldegree st) = sorted_list_of_set (cycle_reach (dep_edges ss))"
      using res pos by (intro cycled_eq [OF d]) (auto simp only: n)
    moreover have "done_nodes st \<noteq> node_names ss"
      using e(2) layers_invD(3) [OF inv] distinct_card [OF d] n by auto
    then have "\<not> acyclic (dep_edges ss)"
      using res layers_invD(2) [OF inv] cycle_reach_empty [of "dep_edges ss"] by blast
    ultimately show ?thesis using Some run e(1) by (simp add: cycle_error_def)
  qed
qed

lemma invalid_run:
  assumes "\<not> valid_services ss"
  shows "\<exists>e. TopoSort ss = Some (Inl e) \<and> TopoLayers ss = Some (Inl e) \<and>
           ((\<exists>n. e = DuplicateName n \<and> 2 \<le> count_list (map svc_name ss) n) \<or>
            distinct (map svc_name ss) \<and> unknown_ref (map svc_name ss) ss e)"
proof (cases "distinct (map svc_name ss)")
  case True
  then have "collect_names [] ss = Inr (map svc_name ss)"
    using collect_names_ok [of "[]" ss] by simp
  moreover from True assms have "\<not> (\<forall>s \<in> set ss. refs_of s \<subseteq> set (map svc_name ss))"
    by (simp add: valid_services_def node_names_def)
  from build_graph_unknown [OF graph_ok_empty this] obtain e where
    "build_graph (map svc_name ss) ss empty_graph = Inl e" "unknown_ref (map svc_name ss) ss e" by blast
  ultimately show ?thesis using True by (simp add: TopoSort_def TopoLayers_def)
next
  case False
  with collect_names_dup [of "[]" ss] obtain n where
    "collect_names [] ss = Inl (DuplicateName n)" "2 \<le> count_list (map svc_name ss) n" by auto
  then show ?thesis by (simp add: TopoSort_def TopoLayers_def)
qed

section \<open>Properties\<close>

definition svc :: "string \<Rightarrow> string list \<Rightarrow> string list \<Rightarrow> string list \<Rightarrow> order_service" where
  "svc n a b r = \<lparr>svc_name = n, svc_after = a, svc_before = b, svc_requires = r\<rparr>"

definition web_stack :: "order_service list" where
  "web_stack =
     [svc ''web'' [''db''] [] [''db'', ''cache''],
      svc ''init'' [] [''db''] [],
      svc ''db'' [] [] [],
      svc ''cache'' [''init''] [] []]"

definition looped :: "order_service list" where
  "looped = [svc ''c'' [''a''] [] [], svc ''b'' [''a''] [] [], svc ''a'' [''b''] [] []]"

lemmas example_defs = web_stack_def looped_def svc_def valid_services_def refs_of_def node_names_def
  dep_edges_def service_edges_def

lemma web_stack_valid: "valid_services web_stack"
  by (simp add: example_defs)

lemma web_stack_edges:
  "dep_edges web_stack =
     {(''db'', ''web''), (''cache'', ''web''), (''init'', ''db''), (''init'', ''cache'')}"
  by (auto simp: example_defs)

lemma web_stack_acyclic: "acyclic (dep_edges web_stack)"
  by (rule ranked_acyclic
        [of _ "\<lambda>n. if n = ''init'' then 0 else if n = ''db'' then 1 else if n = ''cache'' then 1 else 2"])
    (auto simp: web_stack_edges)

lemma looped_valid: "valid_services looped"
  by (simp add: example_defs)

lemma looped_edges: "dep_edges looped = {(''a'', ''c''), (''a'', ''b''), (''b'', ''a'')}"
  by (auto simp: example_defs)

lemma looped_cyclic: "\<not> acyclic (dep_edges looped)"
proof -
  have "(''a'', ''a'') \<in> (dep_edges looped)\<^sup>+"
    by (rule trancl_into_trancl [of _ "''b''"]) (auto simp: looped_edges)
  then show ?thesis by (auto simp: acyclic_def)
qed

text \<open>
  C1. On services with distinct names, known references and no dependency cycle, \<open>TopoSort\<close>
  returns, without error, a start order: every service exactly once, and each after everything
  its \<open>after\<close>, \<open>requires\<close> and the others' \<open>before\<close> lists put before it.
\<close>

theorem TopoSort_start_order:
  assumes "valid_services ss" "acyclic (dep_edges ss)"
  shows "\<exists>xs. TopoSort ss = Some (Inr xs) \<and> distinct xs \<and> set xs = node_names ss \<and>
           ordered_by (dep_edges ss) xs"
  using TopoSort_run [OF assms(1)] assms(2) by blast

theorem TopoSort_start_order_witness:
  "TopoSort web_stack = Some (Inr [''init'', ''db'', ''cache'', ''web'']) \<and>
   ordered_by (dep_edges web_stack) [''init'', ''db'', ''cache'', ''web'']"
proof -
  have "TopoSort web_stack = Some (Inr [''init'', ''db'', ''cache'', ''web''])" by code_simp
  with TopoSort_start_order [OF web_stack_valid web_stack_acyclic] show ?thesis by auto
qed

text \<open>
  C2. On services with distinct names, known references and a dependency cycle, \<open>TopoSort\<close>
  fails, and the error lists, sorted and without repetition, exactly the services that lie on a
  cycle or depend, directly or not, on one that does.
\<close>

theorem TopoSort_cycle_report:
  assumes "valid_services ss" "\<not> acyclic (dep_edges ss)"
  shows "TopoSort ss = Some (Inl (CycleAmong (sorted_list_of_set (cycle_reach (dep_edges ss)))))"
  using TopoSort_run [OF assms(1)] assms(2) by (simp add: cycle_error_def)

theorem TopoSort_cycle_report_witness:
  "TopoSort looped = Some (Inl (CycleAmong [''a'', ''b'', ''c''])) \<and>
   sorted_list_of_set (cycle_reach (dep_edges looped)) = [''a'', ''b'', ''c'']"
proof -
  have "TopoSort looped = Some (Inl (CycleAmong [''a'', ''b'', ''c'']))" by code_simp
  with TopoSort_cycle_report [OF looped_valid looped_cyclic] show ?thesis by simp
qed

text \<open>A service that only depends on a cycle is listed although it is on none.\<close>

lemma cycle_report_lists_dependents:
  "(''c'', ''c'') \<notin> (dep_edges looped)\<^sup>+ \<and> ''c'' \<in> cycle_reach (dep_edges looped)"
proof
  have "y \<noteq> ''c''" if "(''c'', y) \<in> (dep_edges looped)\<^sup>+" for y
    using that by (rule converse_tranclE) (auto simp: looped_edges)
  then show "(''c'', ''c'') \<notin> (dep_edges looped)\<^sup>+" by blast
  have "(''a'', ''a'') \<in> (dep_edges looped)\<^sup>+"
    by (rule trancl_into_trancl [of _ "''b''"]) (auto simp: looped_edges)
  then show "''c'' \<in> cycle_reach (dep_edges looped)"
    unfolding cycle_reach_def using looped_edges by blast
qed

text \<open>
  C3. On services with distinct names, known references and no dependency cycle,
  \<open>TopoLayers\<close> returns layers that together hold every service exactly once; each layer is
  non-empty and sorted, every dependency of a member lies in an earlier layer, and every member
  of a layer after the first depends on a member of the layer just before it, so that no service
  waits for a layer it does not need.
\<close>

theorem TopoLayers_layers:
  assumes "valid_services ss" "acyclic (dep_edges ss)"
  shows "\<exists>ls. TopoLayers ss = Some (Inr ls) \<and> set (concat ls) = node_names ss \<and>
           layers_ok (dep_edges ss) ls"
  using TopoLayers_run [OF assms(1)] assms(2) by blast

theorem TopoLayers_layers_witness:
  "TopoLayers web_stack = Some (Inr [[''init''], [''cache'', ''db''], [''web'']]) \<and>
   layers_ok (dep_edges web_stack) [[''init''], [''cache'', ''db''], [''web'']]"
proof -
  have "TopoLayers web_stack = Some (Inr [[''init''], [''cache'', ''db''], [''web'']])" by code_simp
  with TopoLayers_layers [OF web_stack_valid web_stack_acyclic] show ?thesis by auto
qed

text \<open>
  C4. \<open>TopoSort\<close> and \<open>TopoLayers\<close> return on every input and agree: both fail with the
  same error, or both succeed on the same services.
\<close>

theorem TopoSort_TopoLayers_agree:
  "(\<exists>e. TopoSort ss = Some (Inl e) \<and> TopoLayers ss = Some (Inl e)) \<or>
   (\<exists>xs ls. TopoSort ss = Some (Inr xs) \<and> TopoLayers ss = Some (Inr ls) \<and> mset xs = mset (concat ls))"
proof (cases "valid_services ss")
  case True
  show ?thesis
  proof (cases "acyclic (dep_edges ss)")
    case acyclic: True
    with TopoSort_run [OF True] obtain xs where
      xs: "TopoSort ss = Some (Inr xs)" "distinct xs" "set xs = node_names ss" by blast
    from acyclic TopoLayers_run [OF True] obtain ls where
      ls: "TopoLayers ss = Some (Inr ls)" "layers_ok (dep_edges ss) ls" "set (concat ls) = node_names ss"
      by blast
    from ls(2) have "distinct (concat ls)" by (simp add: layers_ok_def)
    with xs ls(3) have "mset xs = mset (concat ls)" by (metis set_eq_iff_mset_eq_distinct)
    with xs(1) ls(1) show ?thesis by blast
  next
    case False
    with TopoSort_run [OF True] TopoLayers_run [OF True] show ?thesis by blast
  qed
next
  case False
  from invalid_run [OF this] show ?thesis by blast
qed

text \<open>
  C5. \<open>TopoSort\<close> rejects every list with a repeated name or an unknown reference, and the
  error is truthful: a name reported as duplicate occurs at least twice; otherwise the reported
  service names the reported process in the reported list, and no service has that name.
\<close>

theorem TopoSort_invalid_input:
  assumes "\<not> valid_services ss"
  shows "\<exists>e. TopoSort ss = Some (Inl e) \<and>
           ((\<exists>n. e = DuplicateName n \<and> 2 \<le> count_list (map svc_name ss) n) \<or>
            distinct (map svc_name ss) \<and> unknown_ref (map svc_name ss) ss e)"
  using invalid_run [OF assms] by blast

theorem TopoSort_invalid_input_witness:
  "TopoSort [svc ''a'' [] [''x''] []] = Some (Inl (UnknownBefore ''a'' ''x'')) \<and>
   unknown_ref [''a''] [svc ''a'' [] [''x''] []] (UnknownBefore ''a'' ''x'')"
proof -
  have "TopoSort [svc ''a'' [] [''x''] []] = Some (Inl (UnknownBefore ''a'' ''x''))" by code_simp
  moreover have "\<not> valid_services [svc ''a'' [] [''x''] []]" by (simp add: example_defs)
  ultimately show ?thesis using TopoSort_invalid_input [of "[svc ''a'' [] [''x''] []]"]
    by (auto simp: svc_def)
qed

end
