(* ===== verification/Go_Time.thy ===== *)
theory Go_Time
  imports Go_Prelude
begin

text \<open>
  The part of Go's package \<open>time\<close> that the scheduler uses. An instant is its number of
  seconds since 1970-01-01 00:00:00 UTC. A location is the list of its zone transitions, as
  \<open>time.Location\<close> holds it: the offset in force before the first transition and, in increasing
  order, the instant and the new offset of each. \<open>date_unix\<close> is \<open>time.Date\<close>: it normalises
  the month and the day, looks the offset up as if the wall clock were UTC, and looks it up
  again when the instant found is outside the zone it used. Instants are far from the limits of
  a 64-bit integer, so plain integers stand for them.
\<close>

section \<open>The proleptic Gregorian calendar\<close>

definition leap :: "int \<Rightarrow> bool" where
  "leap y = (y mod 4 = 0 \<and> (y mod 100 \<noteq> 0 \<or> y mod 400 = 0))"

text \<open>Days from 0001-01-01 to the first of January of a year.\<close>

definition year_start :: "int \<Rightarrow> int" where
  "year_start y = 365 * (y - 1) + (y - 1) div 4 - (y - 1) div 100 + (y - 1) div 400"

definition month_start :: "bool \<Rightarrow> int \<Rightarrow> int" where
  "month_start lp m =
     (if m \<le> 1 then 0 else if m = 2 then 31
      else (if lp then 1 else 0) +
        (if m = 3 then 59 else if m = 4 then 90 else if m = 5 then 120 else if m = 6 then 151
         else if m = 7 then 181 else if m = 8 then 212 else if m = 9 then 243
         else if m = 10 then 273 else if m = 11 then 304 else if m = 12 then 334 else 365))"

definition days_in :: "int \<Rightarrow> int \<Rightarrow> int" where
  "days_in y m = month_start (leap y) (m + 1) - month_start (leap y) m"

text \<open>Day number (since 1970-01-01) of a date whose month and day may be out of range.\<close>

definition days_of :: "int \<Rightarrow> int \<Rightarrow> int \<Rightarrow> int" where
  "days_of y m d =
     (let y' = y + (m - 1) div 12; m' = (m - 1) mod 12 + 1
      in year_start y' + month_start (leap y') m' + (d - 1) - 719162)"

definition year_of :: "int \<Rightarrow> int" where
  "year_of n =
     (let a = n + 719162; y = (400 * a) div 146097 + 1
      in if a < year_start y then y - 1 else if year_start (y + 1) \<le> a then y + 1 else y)"

definition year_day :: "int \<Rightarrow> int" where
  "year_day n = n + 719162 - year_start (year_of n)"

fun month_search :: "bool \<Rightarrow> int \<Rightarrow> int list \<Rightarrow> int" where
  "month_search lp yd [] = 12"
| "month_search lp yd (m # ms) = (if yd < month_start lp (m + 1) then m else month_search lp yd ms)"

definition month_of :: "int \<Rightarrow> int" where
  "month_of n = month_search (leap (year_of n)) (year_day n) [1..11]"

definition day_of :: "int \<Rightarrow> int" where
  "day_of n = year_day n - month_start (leap (year_of n)) (month_of n) + 1"

definition weekday_of :: "int \<Rightarrow> int" where
  "weekday_of n = (n + 4) mod 7"

lemma div_bounds: "0 < k \<Longrightarrow> k * (a div k) \<le> a \<and> a < k * (a div k) + k" for a k :: int
  using mult_div_mod_eq [of k a] pos_mod_bound [of k a] pos_mod_sign [of k a] by linarith

lemma div_step: "0 < k \<Longrightarrow> y div k = (y - 1) div k + (if y mod k = 0 then 1 else 0)" for y k :: int
proof -
  assume k: "0 < k"
  have "y div k = (y - 1 + 1) div k" by simp
  also have "\<dots> = (y - 1) div k + (if y mod k = 0 then 1 else 0)"
  proof (cases "y mod k = 0")
    case True
    then obtain q where "y = k * q" by blast
    with k have "(y - 1) div k = q - 1" by (intro int_div_pos_eq [where r = "k - 1"]) (simp_all add: algebra_simps)
    with \<open>y = k * q\<close> k True show ?thesis by simp
  next
    case False
    define r where "r = y mod k"
    have "y = k * (y div k) + r" "0 < r" "r < k"
      using False k pos_mod_sign [of k y] pos_mod_bound [of k y] by (simp_all add: r_def order_less_le)
    then have "(y - 1) div k = y div k" by (intro int_div_pos_eq [where r = "r - 1"]) simp_all
    with False show ?thesis by simp
  qed
  finally show ?thesis .
qed

lemma year_start_bounds:
  "400 * year_start y \<le> 146097 * (y - 1) + 396" "146097 * (y - 1) - 699 \<le> 400 * year_start y"
proof -
  define x a b c where "x = y - 1" "a = (y - 1) div 4" "b = (y - 1) div 100" "c = (y - 1) div 400"
  have q: "4 * a \<le> x" "x < 4 * a + 4" "100 * b \<le> x" "x < 100 * b + 100" "400 * c \<le> x" "x < 400 * c + 400"
    unfolding x_a_b_c_def by (simp_all only: div_bounds zero_less_numeral)
  have eq: "400 * year_start y = 146000 * x + 100 * (4 * a) - 4 * (100 * b) + 400 * c"
    by (simp add: year_start_def x_a_b_c_def)
  show "400 * year_start y \<le> 146097 * (y - 1) + 396"
    unfolding eq x_a_b_c_def(1) [symmetric] using q by linarith
  show "146097 * (y - 1) - 699 \<le> 400 * year_start y"
    unfolding eq x_a_b_c_def(1) [symmetric] using q by linarith
qed

lemma leap_cases:
  fixes y :: int
  shows "(if y mod 4 = 0 then 1 else 0) - (if y mod 100 = 0 then 1 else 0) + (if y mod 400 = 0 then 1 else 0)
    = (if leap y then 1 else (0::int))"
proof -
  have count: "(if A then 1 else 0) - (if B then 1 else 0) + (if C then 1 else 0) =
      (if A \<and> (\<not> B \<or> C) then 1 else (0::int))" if "C \<Longrightarrow> B" "B \<Longrightarrow> A" for A B C
    using that by (cases A; cases B; cases C) simp_all
  have d: "(100::int) dvd 400" "(4::int) dvd 100" by simp_all
  have "400 dvd y \<Longrightarrow> 100 dvd y" by (rule dvd_trans [OF d(1)])
  moreover have "100 dvd y \<Longrightarrow> 4 dvd y" by (rule dvd_trans [OF d(2)])
  ultimately show ?thesis unfolding leap_def mod_eq_0_iff_dvd by (rule count)
qed

lemma year_start_Suc: "year_start (y + 1) = year_start y + (if leap y then 366 else 365)"
proof -
  define a b c where "a = (y - 1) div 4" "b = (y - 1) div 100" "c = (y - 1) div 400"
  have "y div 4 = a + (if y mod 4 = 0 then 1 else 0)" "y div 100 = b + (if y mod 100 = 0 then 1 else 0)"
    "y div 400 = c + (if y mod 400 = 0 then 1 else 0)"
    unfolding a_b_c_def by (rule div_step, simp)+
  then have "year_start (y + 1) = 365 * y + a - b + c + (if leap y then 1 else 0)"
    unfolding leap_cases [symmetric] by (simp add: year_start_def)
  moreover have "year_start y = 365 * (y - 1) + a - b + c" by (simp add: year_start_def a_b_c_def)
  ultimately show ?thesis by simp
qed

lemma year_start_mono: "y \<le> z \<Longrightarrow> year_start y \<le> year_start z"
proof (induction rule: int_ge_induct)
  case (step i)
  then show ?case by (simp add: year_start_Suc)
qed simp

lemma year_of_bounds:
  "year_start (year_of n) \<le> n + 719162" "n + 719162 < year_start (year_of n + 1)"
proof -
  let ?a = "n + 719162"
  let ?y = "(400 * ?a) div 146097 + 1"
  have q: "146097 * (?y - 1) \<le> 400 * ?a" "400 * ?a < 146097 * ?y"
    using div_bounds [of 146097 "400 * ?a"] by simp_all
  have "year_start (?y - 1) \<le> ?a" using q(1) year_start_bounds(1) [of "?y - 1"] by simp
  moreover have "?a < year_start (?y + 2)" using q(2) year_start_bounds(2) [of "?y + 2"] by simp
  ultimately show "year_start (year_of n) \<le> ?a" "?a < year_start (year_of n + 1)"
    by (auto simp: year_of_def Let_def)
qed

lemma year_of_unique:
  assumes "year_start y \<le> n + 719162" "n + 719162 < year_start (y + 1)"
  shows "year_of n = y"
proof (rule ccontr)
  assume "year_of n \<noteq> y"
  then consider "year_of n + 1 \<le> y" | "y + 1 \<le> year_of n" by linarith
  then show False
    using year_of_bounds [of n] assms year_start_mono [of "year_of n + 1" y]
      year_start_mono [of "y + 1" "year_of n"] by cases linarith+
qed

lemma year_day_bounds: "0 \<le> year_day n" "year_day n < (if leap (year_of n) then 366 else 365)"
  using year_of_bounds [of n] unfolding year_day_def year_start_Suc by linarith+

lemma month_cases:
  assumes "1 \<le> m" "m \<le> (12::int)"
  shows "m = 1 \<or> m = 2 \<or> m = 3 \<or> m = 4 \<or> m = 5 \<or> m = 6 \<or> m = 7 \<or> m = 8 \<or> m = 9 \<or> m = 10 \<or> m = 11 \<or> m = 12"
  using assms by presburger

lemma month_start_ends [simp]: "month_start lp 1 = 0" "month_start lp 13 = (if lp then 366 else 365)"
  by (simp_all add: month_start_def)

lemma month_start_step: "1 \<le> m \<Longrightarrow> m \<le> 12 \<Longrightarrow> month_start lp m < month_start lp (m + 1)"
proof -
  assume m: "1 \<le> m" "m \<le> 12"
  from month_cases [OF this] show ?thesis by (elim disjE) (simp_all add: month_start_def)
qed

lemma month_start_mono: "m \<le> k \<Longrightarrow> 1 \<le> m \<Longrightarrow> k \<le> 13 \<Longrightarrow> month_start lp m \<le> month_start lp k"
proof (induction k rule: int_ge_induct)
  case (step i)
  then show ?case using month_start_step [of i lp] by simp
qed simp_all

lemma month_search_from:
  assumes "1 \<le> a" "a \<le> 12" "month_start lp a \<le> yd" "yd < month_start lp 13"
  shows "a \<le> month_search lp yd [a..11] \<and> month_search lp yd [a..11] \<le> 12 \<and>
    month_start lp (month_search lp yd [a..11]) \<le> yd \<and>
    yd < month_start lp (month_search lp yd [a..11] + 1)"
  using assms
proof (induction "nat (12 - a)" arbitrary: a)
  case 0
  then have "a = 12" by simp
  with 0 show ?case by simp
next
  case (Suc k)
  then have l: "[a..11] = a # [a + 1..11]" by (simp add: upto_rec1)
  show ?case
  proof (cases "yd < month_start lp (a + 1)")
    case True
    with Suc.prems l show ?thesis by simp
  next
    case False
    with Suc have "a + 1 \<le> month_search lp yd [a + 1..11] \<and> month_search lp yd [a + 1..11] \<le> 12 \<and>
      month_start lp (month_search lp yd [a + 1..11]) \<le> yd \<and>
      yd < month_start lp (month_search lp yd [a + 1..11] + 1)" by (intro Suc.hyps) simp_all
    with False l show ?thesis by simp
  qed
qed

lemma month_search_ok:
  assumes "0 \<le> yd" "yd < month_start lp 13"
  shows "1 \<le> month_search lp yd [1..11]" "month_search lp yd [1..11] \<le> 12"
    "month_start lp (month_search lp yd [1..11]) \<le> yd"
    "yd < month_start lp (month_search lp yd [1..11] + 1)"
proof -
  have "month_start lp 1 \<le> yd" using assms(1) by simp
  then show "1 \<le> month_search lp yd [1..11]" "month_search lp yd [1..11] \<le> 12"
    "month_start lp (month_search lp yd [1..11]) \<le> yd"
    "yd < month_start lp (month_search lp yd [1..11] + 1)"
    using month_search_from [of 1 lp yd] assms(2) by simp_all
qed

lemma month_search_unique:
  assumes m: "1 \<le> m" "m \<le> 12" "month_start lp m \<le> yd" "yd < month_start lp (m + 1)"
  shows "month_search lp yd [1..11] = m"
proof (rule ccontr)
  let ?k = "month_search lp yd [1..11]"
  have "0 \<le> yd" "yd < month_start lp 13"
    using m month_start_mono [of 1 m lp] month_start_mono [of "m + 1" 13 lp] by simp_all
  note k = month_search_ok [OF this]
  assume "?k \<noteq> m"
  then consider "?k + 1 \<le> m" | "m + 1 \<le> ?k" by linarith
  then show False
    using k m month_start_mono [of "?k + 1" m lp] month_start_mono [of "m + 1" ?k lp] by cases linarith+
qed

lemma civil_bounds:
  "1 \<le> month_of n" "month_of n \<le> 12" "1 \<le> day_of n" "day_of n \<le> days_in (year_of n) (month_of n)"
proof -
  have yd: "0 \<le> year_day n" "year_day n < month_start (leap (year_of n)) 13"
    using year_day_bounds [of n] by simp_all
  note m = month_search_ok [OF yd]
  show "1 \<le> month_of n" "month_of n \<le> 12" using m(1,2) by (simp_all add: month_of_def)
  show "1 \<le> day_of n" "day_of n \<le> days_in (year_of n) (month_of n)"
    using m(3,4) by (simp_all add: day_of_def days_in_def month_of_def)
qed

lemma days_of_in_month:
  "1 \<le> m \<Longrightarrow> m \<le> 12 \<Longrightarrow> days_of y m d = year_start y + month_start (leap y) m + (d - 1) - 719162"
proof -
  assume "1 \<le> m" "m \<le> 12"
  then have "0 \<le> m - 1" "m - 1 < 12" by simp_all
  then have "(m - 1) div 12 = 0" "(m - 1) mod 12 = m - 1"
    by (simp_all only: div_pos_pos_trivial mod_pos_pos_trivial)
  then show ?thesis by (simp only: days_of_def Let_def) simp
qed

text \<open>A date and its day number determine each other.\<close>

lemma days_of_civil: "days_of (year_of n) (month_of n) (day_of n) = n"
  unfolding days_of_in_month [OF civil_bounds(1,2)] day_of_def year_day_def by simp

lemma month_start_le: "1 \<le> m \<Longrightarrow> m \<le> 12 \<Longrightarrow> month_start lp (m + 1) \<le> month_start lp 13 \<and> 0 \<le> month_start lp m"
  using month_start_mono [of "m + 1" 13 lp] month_start_mono [of 1 m lp] by simp

lemma civil_of_days_of:
  assumes "1 \<le> m" "m \<le> 12" "1 \<le> d" "d \<le> days_in y m"
  shows "year_of (days_of y m d) = y" "month_of (days_of y m d) = m" "day_of (days_of y m d) = d"
proof -
  let ?n = "days_of y m d"
  have n: "?n + 719162 = year_start y + (month_start (leap y) m + (d - 1))"
    using assms(1,2) by (simp add: days_of_in_month)
  have b: "month_start (leap y) m + (d - 1) < month_start (leap y) (m + 1)"
    using assms(4) by (simp add: days_in_def)
  then have e: "month_start (leap y) m + (d - 1) < (if leap y then 366 else 365)"
    using month_start_le [OF assms(1,2), of "leap y"] unfolding month_start_ends by linarith
  have "0 \<le> month_start (leap y) m + (d - 1)"
    using assms(3) month_start_le [OF assms(1,2), of "leap y"] by linarith
  with e show y: "year_of ?n = y"
    by (intro year_of_unique; unfold n year_start_Suc; linarith)
  with n have yd: "year_day ?n = month_start (leap y) m + (d - 1)" by (simp add: year_day_def)
  show m: "month_of ?n = m"
    unfolding month_of_def y yd using b assms by (intro month_search_unique) auto
  show "day_of ?n = d" by (simp add: day_of_def y m yd)
qed

text \<open>The first of the next month, and the days up to it.\<close>

lemma next_month_start:
  assumes "1 \<le> m" "m \<le> 12"
  shows "days_of y (m + 1) 1 = days_of y m 1 + days_in y m"
proof (cases "m = 12")
  case True
  then have "days_of y (m + 1) 1 = year_start (y + 1) - 719162"
    by (simp add: days_of_def Let_def)
  with True show ?thesis by (simp add: days_of_in_month days_in_def year_start_Suc)
next
  case False
  with assms show ?thesis by (simp add: days_of_in_month days_in_def)
qed

lemma same_month_until_next:
  assumes "n \<le> k" "k < days_of (year_of n) (month_of n + 1) 1"
  shows "month_of k = month_of n" "year_of k = year_of n"
proof -
  note c = civil_bounds [of n]
  let ?y = "year_of n" and ?m = "month_of n"
  let ?d = "k - days_of ?y ?m 1 + 1"
  have k: "k = days_of ?y ?m ?d" using c by (simp add: days_of_in_month)
  have "n = days_of ?y ?m 1 + (day_of n - 1)"
    using days_of_civil [of n] c(1,2) by (simp add: days_of_in_month)
  then have "1 \<le> ?d" "?d \<le> days_in ?y ?m"
    using assms c(3) by (simp_all add: next_month_start [OF c(1,2)])
  from civil_of_days_of [OF c(1,2) this] k show "month_of k = ?m" "year_of k = ?y" by simp_all
qed

lemma next_month_later: "n < days_of (year_of n) (month_of n + 1) 1"
proof -
  note c = civil_bounds [of n]
  have "n = days_of (year_of n) (month_of n) 1 + (day_of n - 1)"
    using days_of_civil [of n] c(1,2) by (simp add: days_of_in_month)
  with c(4) show ?thesis by (simp add: next_month_start [OF c(1,2)])
qed

lemma next_day: "days_of (year_of n) (month_of n) (day_of n + 1) = n + 1"
  using days_of_civil [of n] civil_bounds(1,2) [of n] by (simp add: days_of_in_month)

section \<open>Locations, instants and wall clocks\<close>

record location =
  first_offset :: int
  transitions :: "(int \<times> int) list"

text \<open>The offset in force at an instant, with the bounds of its zone (\<open>Location.lookup\<close>).\<close>

fun lookup_from :: "int \<Rightarrow> int option \<Rightarrow> (int \<times> int) list \<Rightarrow> int \<Rightarrow> int \<times> int option \<times> int option" where
  "lookup_from off start [] sec = (off, start, None)"
| "lookup_from off start ((w, o') # tx) sec =
     (if sec < w then (off, start, Some w) else lookup_from o' (Some w) tx sec)"

definition lookup :: "location \<Rightarrow> int \<Rightarrow> int \<times> int option \<times> int option" where
  "lookup loc sec = lookup_from (first_offset loc) None (transitions loc) sec"

definition date_unix :: "location \<Rightarrow> int \<Rightarrow> int \<Rightarrow> int \<Rightarrow> int \<Rightarrow> int \<Rightarrow> int \<Rightarrow> int" where
  "date_unix loc y mo d h mi s =
     (let u = 86400 * days_of y mo d + 3600 * h + 60 * mi + s
      in case lookup loc u of (off, start, stop) \<Rightarrow>
           if off = 0 then u
           else let utc = u - off;
                    outside = ((case start of None \<Rightarrow> False | Some a \<Rightarrow> utc < a) \<or>
                               (case stop of None \<Rightarrow> False | Some b \<Rightarrow> b \<le> utc))
                in u - (if outside then fst (lookup loc utc) else off))"

definition wall :: "location \<Rightarrow> int \<Rightarrow> int" where
  "wall loc t = t + fst (lookup loc t)"

definition Year :: "location \<Rightarrow> int \<Rightarrow> int" where "Year loc t = year_of (wall loc t div 86400)"
definition Month :: "location \<Rightarrow> int \<Rightarrow> int" where "Month loc t = month_of (wall loc t div 86400)"
definition Day :: "location \<Rightarrow> int \<Rightarrow> int" where "Day loc t = day_of (wall loc t div 86400)"
definition Weekday :: "location \<Rightarrow> int \<Rightarrow> int" where "Weekday loc t = weekday_of (wall loc t div 86400)"
definition Hour :: "location \<Rightarrow> int \<Rightarrow> int" where "Hour loc t = wall loc t mod 86400 div 3600"
definition Minute :: "location \<Rightarrow> int \<Rightarrow> int" where "Minute loc t = wall loc t mod 3600 div 60"
definition Second :: "location \<Rightarrow> int \<Rightarrow> int" where "Second loc t = wall loc t mod 60"

definition add_date :: "location \<Rightarrow> int \<Rightarrow> int \<Rightarrow> int" where
  "add_date loc years t =
     date_unix loc (Year loc t + years) (Month loc t) (Day loc t) (Hour loc t) (Minute loc t) (Second loc t)"

text \<open>A location without transitions: UTC and \<open>time.FixedZone\<close>.\<close>

definition fixed_zone :: "int \<Rightarrow> location" where
  "fixed_zone off = \<lparr>first_offset = off, transitions = []\<rparr>"

lemma lookup_fixed [simp]: "lookup (fixed_zone off) t = (off, None, None)"
  by (simp add: lookup_def fixed_zone_def)

lemma wall_fixed: "wall (fixed_zone off) t = t + off"
  by (simp add: wall_def)

lemma date_unix_fixed:
  "date_unix (fixed_zone off) y mo d h mi s = 86400 * days_of y mo d + 3600 * h + 60 * mi + s - off"
  by (simp add: date_unix_def Let_def)

end
