(* ===== verification/Cron.thy ===== *)
theory Cron
  imports Go_Time "HOL-Library.Word"
begin

text \<open>
  The package \<open>internal/cron\<close>: five-field cron expressions. \<open>Parse\<close> turns an expression into
  bit masks (64-bit words, bit \<open>n\<close> set when the value \<open>n\<close> is allowed); \<open>Next\<close> searches the
  next matching minute by jumping over months, days, hours and minutes that do not match. Both
  loops are \<^const>\<open>while_option\<close>s: \<^const>\<open>None\<close> means that the code would not return. The
  step of a range is added with the wrap-around of a 64-bit \<open>int\<close>.
\<close>

unbundle bit_operations_syntax

section \<open>The program\<close>

record field_def =
  fd_name :: string
  fd_min :: int
  fd_max :: int
  fd_names :: "(string \<times> int) list"

definition fieldDefs :: "field_def list" where
  "fieldDefs =
     [\<lparr>fd_name = ''minute'', fd_min = 0, fd_max = 59, fd_names = []\<rparr>,
      \<lparr>fd_name = ''hour'', fd_min = 0, fd_max = 23, fd_names = []\<rparr>,
      \<lparr>fd_name = ''day of month'', fd_min = 1, fd_max = 31, fd_names = []\<rparr>,
      \<lparr>fd_name = ''month'', fd_min = 1, fd_max = 12,
        fd_names = [(''jan'', 1), (''feb'', 2), (''mar'', 3), (''apr'', 4), (''may'', 5), (''jun'', 6),
                    (''jul'', 7), (''aug'', 8), (''sep'', 9), (''oct'', 10), (''nov'', 11), (''dec'', 12)]\<rparr>,
      \<lparr>fd_name = ''day of week'', fd_min = 0, fd_max = 7,
        fd_names = [(''sun'', 0), (''mon'', 1), (''tue'', 2), (''wed'', 3), (''thu'', 4), (''fri'', 5), (''sat'', 6)]\<rparr>]"

datatype cron_error =
    FieldCount nat
  | EmptyItem string string
  | InvalidStep string string
  | StepNotPositive string int
  | ReversedRange string string
  | InvalidValue string string
  | OutOfRange string int int int

record Schedule =
  minute :: "64 word"
  hour :: "64 word"
  dom :: "64 word"
  month :: "64 word"
  dow :: "64 word"
  domStar :: bool
  dowStar :: bool

definition parseValue :: "string \<Rightarrow> field_def \<Rightarrow> cron_error + int" where
  "parseValue s def =
     (case map_of (fd_names def) (to_lower s) of
        Some v \<Rightarrow> Inr v
      | None \<Rightarrow>
          (case parse_int s of
             None \<Rightarrow> Inl (InvalidValue (fd_name def) s)
           | Some v \<Rightarrow>
               if v < fd_min def \<or> fd_max def < v
               then Inl (OutOfRange (fd_name def) v (fd_min def) (fd_max def)) else Inr v))"

definition parse_step :: "field_def \<Rightarrow> string option \<Rightarrow> cron_error + int" where
  "parse_step def stepPart =
     (case stepPart of
        None \<Rightarrow> Inr 1
      | Some t \<Rightarrow>
          (case parse_int t of
             None \<Rightarrow> Inl (InvalidStep (fd_name def) t)
           | Some n \<Rightarrow> if n < 1 then Inl (StepNotPositive (fd_name def) n) else Inr n))"

definition parse_range :: "field_def \<Rightarrow> string \<Rightarrow> bool \<Rightarrow> cron_error + int \<times> int" where
  "parse_range def rangePart hasStep =
     (if rangePart = ''*'' then Inr (fd_min def, fd_max def)
      else case cut_at CHR ''-'' rangePart of
        Some (loStr, hiStr) \<Rightarrow>
          result_bind (parseValue loStr def) (\<lambda>lo.
            result_bind (parseValue hiStr def) (\<lambda>hi.
              if hi < lo then Inl (ReversedRange (fd_name def) rangePart) else Inr (lo, hi)))
      | None \<Rightarrow>
          result_bind (parseValue rangePart def) (\<lambda>v. Inr (v, if hasStep then fd_max def else v)))"

text \<open>\<open>mask |= 1 << uint(v)\<close>.\<close>

definition bit_value :: "int \<Rightarrow> 64 word" where
  "bit_value v = (if v < 0 then 0 else push_bit (nat v) 1)"

definition set_bits_loop :: "int \<Rightarrow> int \<Rightarrow> int \<Rightarrow> 64 word \<Rightarrow> 64 word option" where
  "set_bits_loop lo hi step acc =
     map_option snd
       (while_option (\<lambda>(v, m). v \<le> hi) (\<lambda>(v, m). (wrap64 (v + step), m OR bit_value v)) (lo, acc))"

definition parse_part :: "field_def \<Rightarrow> string \<Rightarrow> string \<Rightarrow> cron_error + int \<times> int \<times> int" where
  "parse_part def field part =
     (if part = [] then Inl (EmptyItem (fd_name def) field)
      else
        let rangePart = (case cut_at CHR ''/'' part of None \<Rightarrow> part | Some (r, _) \<Rightarrow> r);
            stepPart = map_option snd (cut_at CHR ''/'' part)
        in result_bind (parse_step def stepPart) (\<lambda>step.
             result_bind (parse_range def rangePart (stepPart \<noteq> None)) (\<lambda>(lo, hi). Inr (lo, hi, step))))"

fun parse_parts :: "field_def \<Rightarrow> string \<Rightarrow> string list \<Rightarrow> 64 word \<Rightarrow> (cron_error + 64 word) option" where
  "parse_parts def field [] acc = Some (Inr acc)"
| "parse_parts def field (part # parts) acc =
     (case parse_part def field part of
        Inl e \<Rightarrow> Some (Inl e)
      | Inr (lo, hi, step) \<Rightarrow>
          (case set_bits_loop lo hi step acc of
             None \<Rightarrow> None
           | Some acc' \<Rightarrow> parse_parts def field parts acc'))"

definition parseField :: "string \<Rightarrow> nat \<Rightarrow> (cron_error + 64 word \<times> bool) option" where
  "parseField field idx =
     map_option (map_sum id (\<lambda>acc. (acc, field = ''*'')))
       (parse_parts (fieldDefs ! idx) field (split_on CHR '','' field) 0)"

fun parse_fields :: "nat \<Rightarrow> string list \<Rightarrow> (cron_error + (64 word \<times> bool) list) option" where
  "parse_fields i [] = Some (Inr [])"
| "parse_fields i (f # fs) =
     (case parseField f i of
        None \<Rightarrow> None
      | Some (Inl e) \<Rightarrow> Some (Inl e)
      | Some (Inr ms) \<Rightarrow>
          (case parse_fields (Suc i) fs of
             None \<Rightarrow> None
           | Some (Inl e) \<Rightarrow> Some (Inl e)
           | Some (Inr rest) \<Rightarrow> Some (Inr (ms # rest))))"

definition sunday_alias :: "64 word \<Rightarrow> 64 word" where
  "sunday_alias m = (if m AND push_bit 7 1 \<noteq> 0 then (m OR 1) AND NOT (push_bit 7 1) else m)"

definition Parse :: "string \<Rightarrow> (cron_error + Schedule) option" where
  "Parse expr =
     (if length (split_fields expr) \<noteq> length fieldDefs then Some (Inl (FieldCount (length (split_fields expr))))
      else map_option (map_sum id (\<lambda>ms.
        \<lparr>minute = fst (ms ! 0), hour = fst (ms ! 1), dom = fst (ms ! 2), month = fst (ms ! 3),
         dow = sunday_alias (fst (ms ! 4)), domStar = snd (ms ! 2), dowStar = snd (ms ! 4)\<rparr>))
        (parse_fields 0 (split_fields expr)))"

definition nextLimitYears :: int where "nextLimitYears = 9"

definition allows :: "64 word \<Rightarrow> int \<Rightarrow> bool" where
  "allows m v = (m AND bit_value v \<noteq> 0)"

definition dayMatches :: "Schedule \<Rightarrow> location \<Rightarrow> int \<Rightarrow> bool" where
  "dayMatches s loc t =
     (let domOK = allows (dom s) (Day loc t); dowOK = allows (dow s) (Weekday loc t)
      in if \<not> domStar s \<and> \<not> dowStar s then domOK \<or> dowOK else domOK \<and> dowOK)"

text \<open>
  One iteration of the search; \<open>None\<close> when all fields match and the code returns \<open>t\<close>.
\<close>

definition next_jump :: "Schedule \<Rightarrow> location \<Rightarrow> int \<Rightarrow> int option" where
  "next_jump s loc t =
     (if \<not> allows (month s) (Month loc t)
      then Some (date_unix loc (Year loc t) (Month loc t + 1) 1 0 0 0)
      else if \<not> dayMatches s loc t
      then Some (date_unix loc (Year loc t) (Month loc t) (Day loc t + 1) 0 0 0)
      else if \<not> allows (hour s) (Hour loc t)
      then Some (date_unix loc (Year loc t) (Month loc t) (Day loc t) (Hour loc t + 1) 0 0)
      else if \<not> allows (minute s) (Minute loc t)
      then Some (t + 60)
      else None)"

definition next_loop :: "Schedule \<Rightarrow> location \<Rightarrow> int \<Rightarrow> int \<Rightarrow> int option" where
  "next_loop s loc limit t =
     while_option (\<lambda>t. t \<le> limit \<and> next_jump s loc t \<noteq> None) (\<lambda>t. the (next_jump s loc t)) t"

text \<open>
  The result: the outer \<^const>\<open>None\<close> when the search does not return, the inner one for the
  zero time.
\<close>

definition Next :: "Schedule \<Rightarrow> location \<Rightarrow> int \<Rightarrow> int option option" where
  "Next s loc after =
     (let t = date_unix loc (Year loc after) (Month loc after) (Day loc after)
                (Hour loc after) (Minute loc after) 0 + 60;
          limit = add_date loc nextLimitYears after
      in map_option (\<lambda>t. if t \<le> limit then Some t else None) (next_loop s loc limit t))"

section \<open>Ranges and masks\<close>

lemma bit_bit_value: "bit (bit_value v) n \<longleftrightarrow> n < 64 \<and> v = int n"
  by (auto simp: bit_value_def bit_exp_iff possible_bit_word)

lemma allows_iff: "allows m v \<longleftrightarrow> 0 \<le> v \<and> v < 64 \<and> bit m (nat v)"
proof -
  have "m AND bit_value v \<noteq> 0 \<longleftrightarrow> (\<exists>n. bit m n \<and> bit (bit_value v) n)"
    by (auto simp: bit_eq_iff bit_and_iff bit_bit_value)
  also have "\<dots> \<longleftrightarrow> 0 \<le> v \<and> v < 64 \<and> bit m (nat v)"
    by (auto simp: bit_bit_value intro!: exI [of _ "nat v"])
  finally show ?thesis by (simp add: allows_def)
qed

lemma wrap64_over: "2 ^ 63 \<le> i \<Longrightarrow> i < 2 ^ 64 \<Longrightarrow> wrap64 i = i - 2 ^ 64"
proof -
  assume "2 ^ 63 \<le> i" "i < 2 ^ 64"
  then have "(i + 2 ^ 63) mod 2 ^ 64 = i + 2 ^ 63 - 2 ^ 64"
    by (intro int_mod_pos_eq [where q = 1]) simp_all
  then show ?thesis by (simp add: wrap64_def)
qed

text \<open>Below the limit of the integers the loop sets exactly the values of the progression.\<close>

definition bits_inv :: "int \<Rightarrow> int \<Rightarrow> int \<Rightarrow> 64 word \<Rightarrow> int \<times> 64 word \<Rightarrow> bool" where
  "bits_inv lo hi step acc vm =
     (lo \<le> fst vm \<and> step dvd fst vm - lo \<and>
      (\<forall>n. bit (snd vm) n \<longleftrightarrow>
         bit acc n \<or> int n < fst vm \<and> lo \<le> int n \<and> int n \<le> hi \<and> step dvd int n - lo))"

lemma bits_inv_step:
  assumes "0 \<le> lo" "1 \<le> step" "hi < 64" "step < 2 ^ 62"
    and inv: "bits_inv lo hi step acc (v, m)" and v: "v \<le> hi"
  shows "wrap64 (v + step) = v + step" "bits_inv lo hi step acc (v + step, m OR bit_value v)"
proof -
  from inv have lo: "lo \<le> v" and dvd: "step dvd v - lo"
    and bits: "\<And>n. bit m n \<longleftrightarrow>
      bit acc n \<or> int n < v \<and> lo \<le> int n \<and> int n \<le> hi \<and> step dvd int n - lo"
    by (simp_all add: bits_inv_def)
  show "wrap64 (v + step) = v + step" using lo v assms by (intro wrap64_id) simp_all
  have "step dvd v + step - lo" using dvd dvd_add [of step "v - lo" step] by (simp add: algebra_simps)
  moreover have "bit (m OR bit_value v) n \<longleftrightarrow>
      bit acc n \<or> int n < v + step \<and> lo \<le> int n \<and> int n \<le> hi \<and> step dvd int n - lo" for n
  proof -
    have "int n = v" if "\<not> int n < v" "int n < v + step" "step dvd int n - lo"
    proof -
      have "step dvd int n - v" using dvd_diff [OF that(3) dvd] by simp
      with that(1,2) show ?thesis using zdvd_not_zless [of "int n - v" step] by linarith
    qed
    moreover have "int n < v + step \<and> n < 64" if "int n < v \<or> int n = v"
      using that assms(2,3) v by linarith
    moreover have "bit (m OR bit_value v) n \<longleftrightarrow> bit m n \<or> n < 64 \<and> v = int n"
      by (simp add: bit_or_iff bit_bit_value)
    ultimately show ?thesis using bits [of n] lo v dvd by blast
  qed
  ultimately show "bits_inv lo hi step acc (v + step, m OR bit_value v)"
    using lo assms(2) by (simp add: bits_inv_def)
qed

lemma set_bits_loop_exact:
  assumes a: "0 \<le> lo" "1 \<le> step" "hi < 64" "step < 2 ^ 62"
  shows "\<exists>m. set_bits_loop lo hi step acc = Some m \<and>
    (\<forall>n. bit m n \<longleftrightarrow> bit acc n \<or> lo \<le> int n \<and> int n \<le> hi \<and> step dvd int n - lo)"
proof -
  let ?b = "\<lambda>(v, m). v \<le> hi" and ?c = "\<lambda>(v, m). (wrap64 (v + step), m OR bit_value v)"
  let ?P = "bits_inv lo hi step acc"
  have step: "?P (?c vm) \<and> nat (hi + 1 - fst (?c vm)) < nat (hi + 1 - fst vm)" if "?P vm" "?b vm" for vm
  proof (cases vm)
    case (Pair v m)
    with that have i: "?P (v, m)" "v \<le> hi" by simp_all
    note s = bits_inv_step [OF a i]
    have "nat (hi + 1 - (v + step)) < nat (hi + 1 - v)" using i(2) a(2) by linarith
    with s(2) show ?thesis unfolding Pair prod.case fst_conv s(1) by blast
  qed
  have init: "?P (lo, acc)" by (auto simp: bits_inv_def)
  have "\<exists>t. while_option ?b ?c (lo, acc) = Some t"
    by (rule measure_while_option_Some [where P = ?P and f = "\<lambda>vm. nat (hi + 1 - fst vm)", OF step init])
  then obtain v m where r: "while_option ?b ?c (lo, acc) = Some (v, m)" by fastforce
  have "?P (v, m)"
    by (rule while_option_rule [where P = ?P, OF _ r init]) (use step in blast)
  then have "bit m n \<longleftrightarrow> bit acc n \<or> int n < v \<and> lo \<le> int n \<and> int n \<le> hi \<and> step dvd int n - lo" for n
    by (simp add: bits_inv_def)
  moreover have "int n < v" if "int n \<le> hi" for n using while_option_stop [OF r] that by simp
  ultimately have "bit m n \<longleftrightarrow> bit acc n \<or> lo \<le> int n \<and> int n \<le> hi \<and> step dvd int n - lo" for n
    by blast
  with r show ?thesis unfolding set_bits_loop_def by auto
qed

text \<open>
  Near the limit of the integers the sum wraps, and the loop comes back below its start before
  it leaves; it still ends, and never sets a bit above the range.
\<close>

definition wrapped :: "int \<Rightarrow> int \<Rightarrow> int \<Rightarrow> bool" where
  "wrapped step hi v =
     (hi < v \<or> - 200 \<le> v \<or> - (2 ^ 63) \<le> v \<and> v < - (2 ^ 63) + 64 \<and> 2 ^ 63 - 65 < step)"

definition wrap_measure :: "int \<Rightarrow> int \<Rightarrow> nat" where
  "wrap_measure hi v =
     (if hi < v then 0 else if - 200 \<le> v then nat (2 * (v + 300)) else nat (2 * (v + 2 ^ 63 + 300) + 1))"

lemma wrapped_step:
  assumes "hi < 64" "2 ^ 62 \<le> step" "step < 2 ^ 63" "wrapped step hi v" "v \<le> hi"
  shows "wrapped step hi (wrap64 (v + step)) \<and> wrap_measure hi (wrap64 (v + step)) < wrap_measure hi v"
proof (cases "- 200 \<le> v")
  case True
  show ?thesis
  proof (cases "v + step < 2 ^ 63")
    case False
    then have "wrap64 (v + step) = v + step - 2 ^ 64" using assms by (intro wrap64_over) simp_all
    with False True assms show ?thesis by (simp add: wrapped_def wrap_measure_def)
  next
    case fits: True
    then have "wrap64 (v + step) = v + step" using True assms by (intro wrap64_id) simp_all
    with True assms show ?thesis by (simp add: wrapped_def wrap_measure_def)
  qed
next
  case False
  with assms have v: "- (2 ^ 63) \<le> v" "v < - (2 ^ 63) + 64" "2 ^ 63 - 65 < step"
    by (auto simp: wrapped_def)
  then have "wrap64 (v + step) = v + step" using assms by (intro wrap64_id) simp_all
  with v False assms show ?thesis by (simp add: wrapped_def wrap_measure_def)
qed

lemma set_bits_loop_returns:
  assumes "0 \<le> lo" "1 \<le> step" "hi < 64" "step < 2 ^ 63"
  shows "\<exists>m. set_bits_loop lo hi step acc = Some m \<and> (\<forall>n. bit m n \<longrightarrow> bit acc n \<or> int n \<le> hi)"
proof (cases "step < 2 ^ 62")
  case True
  with set_bits_loop_exact [of lo step hi acc] assms show ?thesis by blast
next
  case False
  then have large: "2 ^ 62 \<le> step" by simp
  let ?b = "\<lambda>(v, m). v \<le> hi" and ?c = "\<lambda>(v, m). (wrap64 (v + step), m OR bit_value v)"
  let ?P = "\<lambda>vm :: int \<times> 64 word.
    wrapped step hi (fst vm) \<and> (\<forall>n. bit (snd vm) n \<longrightarrow> bit acc n \<or> int n \<le> hi)"
  have step: "?P (?c vm) \<and> wrap_measure hi (fst (?c vm)) < wrap_measure hi (fst vm)"
    if "?P vm" "?b vm" for vm
  proof (cases vm)
    case (Pair v m)
    with that have i: "wrapped step hi v" "v \<le> hi" "\<And>n. bit m n \<Longrightarrow> bit acc n \<or> int n \<le> hi" by simp_all
    have "bit (m OR bit_value v) n \<Longrightarrow> bit acc n \<or> int n \<le> hi" for n
      using i(2,3) unfolding bit_or_iff bit_bit_value by blast
    with wrapped_step [OF assms(3) large assms(4) i(1,2)] show ?thesis
      unfolding Pair prod.case fst_conv snd_conv by blast
  qed
  have init: "?P (lo, acc)" using assms(1) by (simp add: wrapped_def)
  have "\<exists>t. while_option ?b ?c (lo, acc) = Some t"
    by (rule measure_while_option_Some [where P = ?P and f = "\<lambda>vm. wrap_measure hi (fst vm)", OF step init])
  then obtain v m where r: "while_option ?b ?c (lo, acc) = Some (v, m)" by fastforce
  have "?P (v, m)"
    by (rule while_option_rule [where P = ?P, OF _ r init]) (use step in blast)
  with r show ?thesis unfolding set_bits_loop_def by simp
qed

section \<open>The search in a zone without transitions\<close>

text \<open>The minutes that cron runs at: with both day fields restricted a day needs to match only one of them.\<close>

definition listed :: "64 word \<Rightarrow> int \<Rightarrow> bool" where
  "listed m v = (0 \<le> v \<and> bit m (nat v))"

definition matches :: "Schedule \<Rightarrow> location \<Rightarrow> int \<Rightarrow> bool" where
  "matches s loc t =
     (Second loc t = 0 \<and> listed (minute s) (Minute loc t) \<and> listed (hour s) (Hour loc t) \<and>
      listed (month s) (Month loc t) \<and>
      (domStar s \<or> dowStar s \<longrightarrow> listed (dom s) (Day loc t) \<and> listed (dow s) (Weekday loc t)) \<and>
      (listed (dom s) (Day loc t) \<or> listed (dow s) (Weekday loc t)))"

lemma listed_iff: "listed m v = allows m v"
proof -
  have "bit m (nat v) \<Longrightarrow> nat v < 64" using bit_imp_possible_bit [of m "nat v"] by (simp add: possible_bit_word)
  then show ?thesis unfolding listed_def allows_iff by linarith
qed

lemma matches_eq:
  "matches s loc t =
     (Second loc t = 0 \<and> allows (minute s) (Minute loc t) \<and> allows (hour s) (Hour loc t) \<and>
      dayMatches s loc t \<and> allows (month s) (Month loc t))"
  by (auto simp: matches_def dayMatches_def Let_def listed_iff)

lemma split_clock: "86400 * (w div 86400) + 3600 * (w mod 86400 div 3600) + 60 * (w mod 3600 div 60) = w - w mod 60"
  for w :: int
proof -
  have "w mod 86400 mod 3600 = w mod 3600" "w mod 3600 mod 60 = w mod 60"
    by (simp_all add: mod_mod_cancel)
  moreover have "w = 86400 * (w div 86400) + w mod 86400" by simp
  moreover have "w mod 86400 = 3600 * (w mod 86400 div 3600) + w mod 86400 mod 3600" by simp
  moreover have "w mod 3600 = 60 * (w mod 3600 div 60) + w mod 3600 mod 60" by simp
  ultimately show ?thesis by linarith
qed

lemma div_between: "0 < k \<Longrightarrow> k * q \<le> u \<Longrightarrow> u < k * q + k \<Longrightarrow> u div k = q" for u :: int
  by (intro int_div_pos_eq [where r = "u - k * q"]) simp_all

lemma same_hour:
  fixes u w :: int
  assumes "w \<le> u" "u < 86400 * (w div 86400) + 3600 * (w mod 86400 div 3600 + 1)"
  shows "u div 86400 = w div 86400" "u mod 86400 div 3600 = w mod 86400 div 3600"
proof -
  define D r where "D = w div 86400" "r = w mod 86400"
  define H where "H = r div 3600"
  have r: "w = 86400 * D + r" "0 \<le> r" "r < 86400" by (simp_all add: D_r_def)
  have H: "3600 * H \<le> r" "r < 3600 * H + 3600" using div_bounds [of 3600 r] by (simp_all add: H_def)
  then have "H \<le> 23" "0 \<le> H" using r(2,3) by linarith+
  have u: "w \<le> u" "u < 86400 * D + (3600 * H + 3600)" using assms by (simp_all add: D_r_def H_def)
  show "u div 86400 = w div 86400"
    unfolding D_r_def(1) [symmetric] using u r \<open>H \<le> 23\<close> by (intro div_between) linarith+
  then have "u mod 86400 = u - 86400 * D" by (simp add: minus_div_mult_eq_mod [symmetric] D_r_def)
  then have "3600 * H \<le> u mod 86400" "u mod 86400 < 3600 * H + 3600" using u r H by linarith+
  then have "u mod 86400 div 3600 = H" by (intro div_between) simp_all
  then show "u mod 86400 div 3600 = w mod 86400 div 3600" by (simp add: H_def D_r_def)
qed

lemma zone_date: "date_unix (fixed_zone off) y mo d h mi sec + off = 86400 * days_of y mo d + 3600 * h + 60 * mi + sec"
  by (simp add: date_unix_fixed)

lemma jump_month:
  fixes off :: int
  defines "zone \<equiv> fixed_zone off"
  assumes "t \<le> u" "u < date_unix zone (Year zone t) (Month zone t + 1) 1 0 0 0"
  shows "Month zone u = Month zone t"
proof -
  let ?n = "(t + off) div 86400" and ?k = "(u + off) div 86400"
  have "?n \<le> ?k" using assms(2) by (intro zdiv_mono1) simp_all
  moreover have "u + off < 86400 * days_of (year_of ?n) (month_of ?n + 1) 1"
    using assms(3) zone_date [of off "Year zone t" "Month zone t + 1" 1 0 0 0]
    by (simp add: Year_def Month_def wall_fixed zone_def)
  then have "?k < days_of (year_of ?n) (month_of ?n + 1) 1" using div_bounds [of 86400 "u + off"] by simp
  ultimately show ?thesis using same_month_until_next by (simp add: Month_def wall_fixed zone_def)
qed

lemma jump_day:
  fixes off :: int
  defines "zone \<equiv> fixed_zone off"
  assumes "t \<le> u" "u < date_unix zone (Year zone t) (Month zone t) (Day zone t + 1) 0 0 0"
  shows "dayMatches s zone u = dayMatches s zone t"
proof -
  let ?n = "(t + off) div 86400" and ?k = "(u + off) div 86400"
  have "u + off < 86400 * (?n + 1)"
    using assms(3) zone_date [of off "Year zone t" "Month zone t" "Day zone t + 1" 0 0 0] next_day [of ?n]
    by (simp add: Year_def Month_def Day_def wall_fixed zone_def)
  then have "?k = ?n" using assms(2) div_bounds [of 86400 "t + off"] by (intro div_between) simp_all
  then show ?thesis by (simp add: dayMatches_def Day_def Weekday_def wall_fixed zone_def)
qed

lemma jump_hour:
  fixes off :: int
  defines "zone \<equiv> fixed_zone off"
  assumes "t \<le> u" "u < date_unix zone (Year zone t) (Month zone t) (Day zone t) (Hour zone t + 1) 0 0"
  shows "Hour zone u = Hour zone t"
proof -
  let ?w = "t + off"
  have "u + off < 86400 * (?w div 86400) + 3600 * (?w mod 86400 div 3600 + 1)"
    using assms(3) zone_date [of off "Year zone t" "Month zone t" "Day zone t" "Hour zone t + 1" 0 0]
      days_of_civil [of "?w div 86400"]
    by (simp add: Year_def Month_def Day_def Hour_def wall_fixed zone_def)
  then show ?thesis using same_hour(2) [of ?w "u + off"] assms(2)
    by (simp add: Hour_def wall_fixed zone_def)
qed

lemma Second_fixed: "Second (fixed_zone off) t = (t + off) mod 60"
  by (simp add: Second_def wall_fixed)

text \<open>A jump of the search moves forward, stays on whole minutes and skips no match.\<close>

lemma next_jump_fixed:
  fixes off :: int
  defines "zone \<equiv> fixed_zone off"
  assumes t: "Second zone t = 0" and j: "next_jump s zone t = Some t'"
  shows "t < t' \<and> Second zone t' = 0 \<and> (\<forall>u. t \<le> u \<longrightarrow> u < t' \<longrightarrow> \<not> matches s zone u)"
proof -
  let ?n = "(t + off) div 86400"
  have day: "days_of (Year zone t) (Month zone t) (Day zone t) = ?n"
    by (simp add: Year_def Month_def Day_def wall_fixed days_of_civil zone_def)
  consider (month) "\<not> allows (month s) (Month zone t)" "t' = date_unix zone (Year zone t) (Month zone t + 1) 1 0 0 0"
    | (day) "\<not> dayMatches s zone t" "t' = date_unix zone (Year zone t) (Month zone t) (Day zone t + 1) 0 0 0"
    | (hour) "\<not> allows (hour s) (Hour zone t)"
        "t' = date_unix zone (Year zone t) (Month zone t) (Day zone t) (Hour zone t + 1) 0 0"
    | (minute) "\<not> allows (minute s) (Minute zone t)" "t' = t + 60"
    using j by (auto simp: next_jump_def split: if_splits)
  then show ?thesis
  proof cases
    case month
    have "t' + off = 86400 * days_of (year_of ?n) (month_of ?n + 1) 1"
      unfolding month(2) zone_def zone_date by (simp add: Year_def Month_def wall_fixed)
    then have "t < t'" "Second zone t' = 0"
      using next_month_later [of ?n] div_bounds [of 86400 "t + off"] by (simp_all add: Second_fixed zone_def)
    moreover have "\<not> matches s zone u" if "t \<le> u" "u < t'" for u
      using month(1) jump_month [of t u off] that unfolding month(2) zone_def matches_eq by metis
    ultimately show ?thesis by blast
  next
    case day
    have "t' + off = 86400 * (?n + 1)"
      unfolding day(2) zone_def zone_date
      using next_day [of ?n] by (simp add: Year_def Month_def Day_def wall_fixed)
    then have "t < t'" "Second zone t' = 0"
      using div_bounds [of 86400 "t + off"] by (simp_all add: Second_fixed zone_def)
    moreover have "\<not> matches s zone u" if "t \<le> u" "u < t'" for u
      using day(1) jump_day [of t u off s] that unfolding day(2) zone_def matches_eq by metis
    ultimately show ?thesis by blast
  next
    case hour
    let ?r = "(t + off) mod 86400"
    have t': "t' + off = 86400 * ?n + (3600 * (?r div 3600) + 3600)"
      unfolding hour(2) zone_def zone_date
      using day by (simp add: zone_def Hour_def wall_fixed)
    have "t + off = 86400 * ?n + ?r" "?r < 3600 * (?r div 3600) + 3600"
      using div_bounds [of 3600 ?r] by simp_all
    then have "t < t'" using t' by linarith
    moreover have "t' + off = 60 * (1440 * ?n + 60 * (?r div 3600) + 60)" using t' by simp
    then have "Second zone t' = 0" unfolding Second_fixed zone_def by simp
    moreover have "\<not> matches s zone u" if "t \<le> u" "u < t'" for u
      using hour(1) jump_hour [of t u off] that unfolding hour(2) zone_def matches_eq by metis
    ultimately show ?thesis by blast
  next
    case minute
    have "\<not> matches s zone u" if u: "t \<le> u" "u < t + 60" for u
    proof
      assume m: "matches s zone u"
      then have "60 dvd u + off" "60 dvd t + off"
        using t by (simp_all add: matches_eq Second_fixed zone_def mod_eq_0_iff_dvd)
      then have "60 dvd u - t" using dvd_diff [of 60 "u + off" "t + off"] by simp
      then have "u = t" using u zdvd_not_zless [of "u - t" 60] by linarith
      with m minute show False by (simp add: matches_eq)
    qed
    moreover have "(t + 60 + off) mod 60 = (t + off + 60) mod 60" by (simp only: add.assoc add.commute)
    then have "Second zone (t + 60) = 0" using t unfolding Second_fixed zone_def mod_add_self2 by (rule trans)
    ultimately show ?thesis using minute by simp
  qed
qed

lemma next_jump_None: "Second loc t = 0 \<Longrightarrow> next_jump s loc t = None \<longleftrightarrow> matches s loc t"
  by (simp add: next_jump_def matches_eq)

text \<open>The first candidate is the next whole minute.\<close>

lemma next_start_fixed:
  fixes off after :: int
  defines "zone \<equiv> fixed_zone off"
  defines "t \<equiv> date_unix zone (Year zone after) (Month zone after) (Day zone after)
                (Hour zone after) (Minute zone after) 0 + 60"
  shows "after < t" "Second zone t = 0" "\<And>u. after < u \<Longrightarrow> u < t \<Longrightarrow> \<not> matches s zone u"
proof -
  let ?w = "after + off"
  have eq: "t + off = ?w - ?w mod 60 + 60"
    unfolding t_def zone_def
    using zone_date [of off "Year zone after" "Month zone after" "Day zone after" "Hour zone after" "Minute zone after" 0]
      days_of_civil [of "?w div 86400"] split_clock [of ?w]
    by (simp add: zone_def Year_def Month_def Day_def Hour_def Minute_def wall_fixed)
  have b: "0 \<le> ?w mod 60" "?w mod 60 < 60" by simp_all
  from eq b show "after < t" by linarith
  have "60 dvd ?w - ?w mod 60" by (rule dvd_minus_mod)
  then have d: "60 dvd t + off" unfolding eq by simp
  then show "Second zone t = 0" by (simp add: Second_fixed zone_def mod_eq_0_iff_dvd)
  fix u assume u: "after < u" "u < t"
  show "\<not> matches s zone u"
  proof
    assume "matches s zone u"
    then have "60 dvd u + off" by (simp add: matches_eq Second_fixed zone_def mod_eq_0_iff_dvd)
    then have "60 dvd t - u" using d dvd_diff [of 60 "t + off" "u + off"] by simp
    moreover have "0 < t - u" "t - u < 60" using u eq b by linarith+
    ultimately show False using zdvd_not_zless [of "t - u" 60] by linarith
  qed
qed

text \<open>
  The contract of a search by jumps, and what it gives: the first hit after a point from which
  the search starts.
\<close>

locale skip_search =
  fixes aligned hit :: "int \<Rightarrow> bool" and jump :: "int \<Rightarrow> int option"
  assumes stops: "aligned t \<Longrightarrow> jump t = None \<longleftrightarrow> hit t"
    and skips: "aligned t \<Longrightarrow> jump t = Some t' \<Longrightarrow>
      t < t' \<and> aligned t' \<and> (\<forall>u. t \<le> u \<longrightarrow> u < t' \<longrightarrow> \<not> hit u)"
begin

lemma first_hit:
  assumes start: "after < t0" "aligned t0" "\<forall>u. after < u \<longrightarrow> u < t0 \<longrightarrow> \<not> hit u"
  shows "\<exists>t. while_option (\<lambda>t. t \<le> limit \<and> jump t \<noteq> None) (\<lambda>t. the (jump t)) t0 = Some t \<and>
    after < t \<and> (\<forall>u. after < u \<longrightarrow> u < t \<longrightarrow> \<not> hit u) \<and> (t \<le> limit \<longrightarrow> hit t)"
proof -
  let ?b = "\<lambda>t. t \<le> limit \<and> jump t \<noteq> None" and ?c = "\<lambda>t. the (jump t)"
  let ?P = "\<lambda>t. after < t \<and> aligned t \<and> (\<forall>u. after < u \<longrightarrow> u < t \<longrightarrow> \<not> hit u)"
  have step: "?P (?c t) \<and> nat (limit + 1 - ?c t) < nat (limit + 1 - t)" if "?P t" "?b t" for t
  proof -
    from \<open>?b t\<close> obtain t' where t': "jump t = Some t'" "t \<le> limit" by auto
    have j: "t < t'" "aligned t'" "\<forall>u. t \<le> u \<longrightarrow> u < t' \<longrightarrow> \<not> hit u"
      using skips [of t t'] \<open>?P t\<close> t'(1) by blast+
    have "\<not> hit u" if "after < u" "u < t'" for u
      using j(3) \<open>?P t\<close> that by (meson not_less)
    with j(1,2) \<open>?P t\<close> have "?P t'" by simp
    moreover have "nat (limit + 1 - t') < nat (limit + 1 - t)" using j(1) t'(2) by linarith
    ultimately show ?thesis unfolding t'(1) option.sel by blast
  qed
  have init: "?P t0" using start by blast
  have "\<exists>t. while_option ?b ?c t0 = Some t"
    by (rule measure_while_option_Some [where P = ?P and f = "\<lambda>t. nat (limit + 1 - t)", OF step init])
  then obtain t where r: "while_option ?b ?c t0 = Some t" ..
  have "?P t" by (rule while_option_rule [where P = ?P, OF _ r init]) (use step in blast)
  moreover have "t \<le> limit \<Longrightarrow> hit t"
    using while_option_stop [OF r] stops [of t] \<open>?P t\<close> by blast
  ultimately show ?thesis using r by blast
qed

end

interpretation fz: skip_search "\<lambda>t. Second (fixed_zone off) t = 0" "matches s (fixed_zone off)"
  "next_jump s (fixed_zone off)" for s off
  by unfold_locales (use next_jump_None next_jump_fixed in blast)+

section \<open>Printing and parsing\<close>

datatype cron_base = Any | One int | Between int int

type_synonym cron_item = "cron_base \<times> int option"

fun show_base :: "cron_base \<Rightarrow> string" where
  "show_base Any = ''*''"
| "show_base (One v) = itoa v"
| "show_base (Between a b) = itoa a @ CHR ''-'' # itoa b"

fun show_item :: "cron_item \<Rightarrow> string" where
  "show_item (b, None) = show_base b"
| "show_item (b, Some n) = show_base b @ CHR ''/'' # itoa n"

definition show_field :: "cron_item list \<Rightarrow> string" where
  "show_field items = join '','' (map show_item items)"

fun item_bounds :: "field_def \<Rightarrow> cron_item \<Rightarrow> int \<times> int \<times> int" where
  "item_bounds def (Any, st) = (fd_min def, fd_max def, case st of None \<Rightarrow> 1 | Some n \<Rightarrow> n)"
| "item_bounds def (One v, None) = (v, v, 1)"
| "item_bounds def (One v, Some n) = (v, fd_max def, n)"
| "item_bounds def (Between a b, st) = (a, b, case st of None \<Rightarrow> 1 | Some n \<Rightarrow> n)"

fun item_ok :: "field_def \<Rightarrow> cron_item \<Rightarrow> bool" where
  "item_ok def (base, st) =
     ((case base of
         Any \<Rightarrow> True
       | One v \<Rightarrow> fd_min def \<le> v \<and> v \<le> fd_max def
       | Between a b \<Rightarrow> fd_min def \<le> a \<and> a \<le> b \<and> b \<le> fd_max def) \<and>
      (case st of None \<Rightarrow> True | Some n \<Rightarrow> 1 \<le> n \<and> n < 2 ^ 62))"

definition item_value :: "field_def \<Rightarrow> cron_item \<Rightarrow> int \<Rightarrow> bool" where
  "item_value def i v = (case item_bounds def i of (lo, hi, step) \<Rightarrow> lo \<le> v \<and> v \<le> hi \<and> step dvd v - lo)"

definition field_ok :: "nat \<Rightarrow> cron_item list \<Rightarrow> bool" where
  "field_ok idx items = (items \<noteq> [] \<and> list_all (item_ok (fieldDefs ! idx)) items)"

lemma itoa_digits: "0 \<le> v \<Longrightarrow> list_all is_digit (itoa v) \<and> itoa v \<noteq> []"
  using nat_digits_correct [of "nat v"] by (simp add: itoa_def)

lemma fieldDefs_cases:
  "idx < 5 \<Longrightarrow> 0 \<le> fd_min (fieldDefs ! idx) \<and> fd_min (fieldDefs ! idx) \<le> fd_max (fieldDefs ! idx) \<and>
    fd_max (fieldDefs ! idx) < 64 \<and>
    list_all (\<lambda>(k, v). k \<noteq> [] \<and> \<not> is_digit (hd k) \<and>
      fd_min (fieldDefs ! idx) \<le> v \<and> v \<le> fd_max (fieldDefs ! idx)) (fd_names (fieldDefs ! idx))"
  by (cases idx rule: nat.exhaust; simp add: fieldDefs_def less_Suc_eq numeral_eq_Suc)
    (auto simp: is_digit_def less_eq_char_def nth_Cons')

lemma parseValue_itoa:
  assumes "idx < 5" "fd_min (fieldDefs ! idx) \<le> v" "v \<le> fd_max (fieldDefs ! idx)"
  shows "parseValue (itoa v) (fieldDefs ! idx) = Inr v"
proof -
  note f = fieldDefs_cases [OF assms(1)]
  have v: "0 \<le> v" "v < 64" using f assms(2,3) by linarith+
  note d = itoa_digits [OF v(1)]
  have "map_of (fd_names (fieldDefs ! idx)) (itoa v) = None"
  proof (rule ccontr)
    assume "map_of (fd_names (fieldDefs ! idx)) (itoa v) \<noteq> None"
    then obtain w where "(itoa v, w) \<in> set (fd_names (fieldDefs ! idx))" by (auto dest: map_of_SomeD)
    then have "\<not> is_digit (hd (itoa v))" using f by (auto simp: list_all_iff)
    with d show False by (cases "itoa v") auto
  qed
  moreover have "parse_int (itoa v) = Some v" using v by (intro parse_int_itoa) simp_all
  ultimately show ?thesis using assms d by (simp add: parseValue_def to_lower_digits)
qed

lemma digits_chars: "list_all is_digit s \<Longrightarrow> \<not> is_digit c \<Longrightarrow> c \<notin> set s"
  by (auto simp: list_all_iff)

lemma not_digits [simp]:
  "\<not> is_digit CHR ''-''" "\<not> is_digit CHR ''/''" "\<not> is_digit CHR '',''" "\<not> is_digit CHR ''*''"
  by (simp_all add: is_digit_def less_eq_char_def)

lemma item_ok_nonneg:
  assumes "idx < 5" "item_ok (fieldDefs ! idx) (base, st)"
  shows "\<And>v. base = One v \<Longrightarrow> 0 \<le> v" "\<And>a b. base = Between a b \<Longrightarrow> 0 \<le> a \<and> 0 \<le> b"
    "\<And>n. st = Some n \<Longrightarrow> 0 \<le> n"
  using fieldDefs_cases [OF assms(1)] assms(2) by auto

lemma show_base_chars:
  assumes "idx < 5" "item_ok (fieldDefs ! idx) (base, st)"
  shows "show_base base \<noteq> []"
    "list_all (\<lambda>c. is_digit c \<or> c = CHR ''-'' \<or> c = CHR ''*'') (show_base base)"
  using item_ok_nonneg(1,2) [OF assms] itoa_digits
  by (cases base; fastforce simp: list_all_iff)+

lemma parse_range_show:
  assumes "idx < 5" "item_ok (fieldDefs ! idx) (base, st)"
  shows "parse_range (fieldDefs ! idx) (show_base base) (st \<noteq> None) =
    Inr (fst (item_bounds (fieldDefs ! idx) (base, st)), fst (snd (item_bounds (fieldDefs ! idx) (base, st))))"
proof (cases base)
  case Any
  then show ?thesis by (simp add: parse_range_def)
next
  case (One v)
  note d = itoa_digits [OF item_ok_nonneg(1) [OF assms One]]
  have "itoa v \<noteq> ''*''" using d by auto
  moreover have "cut_at CHR ''-'' (itoa v) = None"
    using d unfolding cut_at_None by (intro digits_chars) simp_all
  moreover have "parseValue (itoa v) (fieldDefs ! idx) = Inr v"
    using assms One by (intro parseValue_itoa) simp_all
  ultimately show ?thesis using One by (cases st) (simp_all add: parse_range_def)
next
  case (Between a b)
  note nn = item_ok_nonneg(2) [OF assms Between]
  note d = itoa_digits [OF nn [THEN conjunct1]] itoa_digits [OF nn [THEN conjunct2]]
  have "itoa a @ CHR ''-'' # itoa b \<noteq> ''*''" using d by (cases "itoa a") auto
  moreover have "cut_at CHR ''-'' (itoa a @ CHR ''-'' # itoa b) = Some (itoa a, itoa b)"
    using d by (intro cut_at_append digits_chars) simp_all
  moreover have "parseValue (itoa a) (fieldDefs ! idx) = Inr a" "parseValue (itoa b) (fieldDefs ! idx) = Inr b"
    "a \<le> b" using assms Between by (auto intro!: parseValue_itoa)
  ultimately show ?thesis using Between by (simp add: parse_range_def)
qed

lemma parse_part_show:
  assumes "idx < 5" "item_ok (fieldDefs ! idx) i"
  shows "parse_part (fieldDefs ! idx) field (show_item i) = Inr (item_bounds (fieldDefs ! idx) i)"
proof -
  obtain base st where i: "i = (base, st)" by fastforce
  with assms have ok: "item_ok (fieldDefs ! idx) (base, st)" by simp
  note r = parse_range_show [OF assms(1) ok]
  have slash: "CHR ''/'' \<notin> set (show_base base)"
    using show_base_chars(2) [OF assms(1) ok] by (auto simp: list_all_iff)
  note ne = show_base_chars(1) [OF assms(1) ok]
  show ?thesis
  proof (cases st)
    case None
    have "item_bounds (fieldDefs ! idx) (base, None) = (a, b, 1)"
      if "item_bounds (fieldDefs ! idx) (base, None) = (a, b, n)" for a b n
      using that by (cases base) auto
    with None slash ne r show ?thesis
      by (cases "item_bounds (fieldDefs ! idx) (base, None)")
         (simp add: i parse_part_def parse_step_def cut_at_None [THEN iffD2])
  next
    case (Some n)
    with ok have n: "1 \<le> n" "n < 2 ^ 62" by auto
    then have "parse_int (itoa n) = Some n" by (intro parse_int_itoa) simp_all
    moreover have "item_bounds (fieldDefs ! idx) (base, Some n) = (a, b, n)"
      if "item_bounds (fieldDefs ! idx) (base, Some n) = (a, b, m)" for a b m
      using that by (cases base) auto
    ultimately show ?thesis
      using Some slash ne r n
      by (cases "item_bounds (fieldDefs ! idx) (base, Some n)")
         (simp add: i parse_part_def parse_step_def cut_at_append)
  qed
qed

definition allowed_by :: "nat \<Rightarrow> cron_item list \<Rightarrow> int \<Rightarrow> bool" where
  "allowed_by idx items v = list_ex (\<lambda>i. item_value (fieldDefs ! idx) i v) items"

lemma item_bounds_range:
  assumes "idx < 5" "item_ok (fieldDefs ! idx) i" "item_bounds (fieldDefs ! idx) i = (lo, hi, step)"
  shows "0 \<le> lo" "1 \<le> step" "hi < 64" "step < 2 ^ 62"
proof -
  obtain base st where i: "i = (base, st)" by fastforce
  have "0 \<le> lo \<and> 1 \<le> step \<and> hi < 64 \<and> step < 2 ^ 62"
    using fieldDefs_cases [OF assms(1)] assms(2,3) i
    by (cases base; cases st) auto
  then show "0 \<le> lo" "1 \<le> step" "hi < 64" "step < 2 ^ 62" by simp_all
qed

lemma parse_parts_show:
  assumes "idx < 5" "list_all (item_ok (fieldDefs ! idx)) items"
  shows "\<exists>m. parse_parts (fieldDefs ! idx) field (map show_item items) acc = Some (Inr m) \<and>
    (\<forall>n. bit m n \<longleftrightarrow> bit acc n \<or> allowed_by idx items (int n))"
  using assms(2)
proof (induction items arbitrary: acc)
  case Nil
  then show ?case by (simp add: allowed_by_def)
next
  case (Cons i items)
  obtain lo hi step where b: "item_bounds (fieldDefs ! idx) i = (lo, hi, step)" by (metis prod_cases3)
  from Cons.prems have ok: "item_ok (fieldDefs ! idx) i" by simp
  obtain m where m: "set_bits_loop lo hi step acc = Some m"
    "\<And>n. bit m n \<longleftrightarrow> bit acc n \<or> lo \<le> int n \<and> int n \<le> hi \<and> step dvd int n - lo"
    using set_bits_loop_exact [OF item_bounds_range [OF assms(1) ok b]] by blast
  have m': "bit m n \<longleftrightarrow> bit acc n \<or> item_value (fieldDefs ! idx) i (int n)" for n
    using m(2) b by (simp add: item_value_def)
  obtain r where "parse_parts (fieldDefs ! idx) field (map show_item items) m = Some (Inr r)"
    "\<forall>n. bit r n \<longleftrightarrow> bit m n \<or> allowed_by idx items (int n)"
    using Cons.IH [of m] Cons.prems by auto
  with m(1) m' b ok show ?case
    by (simp add: parse_part_show [OF assms(1)] allowed_by_def)
qed

lemma show_item_chars:
  assumes "idx < 5" "item_ok (fieldDefs ! idx) i"
  shows "show_item i \<noteq> []"
    "list_all (\<lambda>c. is_digit c \<or> c = CHR ''-'' \<or> c = CHR ''*'' \<or> c = CHR ''/'') (show_item i)"
proof -
  obtain base st where i: "i = (base, st)" by fastforce
  with assms have ok: "item_ok (fieldDefs ! idx) (base, st)" by simp
  note b = show_base_chars [OF assms(1) ok]
  show "show_item i \<noteq> []" using b(1) i by (cases st) simp_all
  have "list_all (\<lambda>c. is_digit c \<or> c = CHR ''-'' \<or> c = CHR ''*'' \<or> c = CHR ''/'') (show_base base)"
    using b(2) by (auto simp: list_all_iff)
  moreover have "list_all is_digit (itoa n)" if "st = Some n" for n
    using item_ok_nonneg(3) [OF assms(1) ok that] itoa_digits by blast
  ultimately show "list_all (\<lambda>c. is_digit c \<or> c = CHR ''-'' \<or> c = CHR ''*'' \<or> c = CHR ''/'') (show_item i)"
    using i by (cases st) (auto simp: list_all_iff)
qed

lemma show_item_star:
  assumes "idx < 5" "item_ok (fieldDefs ! idx) i"
  shows "show_item i = ''*'' \<longleftrightarrow> i = (Any, None)"
proof -
  obtain base st where i: "i = (base, st)" by fastforce
  with assms have ok: "item_ok (fieldDefs ! idx) (base, st)" by simp
  have "show_base base = ''*'' \<longleftrightarrow> base = Any"
  proof (cases base)
    case (One v)
    from itoa_digits [OF item_ok_nonneg(1) [OF assms(1) ok One]] One show ?thesis by auto
  next
    case (Between a b)
    then show ?thesis using itoa_digits [of a] item_ok_nonneg(2) [OF assms(1) ok Between] by (cases "itoa a") auto
  qed simp
  moreover have "show_item i \<noteq> ''*''" if "st = Some n" for n
    using show_base_chars(1) [OF assms(1) ok] i that by (cases "show_base base") auto
  ultimately show ?thesis using i by (cases st) auto
qed

lemma parseField_show:
  assumes "idx < 5" "field_ok idx items"
  shows "\<exists>m. parseField (show_field items) idx = Some (Inr (m, items = [(Any, None)])) \<and>
    (\<forall>n. bit m n \<longleftrightarrow> allowed_by idx items (int n))"
proof -
  from assms(2) have ok: "items \<noteq> []" "list_all (item_ok (fieldDefs ! idx)) items"
    by (simp_all add: field_ok_def)
  have chars: "CHR '','' \<notin> set (show_item i)" if "i \<in> set items" for i
    using show_item_chars(2) [OF assms(1), of i] ok(2) that by (auto simp: list_all_iff)
  then have split: "split_on CHR '','' (show_field items) = map show_item items"
    unfolding show_field_def using ok(1) by (intro split_on_join) (auto simp: list_all_iff)
  have star: "show_field items = ''*'' \<longleftrightarrow> items = [(Any, None)]"
  proof
    assume "show_field items = ''*''"
    with split have "map show_item items = [''*'']" by simp
    then obtain i where i: "items = [i]" "show_item i = ''*''" by auto
    with ok(2) show_item_star [OF assms(1), of i] show "items = [(Any, None)]" by simp
  qed (simp add: show_field_def)
  obtain m where "parse_parts (fieldDefs ! idx) (show_field items) (map show_item items) 0 = Some (Inr m)"
    "\<forall>n. bit m n \<longleftrightarrow> bit (0 :: 64 word) n \<or> allowed_by idx items (int n)"
    using parse_parts_show [OF assms(1) ok(2)] by blast
  then show ?thesis by (simp add: parseField_def split star)
qed

lemma bit_sunday_alias: "bit (sunday_alias m) n \<longleftrightarrow> n \<noteq> 7 \<and> (bit m n \<or> n = 0 \<and> bit m 7)"
proof -
  have eq: "push_bit 7 1 = bit_value 7" by (simp add: bit_value_def)
  have "m AND bit_value 7 \<noteq> 0 \<longleftrightarrow> bit m 7" using allows_iff [of m 7] by (simp add: allows_def)
  moreover have "bit ((m OR 1) AND NOT (bit_value 7)) n \<longleftrightarrow> n \<noteq> 7 \<and> (bit m n \<or> n = 0)"
    using bit_imp_le_length [of m n] by (auto simp: bit_and_iff bit_or_iff bit_not_iff bit_bit_value bit_1_iff possible_bit_word)
  ultimately show ?thesis unfolding sunday_alias_def eq by auto
qed

lemma show_field_plain:
  assumes "idx < 5" "field_ok idx items"
  shows "show_field items \<noteq> [] \<and> list_all plain (show_field items)"
proof -
  have item: "show_item i \<noteq> [] \<and> list_all plain (show_item i)" if "i \<in> set items" for i
  proof -
    from that assms(2) have "item_ok (fieldDefs ! idx) i" by (auto simp: field_ok_def list_all_iff)
    note c = show_item_chars [OF assms(1) this]
    have "plain c" if "is_digit c \<or> c = CHR ''-'' \<or> c = CHR ''*'' \<or> c = CHR ''/''" for c
      using that by (auto simp: plain_def space1_def is_digit_def less_eq_char_def)
    with c show ?thesis by (simp add: list_all_iff)
  qed
  have "plain CHR '',''" by (simp add: plain_def space1_def)
  then have "list_all plain (join '','' (map show_item is))" if "set is \<subseteq> set items" for "is"
    using that item by (induction "is" rule: induct_list012) auto
  moreover have "join '','' (map show_item items) \<noteq> []"
    using assms(2) item by (cases items rule: remdups_adj.cases) (auto simp: field_ok_def)
  ultimately show ?thesis by (simp add: show_field_def)
qed

lemma allows_bits: "(\<And>n. bit m n \<longleftrightarrow> n < 64 \<and> Q (int n)) \<Longrightarrow> (\<And>v. Q v \<Longrightarrow> 0 \<le> v \<and> v < 64) \<Longrightarrow> allows m v \<longleftrightarrow> Q v"
  unfolding allows_iff by (metis int_nat_eq nat_less_iff of_nat_numeral)

lemma allowed_by_range:
  assumes "idx < 5" "field_ok idx items" "allowed_by idx items v"
  shows "0 \<le> v \<and> v < 64"
proof -
  from assms(2,3) obtain i where i: "item_ok (fieldDefs ! idx) i" "item_value (fieldDefs ! idx) i v"
    by (auto simp: allowed_by_def field_ok_def list_all_iff list_ex_iff)
  obtain lo hi step where b: "item_bounds (fieldDefs ! idx) i = (lo, hi, step)" by (metis prod_cases3)
  from item_bounds_range [OF assms(1) i(1) b] i(2) b show ?thesis by (simp add: item_value_def)
qed

lemma parseField_allows:
  assumes "idx < 5" "field_ok idx items"
  shows "\<exists>m. parseField (show_field items) idx = Some (Inr (m, items = [(Any, None)])) \<and>
    (\<forall>v. allows m v \<longleftrightarrow> allowed_by idx items v)"
proof -
  obtain m where m: "parseField (show_field items) idx = Some (Inr (m, items = [(Any, None)]))"
    "\<And>n. bit m n \<longleftrightarrow> allowed_by idx items (int n)"
    using parseField_show [OF assms] by blast
  have "allows m v \<longleftrightarrow> allowed_by idx items v" for v
    using allowed_by_range [OF assms] m(2)
    by (intro allows_bits) (metis nat_int nat_less_iff of_nat_numeral, blast)
  with m(1) show ?thesis by blast
qed

section \<open>Every expression is accepted or rejected\<close>

lemma parseValue_range:
  assumes "idx < 5" "parseValue t (fieldDefs ! idx) = Inr v"
  shows "0 \<le> v \<and> v \<le> fd_max (fieldDefs ! idx)"
proof (cases "map_of (fd_names (fieldDefs ! idx)) (to_lower t)")
  case None
  with assms(2) fieldDefs_cases [OF assms(1)] show ?thesis
    by (auto simp: parseValue_def split: option.splits if_splits)
next
  case (Some w)
  then have "(to_lower t, w) \<in> set (fd_names (fieldDefs ! idx))" by (rule map_of_SomeD)
  with fieldDefs_cases [OF assms(1)] have "0 \<le> w \<and> w \<le> fd_max (fieldDefs ! idx)"
    by (fastforce simp: list_all_iff)
  with Some assms(2) show ?thesis by (simp add: parseValue_def)
qed

lemma parse_range_bounds:
  assumes "idx < 5" "parse_range (fieldDefs ! idx) t st = Inr (lo, hi)"
  shows "0 \<le> lo \<and> hi \<le> fd_max (fieldDefs ! idx)"
  using assms(2) fieldDefs_cases [OF assms(1)] parseValue_range [OF assms(1)]
  by (auto simp: parse_range_def result_bind_eq_Inr split: if_splits option.splits)

lemma parse_part_bounds:
  assumes "idx < 5" "parse_part (fieldDefs ! idx) field t = Inr (lo, hi, step)"
  shows "0 \<le> lo" "hi \<le> fd_max (fieldDefs ! idx)" "1 \<le> step" "step < 2 ^ 63"
proof -
  from assms(2) have st: "\<exists>st. parse_step (fieldDefs ! idx) st = Inr step"
    "\<exists>r hs. parse_range (fieldDefs ! idx) r hs = Inr (lo, hi)"
    by (auto simp: parse_part_def Let_def result_bind_eq_Inr split: if_splits option.splits)
  show "0 \<le> lo" "hi \<le> fd_max (fieldDefs ! idx)" using st(2) parse_range_bounds [OF assms(1)] by blast+
  from st(1) obtain t' where "parse_step (fieldDefs ! idx) t' = Inr step" ..
  then have "1 \<le> step \<and> step < 2 ^ 63"
    by (auto simp: parse_step_def split: option.splits if_splits dest: parse_int_range)
  then show "1 \<le> step" "step < 2 ^ 63" by simp_all
qed

lemma parse_parts_returns:
  assumes "idx < 5"
  shows "\<exists>r. parse_parts (fieldDefs ! idx) field ps acc = Some r \<and>
    (\<forall>m n. r = Inr m \<longrightarrow> bit m n \<longrightarrow> bit acc n \<or> int n \<le> fd_max (fieldDefs ! idx))"
proof (induction ps arbitrary: acc)
  case Nil
  then show ?case by simp
next
  case (Cons p ps)
  show ?case
  proof (cases "parse_part (fieldDefs ! idx) field p")
    case (Inl e)
    then show ?thesis by simp
  next
    case (Inr b)
    obtain lo hi step where b: "b = (lo, hi, step)" by (metis prod_cases3)
    note pb = parse_part_bounds [OF assms Inr [unfolded b]]
    have "hi < 64" using pb(2) fieldDefs_cases [OF assms] by linarith
    then obtain m where m: "set_bits_loop lo hi step acc = Some m" "\<And>n. bit m n \<Longrightarrow> bit acc n \<or> int n \<le> hi"
      using set_bits_loop_returns [OF pb(1,3) _ pb(4)] by blast
    have m': "bit acc n \<or> int n \<le> fd_max (fieldDefs ! idx)" if "bit m n" for n
      using m(2) [OF that] pb(2) by linarith
    obtain r where r: "parse_parts (fieldDefs ! idx) field ps m = Some r"
      "\<forall>k n. r = Inr k \<longrightarrow> bit k n \<longrightarrow> bit m n \<or> int n \<le> fd_max (fieldDefs ! idx)"
      using Cons.IH [of m] by (elim exE conjE)
    have "parse_parts (fieldDefs ! idx) field (p # ps) acc = Some r" using Inr b m(1) r(1) by simp
    with r(2) m' show ?thesis by blast
  qed
qed

lemma parseField_returns:
  assumes "idx < 5"
  shows "\<exists>r. parseField field idx = Some r \<and>
    (\<forall>m st v. r = Inr (m, st) \<longrightarrow> allows m v \<longrightarrow> v \<le> fd_max (fieldDefs ! idx))"
proof -
  obtain r where r: "parse_parts (fieldDefs ! idx) field (split_on CHR '','' field) 0 = Some r"
    "\<forall>m n. r = Inr m \<longrightarrow> bit m n \<longrightarrow> bit (0 :: 64 word) n \<or> int n \<le> fd_max (fieldDefs ! idx)"
    using parse_parts_returns [OF assms, of field "split_on CHR '','' field" 0] by (elim exE conjE)
  have "v \<le> fd_max (fieldDefs ! idx)" if m: "r = Inr m" "allows m v" for m v
  proof -
    have "int (nat v) \<le> fd_max (fieldDefs ! idx)" using r(2) m by (auto simp: allows_iff)
    with m(2) show ?thesis by (simp add: allows_iff)
  qed
  with r(1) show ?thesis by (cases r) (auto simp: parseField_def)
qed

lemma Parse_cases:
  assumes "length (split_fields expr) = 5"
  shows "\<exists>r. Parse expr = Some r \<and> (\<forall>s. r = Inr s \<longrightarrow>
    (\<exists>m0 m1 m2 m3 m4 b0 b1 b2 b3 b4. s = \<lparr>minute = m0, hour = m1, dom = m2, month = m3,
        dow = sunday_alias m4, domStar = b2, dowStar = b4\<rparr> \<and>
      parseField (split_fields expr ! 0) 0 = Some (Inr (m0, b0)) \<and>
      parseField (split_fields expr ! 1) 1 = Some (Inr (m1, b1)) \<and>
      parseField (split_fields expr ! 2) 2 = Some (Inr (m2, b2)) \<and>
      parseField (split_fields expr ! 3) 3 = Some (Inr (m3, b3)) \<and>
      parseField (split_fields expr ! 4) 4 = Some (Inr (m4, b4))))"
proof -
  obtain f0 f1 f2 f3 f4 where f: "split_fields expr = [f0, f1, f2, f3, f4]"
    using assms by (auto simp: numeral_eq_Suc length_Suc_conv)
  have n: "length fieldDefs = 5" by (simp add: fieldDefs_def)
  have ret: "\<exists>r. parseField t i = Some r" if "i < 5" for t i using parseField_returns [OF that] by blast
  obtain r0 r1 r2 r3 r4 where r: "parseField f0 0 = Some r0" "parseField f1 (Suc 0) = Some r1" "parseField f2 2 = Some r2"
    "parseField f3 3 = Some r3" "parseField f4 4 = Some r4"
    using ret [of 0 f0] ret [of "Suc 0" f1] ret [of 2 f2] ret [of 3 f3] ret [of 4 f4] by auto
  have e: "Suc (Suc 0) = 2" "Suc 2 = 3" "Suc 3 = 4" by simp_all
  show ?thesis
    by (cases r0; cases r1; cases r2; cases r3; cases r4)
       (auto simp: Parse_def n f e r)
qed

lemma Parse_count: "length (split_fields expr) \<noteq> 5 \<Longrightarrow> Parse expr = Some (Inl (FieldCount (length (split_fields expr))))"
  by (simp add: Parse_def fieldDefs_def)

section \<open>Properties\<close>

text \<open>
  C6. In a location with a fixed offset (UTC included) \<open>Next\<close> returns, and its result is the
  first matching whole minute strictly after the given instant; it returns the zero time exactly
  when no minute up to the limit, nine years later, matches.
\<close>

theorem Next_fixed_zone:
  "\<exists>r. Next s (fixed_zone off) after = Some r \<and>
     (case r of
        Some t \<Rightarrow> after < t \<and> t \<le> add_date (fixed_zone off) nextLimitYears after \<and>
          matches s (fixed_zone off) t \<and>
          {u. after < u \<and> u < t \<and> matches s (fixed_zone off) u} = {}
      | None \<Rightarrow>
          {u. after < u \<and> u \<le> add_date (fixed_zone off) nextLimitYears after \<and> matches s (fixed_zone off) u} = {})"
proof -
  let ?z = "fixed_zone off"
  let ?limit = "add_date ?z nextLimitYears after"
  let ?t0 = "date_unix ?z (Year ?z after) (Month ?z after) (Day ?z after) (Hour ?z after) (Minute ?z after) 0 + 60"
  have "\<forall>u. after < u \<longrightarrow> u < ?t0 \<longrightarrow> \<not> matches s ?z u"
    using next_start_fixed(3) by blast
  note start = next_start_fixed(1,2) this
  obtain t where t: "next_loop s ?z ?limit ?t0 = Some t" "after < t"
    "\<forall>u. after < u \<longrightarrow> u < t \<longrightarrow> \<not> matches s ?z u" "t \<le> ?limit \<longrightarrow> matches s ?z t"
    using fz.first_hit [OF start, of ?limit] unfolding next_loop_def by (elim exE conjE)
  have "Next s ?z after = Some (if t \<le> ?limit then Some t else None)"
    using t(1) by (simp add: Next_def Let_def)
  then show ?thesis
    by (cases "t \<le> ?limit") (use t in auto)
qed

text \<open>A search that comes back to the same instant never ends.\<close>

lemma while_option_stuck:
  assumes "b t" "c t = t"
  shows "while_option b c t = None"
proof -
  have "(c ^^ k) t = t" for k by (induction k) (simp_all add: assms(2))
  with assms(1) show ?thesis by (simp add: while_option_def)
qed

definition new_york :: location where
  "new_york =
     \<lparr>first_offset = - 14400,
      transitions = [(1762063200, - 18000), (1772953200, - 14400), (1793512800, - 18000)]\<rparr>"

definition every_day_at_three :: Schedule where
  "every_day_at_three =
     \<lparr>minute = 1, hour = 8, dom = 4294967294, month = 8190, dow = 127, domStar = True, dowStar = True\<rparr>"

definition every_minute :: Schedule where
  "every_minute =
     \<lparr>minute = 1152921504606846975, hour = 16777215, dom = 4294967294, month = 8190, dow = 127,
      domStar = True, dowStar = True\<rparr>"

text \<open>
  C7. With the transitions of New York in 2026, \<open>Next\<close> of the schedule \<open>0 3 * * *\<close> does not
  return when called at half past midnight on 8 March: \<open>time.Date\<close> resolves the missing two
  o'clock to one o'clock, from where the search jumps to the same instant again.
\<close>

theorem Next_spring_forward_diverges:
  "Parse ''0 3 * * *'' = Some (Inr every_day_at_three) \<and>
   Next every_day_at_three new_york 1772947800 = None"
proof
  show "Parse ''0 3 * * *'' = Some (Inr every_day_at_three)" by code_simp
  let ?limit = "add_date new_york nextLimitYears 1772947800"
  have one: "next_jump every_day_at_three new_york 1772947860 = Some 1772949600" by code_simp
  have stuck: "next_jump every_day_at_three new_york 1772949600 = Some 1772949600" by code_simp
  have limit: "1772949600 \<le> ?limit" by code_simp
  have "next_loop every_day_at_three new_york ?limit 1772949600 = None"
    unfolding next_loop_def using stuck limit by (intro while_option_stuck) simp_all
  then have "next_loop every_day_at_three new_york ?limit 1772947860 = None"
    unfolding next_loop_def using one limit by (subst while_option_unfold) simp
  moreover have "date_unix new_york (Year new_york 1772947800) (Month new_york 1772947800)
      (Day new_york 1772947800) (Hour new_york 1772947800) (Minute new_york 1772947800) 0 + 60 = 1772947860"
    by code_simp
  ultimately show "Next every_day_at_three new_york 1772947800 = None"
    by (simp add: Next_def Let_def)
qed


text \<open>
  A step near the largest 64-bit integer makes the counter of the range loop wrap: the field
  \<open>5/9223372036854775807\<close> allows the minutes 1, 3 and 5, two of them below the start of the range.
\<close>

lemma Parse_step_overflow:
  "\<exists>s. Parse ''5/9223372036854775807 * * * *'' = Some (Inr s) \<and>
     {v. allows (minute s) v} = {1, 3, 5}"
proof -
  have "Parse ''5/9223372036854775807 * * * *'' = Some (Inr (every_minute\<lparr>minute := 42\<rparr>))" by code_simp
  moreover have "{v. allows 42 v} = {1, 3, 5}"
  proof -
    have eq: "42 = bit_value 1 OR bit_value 3 OR bit_value 5" by code_simp
    have "allows 42 v \<longleftrightarrow> v = 1 \<or> v = 3 \<or> v = 5" for v
      unfolding allows_iff eq bit_or_iff bit_bit_value by auto
    then show ?thesis by blast
  qed
  ultimately show ?thesis by (auto intro!: exI [of _ "every_minute\<lparr>minute := 42\<rparr>"])
qed

text \<open>
  C9. Printing a five-field expression built from values, ranges, steps and lists within the
  bounds of their fields and parsing it gives a schedule whose masks allow exactly the values
  the items denote (in the day of week 7 denotes 0), with the star flags of a field that is a
  single star.
\<close>

theorem Parse_show:
  assumes "field_ok 0 mi" "field_ok 1 ho" "field_ok 2 dm" "field_ok 3 mo" "field_ok 4 dw"
  shows "\<exists>s. Parse (join '' '' (map show_field [mi, ho, dm, mo, dw])) = Some (Inr s) \<and>
    {v. allows (minute s) v} = {v. allowed_by 0 mi v} \<and>
    {v. allows (hour s) v} = {v. allowed_by 1 ho v} \<and>
    {v. allows (dom s) v} = {v. allowed_by 2 dm v} \<and>
    {v. allows (month s) v} = {v. allowed_by 3 mo v} \<and>
    {v. allows (dow s) v} = {v. v \<noteq> 7 \<and> (allowed_by 4 dw v \<or> v = 0 \<and> allowed_by 4 dw 7)} \<and>
    domStar s = (dm = [(Any, None)]) \<and> dowStar s = (dw = [(Any, None)])"
proof -
  let ?e = "join '' '' (map show_field [mi, ho, dm, mo, dw])"
  have f: "split_fields ?e = map show_field [mi, ho, dm, mo, dw]"
    using show_field_plain [OF _ assms(1)] show_field_plain [OF _ assms(2)] show_field_plain [OF _ assms(3)]
      show_field_plain [OF _ assms(4)] show_field_plain [OF _ assms(5)]
    by (intro split_fields_join) simp
  obtain m0 where m0: "parseField (show_field mi) 0 = Some (Inr (m0, mi = [(Any, None)]))"
    "{v. allows m0 v} = {v. allowed_by 0 mi v}" using parseField_allows [OF _ assms(1)] by auto
  obtain m1 where m1: "parseField (show_field ho) 1 = Some (Inr (m1, ho = [(Any, None)]))"
    "{v. allows m1 v} = {v. allowed_by 1 ho v}" using parseField_allows [OF _ assms(2)] by auto
  obtain m2 where m2: "parseField (show_field dm) 2 = Some (Inr (m2, dm = [(Any, None)]))"
    "{v. allows m2 v} = {v. allowed_by 2 dm v}" using parseField_allows [OF _ assms(3)] by auto
  obtain m3 where m3: "parseField (show_field mo) 3 = Some (Inr (m3, mo = [(Any, None)]))"
    "{v. allows m3 v} = {v. allowed_by 3 mo v}" using parseField_allows [OF _ assms(4)] by auto
  obtain m4 where m4: "parseField (show_field dw) 4 = Some (Inr (m4, dw = [(Any, None)]))"
    "\<forall>v. allows m4 v \<longleftrightarrow> allowed_by 4 dw v" using parseField_allows [OF _ assms(5)] by auto
  have e: "Suc (Suc 0) = 2" "Suc 2 = 3" "Suc 3 = 4" by simp_all
  have "Parse ?e = Some (Inr \<lparr>minute = m0, hour = m1, dom = m2, month = m3, dow = sunday_alias m4,
      domStar = (dm = [(Any, None)]), dowStar = (dw = [(Any, None)])\<rparr>)"
    unfolding Parse_def f using m0(1) m1(1) m2(1) m3(1) m4(1) by (simp add: fieldDefs_def e)
  moreover have "allows (sunday_alias m4) v \<longleftrightarrow> v \<noteq> 7 \<and> (allowed_by 4 dw v \<or> v = 0 \<and> allowed_by 4 dw 7)" for v
    using m4(2) [THEN spec, of v] m4(2) [THEN spec, of 7] by (auto simp: allows_iff bit_sunday_alias)
  then have "{v. allows (sunday_alias m4) v} = {v. v \<noteq> 7 \<and> (allowed_by 4 dw v \<or> v = 0 \<and> allowed_by 4 dw 7)}"
    by blast
  ultimately show ?thesis using m0(2) m1(2) m2(2) m3(2) by simp
qed

theorem Parse_show_witness:
  "\<exists>s. Parse ''*/15 9-17 1,15 * 7'' = Some (Inr s) \<and> {v. allows (dow s) v} = {0} \<and>
     allows (minute s) 45 \<and> \<not> allows (minute s) 46 \<and> dowStar s = False"
proof -
  let ?mi = "[(Any, Some 15)]" and ?ho = "[(Between 9 17, None)]"
    and ?dm = "[(One 1, None), (One 15, None)]" and ?mo = "[(Any, None)]" and ?dw = "[(One 7, None)]"
  have "join '' '' (map show_field [?mi, ?ho, ?dm, ?mo, ?dw]) = ''*/15 9-17 1,15 * 7''" by code_simp
  moreover have "field_ok 0 ?mi" "field_ok 1 ?ho" "field_ok 2 ?dm" "field_ok 3 ?mo" "field_ok 4 ?dw"
    by code_simp+
  note w = Parse_show [OF this]
  ultimately obtain s where s: "Parse ''*/15 9-17 1,15 * 7'' = Some (Inr s)"
    "{v. allows (minute s) v} = {v. allowed_by 0 ?mi v}"
    "{v. allows (dow s) v} = {v. v \<noteq> 7 \<and> (allowed_by 4 ?dw v \<or> v = 0 \<and> allowed_by 4 ?dw 7)}"
    "dowStar s = (?dw = [(Any, None)])" by auto
  have "allowed_by 4 ?dw v \<longleftrightarrow> v = 7" for v by (auto simp: allowed_by_def item_value_def)
  then have "{v. allows (dow s) v} = {0}" using s(3) by auto
  moreover have "allowed_by 0 ?mi 45" "\<not> allowed_by 0 ?mi 46" by code_simp+
  then have "allows (minute s) 45" "\<not> allows (minute s) 46" using s(2) by blast+
  ultimately show ?thesis using s(1,4) by auto
qed

text \<open>
  C10. \<open>Parse\<close> returns on every string, and a schedule it returns only allows values up to the
  upper bound of their field: minutes to 59, hours to 23, days to 31, months to 12 and, the alias
  7 folded into 0, days of the week to 6.
\<close>

theorem Parse_returns_bounded:
  "\<exists>r. Parse expr = Some r \<and>
     (case r of Inl e \<Rightarrow> True
      | Inr s \<Rightarrow> {v. allows (minute s) v} \<subseteq> {0..59} \<and> {v. allows (hour s) v} \<subseteq> {0..23} \<and>
          {v. allows (dom s) v} \<subseteq> {0..31} \<and> {v. allows (month s) v} \<subseteq> {0..12} \<and>
          {v. allows (dow s) v} \<subseteq> {0..6})"
proof (cases "length (split_fields expr) = 5")
  case True
  from Parse_cases [OF this] obtain r where r: "Parse expr = Some r" and imp: "\<forall>s. r = Inr s \<longrightarrow>
    (\<exists>m0 m1 m2 m3 m4 b0 b1 b2 b3 b4. s = \<lparr>minute = m0, hour = m1, dom = m2, month = m3,
        dow = sunday_alias m4, domStar = b2, dowStar = b4\<rparr> \<and>
      parseField (split_fields expr ! 0) 0 = Some (Inr (m0, b0)) \<and>
      parseField (split_fields expr ! 1) 1 = Some (Inr (m1, b1)) \<and>
      parseField (split_fields expr ! 2) 2 = Some (Inr (m2, b2)) \<and>
      parseField (split_fields expr ! 3) 3 = Some (Inr (m3, b3)) \<and>
      parseField (split_fields expr ! 4) 4 = Some (Inr (m4, b4)))"
    by (elim exE conjE)
  have b: "{v. allows m v} \<subseteq> {0..fd_max (fieldDefs ! i)}"
    if "parseField t i = Some (Inr (m, st))" "i < 5" for t i m st
    using parseField_returns [OF that(2), of t] that(1) by (auto simp: allows_iff)
  have max: "fd_max (fieldDefs ! 0) = 59" "fd_max (fieldDefs ! 1) = 23" "fd_max (fieldDefs ! 2) = 31"
    "fd_max (fieldDefs ! 3) = 12" "fd_max (fieldDefs ! 4) = 7" by (simp_all add: fieldDefs_def)
  show ?thesis
  proof (cases r)
    case (Inl e)
    with r show ?thesis by simp
  next
    case (Inr s)
    from imp [rule_format, OF this] obtain m0 m1 m2 m3 m4 b0 b1 b2 b3 b4 where
      s: "s = \<lparr>minute = m0, hour = m1, dom = m2, month = m3, dow = sunday_alias m4, domStar = b2, dowStar = b4\<rparr>"
      and p: "parseField (split_fields expr ! 0) 0 = Some (Inr (m0, b0))"
        "parseField (split_fields expr ! 1) 1 = Some (Inr (m1, b1))"
        "parseField (split_fields expr ! 2) 2 = Some (Inr (m2, b2))"
        "parseField (split_fields expr ! 3) 3 = Some (Inr (m3, b3))"
        "parseField (split_fields expr ! 4) 4 = Some (Inr (m4, b4))" by (elim exE conjE)
    have "v \<in> {0..6}" if "allows (sunday_alias m4) v" for v
    proof -
      have "allows m4 v \<or> v = 0" "v \<noteq> 7" using that by (auto simp: allows_iff bit_sunday_alias)
      then show ?thesis using b [OF p(5)] max(5) by auto
    qed
    then show ?thesis
      using b [OF p(1)] b [OF p(2)] b [OF p(3)] b [OF p(4)] max r Inr s by auto
  qed
next
  case False
  then show ?thesis by (simp add: Parse_count)
qed

end
