(* ===== verification/Yaml.thy ===== *)
theory Yaml
  imports Go_Prelude
begin

text \<open>
  The YAML subset parser of \<open>internal/yml/parser.go\<close>: line splitting with literal block
  scalars and inline comments, block mappings and sequences, inline lists and maps, quoting, and
  the accessors of the node tree.

  A parser is given the remaining lines and returns how many of them it consumed, which is the
  difference of the two positions the code works with. The depth argument of the code counts up
  to \<open>maxParseDepth\<close>; here the levels left are counted down, so that the recursion is
  structural and the error of the last level is the case \<open>0\<close>. The error of the code, a formatted
  text, is a value of \<open>yml_error\<close>.
\<close>

section \<open>The program\<close>

datatype node =
    Scalar string
  | Mapping "(string \<times> node) list"
  | Sequence "node list"

datatype yml_error =
    TabIndent nat
  | FoldedScalar string
  | UnsupportedIndicator string
  | TooDeep nat
  | InlineTooDeep
  | ExpectedKeyValue nat string
  | DuplicateKey nat string nat
  | InlineExpected string
  | InlineDuplicate string
  | UnexpectedIndent nat string
  | ItemIndent nat string nat
  | AtLine nat yml_error

definition maxParseDepth :: nat where "maxParseDepth = 64"

record rawLine =
  literal :: "string option"
  text_of :: string
  indent :: int
  num :: nat

fun findColon :: "string \<Rightarrow> nat option" where
  "findColon [] = None"
| "findColon (c # s) =
     (if c = CHR '':'' \<and> (s = [] \<or> hd s = CHR '' '') then Some 0
      else map_option Suc (findColon s))"

text \<open>Classic Mac and Windows line ends.\<close>

fun normalize_cr :: "string \<Rightarrow> string" where
  "normalize_cr [] = []"
| "normalize_cr (c # s) =
     (if c = carriage_return
      then newline # (case s of [] \<Rightarrow> [] | d # s' \<Rightarrow> if d = newline then normalize_cr s' else normalize_cr s)
      else c # normalize_cr s)"

fun strip_items :: "string \<Rightarrow> string" where
  "strip_items (a # b # s) = (if a = CHR ''-'' \<and> b = CHR '' '' then strip_items s else a # b # s)"
| "strip_items s = s"

definition blockIndicator :: "string \<Rightarrow> string option" where
  "blockIndicator content =
     (let s0 = strip_items content;
          s = (case findColon s0 of None \<Rightarrow> s0 | Some idx \<Rightarrow> trim_space (drop (Suc idx) s0))
      in if s = [] \<or> (hd s \<noteq> CHR ''|'' \<and> hd s \<noteq> CHR ''>'') then None else Some s)"

definition leading_spaces :: "string \<Rightarrow> int" where
  "leading_spaces s = int (length s) - int (length (trim_left {CHR '' ''} s))"

text \<open>The body of a literal block: its lines, and how many lines were read.\<close>

fun literal_body :: "int \<Rightarrow> int \<Rightarrow> string list \<Rightarrow> string list" where
  "literal_body headerIndent blockIndent [] = []"
| "literal_body headerIndent blockIndent (line # raw) =
     (if trim_space line = [] then [] # literal_body headerIndent blockIndent raw
      else let ind = leading_spaces line
        in if blockIndent < 0
           then (if ind \<le> headerIndent then []
                 else drop (nat ind) line # literal_body headerIndent ind raw)
           else (if ind < blockIndent then []
                 else drop (nat blockIndent) line # literal_body headerIndent blockIndent raw))"

definition newline_str :: string where "newline_str = [newline]"

definition chomp :: "string \<Rightarrow> string list \<Rightarrow> string" where
  "chomp indicator body =
     (let t = join newline_str body
      in if indicator = ''|-'' then trim_right {newline} t
         else if indicator = ''|+'' then (if body \<noteq> [] then t @ newline_str else t)
         else let u = trim_right {newline} t in if u \<noteq> [] then u @ newline_str else u)"

definition collectLiteralBlock :: "string list \<Rightarrow> int \<Rightarrow> string \<Rightarrow> yml_error + string \<times> nat" where
  "collectLiteralBlock raw headerIndent indicator =
     (if indicator = ''|'' \<or> indicator = ''|-'' \<or> indicator = ''|+''
      then let body = literal_body headerIndent (- 1) raw in Inr (chomp indicator body, length body)
      else if indicator = ''>'' \<or> indicator = ''>-'' \<or> indicator = ''>+''
      then Inl (FoldedScalar indicator)
      else Inl (UnsupportedIndicator indicator))"

record quoting =
  inSingle :: bool
  inDouble :: bool
  escaped :: bool

text \<open>The text before the comment, given the text already passed.\<close>

fun strip_comment_from :: "quoting \<Rightarrow> string \<Rightarrow> string \<Rightarrow> string" where
  "strip_comment_from q done [] = done"
| "strip_comment_from q done (c # s) =
     (if escaped q then strip_comment_from (q\<lparr>escaped := False\<rparr>) (done @ [c]) s
      else if c = CHR 0x5C
      then strip_comment_from (if inDouble q then q\<lparr>escaped := True\<rparr> else q) (done @ [c]) s
      else if c = CHR 0x27
      then strip_comment_from (if inDouble q then q else q\<lparr>inSingle := \<not> inSingle q\<rparr>) (done @ [c]) s
      else if c = CHR 0x22
      then strip_comment_from (if inSingle q then q else q\<lparr>inDouble := \<not> inDouble q\<rparr>) (done @ [c]) s
      else if c = CHR ''#'' \<and> \<not> inSingle q \<and> \<not> inDouble q \<and> done \<noteq> [] \<and> last done = CHR '' ''
      then trim_right {CHR '' ''} done
      else strip_comment_from q (done @ [c]) s)"

definition stripInlineComment :: "string \<Rightarrow> string" where
  "stripInlineComment s =
     strip_comment_from \<lparr>inSingle = False, inDouble = False, escaped = False\<rparr> [] s"

text \<open>
  The loop over the raw lines; \<open>skip\<close> counts the lines a literal block has already taken.
\<close>

fun split_raw :: "nat \<Rightarrow> nat \<Rightarrow> string list \<Rightarrow> yml_error + rawLine list" where
  "split_raw n skip [] = Inr []"
| "split_raw n skip (r # raw) =
     (if 0 < skip then split_raw (Suc n) (skip - 1) raw
      else
        let trimmed = trim_right {CHR '' '', tab, carriage_return} r
        in if trimmed = [] \<or> trim_space trimmed = [] then split_raw (Suc n) 0 raw
           else if hd r = tab then Inl (TabIndent n)
           else
             let content = trim_space trimmed
             in if has_prefix content ''#'' then split_raw (Suc n) 0 raw
                else
                  let content = stripInlineComment content;
                      ind = leading_spaces trimmed
                  in case blockIndicator content of
                       None \<Rightarrow>
                         map_sum id (\<lambda>ls. \<lparr>literal = None, text_of = content, indent = ind, num = n\<rparr> # ls)
                           (split_raw (Suc n) 0 raw)
                     | Some indicator \<Rightarrow>
                         (case collectLiteralBlock raw ind indicator of
                            Inl e \<Rightarrow> Inl (AtLine n e)
                          | Inr (lit, used) \<Rightarrow>
                              map_sum id (\<lambda>ls. \<lparr>literal = Some lit, text_of = content, indent = ind, num = n\<rparr> # ls)
                                (split_raw (Suc n) used raw)))"

definition splitLines :: "string \<Rightarrow> yml_error + rawLine list" where
  "splitLines data =
     (let raw = split_on newline data
      in split_raw 1 0 (if last raw = [] then butlast raw else raw))"

fun unescapeDouble :: "string \<Rightarrow> string" where
  "unescapeDouble (a # b # s) =
     (if a \<noteq> CHR 0x5C then a # unescapeDouble (b # s)
      else if b = CHR ''n'' then newline # unescapeDouble s
      else if b = CHR ''t'' then tab # unescapeDouble s
      else if b = CHR ''r'' then carriage_return # unescapeDouble s
      else if b = CHR 0x5C \<or> b = CHR 0x22 \<or> b = CHR 0x27 then b # unescapeDouble s
      else a # b # unescapeDouble s)"
| "unescapeDouble s = s"

definition unquote :: "string \<Rightarrow> string" where
  "unquote s =
     (if length s < 2 then s
      else if hd s = CHR 0x27 \<and> last s = CHR 0x27 then butlast (tl s)
      else if hd s = CHR 0x22 \<and> last s = CHR 0x22 then unescapeDouble (butlast (tl s))
      else s)"

record csv =
  current :: string
  quoteChar :: "char option"
  csv_escaped :: bool
  csv_depth :: int

text \<open>\<open>splitCSV\<close>; \<open>quoteChar\<close> is \<^const>\<open>None\<close> outside quotes.\<close>

fun split_csv_from :: "csv \<Rightarrow> string \<Rightarrow> string list" where
  "split_csv_from st [] = (if current st \<noteq> [] then [current st] else [])"
| "split_csv_from st (c # s) =
     (let add = st\<lparr>current := current st @ [c]\<rparr>
      in if csv_escaped st then split_csv_from (add\<lparr>csv_escaped := False\<rparr>) s
         else case quoteChar st of
           Some q \<Rightarrow>
             if c = CHR 0x5C \<and> q = CHR 0x22 then split_csv_from (add\<lparr>csv_escaped := True\<rparr>) s
             else if c = q then split_csv_from (add\<lparr>quoteChar := None\<rparr>) s
             else split_csv_from add s
         | None \<Rightarrow>
             if c = CHR 0x22 \<or> c = CHR 0x27 then split_csv_from (add\<lparr>quoteChar := Some c\<rparr>) s
             else
               let d = (if c = CHR ''['' \<or> c = CHR ''{'' then csv_depth st + 1
                        else if c = CHR '']'' \<or> c = CHR ''}'' then csv_depth st - 1
                        else csv_depth st)
               in if c = CHR '','' \<and> d = 0 then current st # split_csv_from (st\<lparr>current := [], csv_depth := d\<rparr>) s
                  else split_csv_from (add\<lparr>csv_depth := d\<rparr>) s)"

definition splitCSV :: "string \<Rightarrow> string list" where
  "splitCSV s = split_csv_from \<lparr>current = [], quoteChar = None, csv_escaped = False, csv_depth = 0\<rparr> s"

text \<open>
  \<open>parseInlineMap\<close> over the entries, given the parser of the values one level down.
\<close>

fun inline_entries :: "(string \<Rightarrow> yml_error + node) \<Rightarrow> string list \<Rightarrow> (string \<times> node) list
    \<Rightarrow> yml_error + (string \<times> node) list" where
  "inline_entries scalar [] acc = Inr acc"
| "inline_entries scalar (e # es) acc =
     (let entry = trim_space e
      in if entry = [] then inline_entries scalar es acc
         else case findColon entry of
           None \<Rightarrow> Inl (InlineExpected entry)
         | Some idx \<Rightarrow>
             let key = unquote (trim_space (take idx entry))
             in if key \<in> fst ` set acc then Inl (InlineDuplicate key)
                else case scalar (trim_space (drop (Suc idx) entry)) of
                  Inl err \<Rightarrow> Inl err
                | Inr v \<Rightarrow> inline_entries scalar es (acc @ [(key, v)]))"

definition parseInlineMap :: "(string \<Rightarrow> yml_error + node) \<Rightarrow> string \<Rightarrow> yml_error + node" where
  "parseInlineMap scalar inner = map_sum id Mapping (inline_entries scalar (splitCSV inner) [])"

definition inline_list :: "string \<Rightarrow> node" where
  "inline_list inner = Sequence (map (\<lambda>item. Scalar (unquote (trim_space item))) (splitCSV inner))"

primrec parseScalar :: "nat \<Rightarrow> string \<Rightarrow> yml_error + node" where
  "parseScalar 0 s = Inl InlineTooDeep"
| "parseScalar (Suc k) s =
     (if has_prefix s ''['' \<and> has_suffix s '']'' then Inr (inline_list (butlast (tl s)))
      else if has_prefix s ''{'' \<and> has_suffix s ''}'' then parseInlineMap (parseScalar k) (butlast (tl s))
      else Inr (Scalar (unquote (trim_space s))))"

definition isInlineSeqItem :: "string \<Rightarrow> bool" where
  "isInlineSeqItem s =
     (if has_prefix s ''- '' then False
      else if has_prefix s ''{'' \<and> has_suffix s ''}'' then True
      else if findColon s = None then True
      else 2 \<le> length s \<and> (hd s = CHR 0x27 \<or> hd s = CHR 0x22) \<and> last s = hd s)"

type_synonym block_parser = "rawLine list \<Rightarrow> int \<Rightarrow> yml_error + node \<times> nat"

record mapping_state =
  entries :: "(string \<times> node) list"
  seenKeys :: "(string \<times> nat) list"
  baseIndent :: int
  minIndent :: int

text \<open>
  The loop of \<open>parseMapping\<close>. \<open>block\<close> parses a child block and \<open>scalar\<close> an inline value;
  \<open>skip\<close> counts the lines the child has consumed and \<open>used\<close> those consumed in all.
\<close>

fun mapping_loop :: "block_parser \<Rightarrow> (string \<Rightarrow> yml_error + node) \<Rightarrow> mapping_state \<Rightarrow> nat \<Rightarrow> nat
    \<Rightarrow> rawLine list \<Rightarrow> yml_error + node \<times> nat" where
  "mapping_loop block scalar st used skip [] = Inr (Mapping (entries st), used)"
| "mapping_loop block scalar st used skip (line # lines) =
     (if 0 < skip then mapping_loop block scalar st (Suc used) (skip - 1) lines
      else if 0 \<le> minIndent st \<and> indent line \<le> minIndent st then Inr (Mapping (entries st), used)
      else if 0 \<le> baseIndent st \<and> indent line \<noteq> baseIndent st then Inr (Mapping (entries st), used)
      else
        let st1 = (if baseIndent st < 0 then st\<lparr>baseIndent := indent line, minIndent := indent line - 1\<rparr> else st)
        in case findColon (text_of line) of
             None \<Rightarrow> Inl (ExpectedKeyValue (num line) (text_of line))
           | Some idx \<Rightarrow>
               let key = trim_space (take idx (text_of line));
                   rest = trim_space (drop (Suc idx) (text_of line))
               in case map_of (seenKeys st1) key of
                    Some prev \<Rightarrow> Inl (DuplicateKey (num line) key prev)
                  | None \<Rightarrow>
                      let st2 = st1\<lparr>seenKeys := (key, num line) # seenKeys st1\<rparr>;
                          add = (\<lambda>v. st2\<lparr>entries := entries st2 @ [(key, v)]\<rparr>)
                      in case literal line of
                           Some lit \<Rightarrow> mapping_loop block scalar (add (Scalar lit)) (Suc used) 0 lines
                         | None \<Rightarrow>
                             if rest \<noteq> []
                             then (case scalar rest of
                                     Inl e \<Rightarrow> Inl (AtLine (num line) e)
                                   | Inr v \<Rightarrow> mapping_loop block scalar (add v) (Suc used) 0 lines)
                             else if lines = [] \<or> indent (hd lines) \<le> indent line
                             then mapping_loop block scalar (add (Scalar [])) (Suc used) 0 lines
                             else (case block lines (indent line) of
                                     Inl e \<Rightarrow> Inl e
                                   | Inr (child, n) \<Rightarrow> mapping_loop block scalar (add child) (Suc used) n lines))"

definition parseMapping :: "block_parser \<Rightarrow> (string \<Rightarrow> yml_error + node) \<Rightarrow> rawLine list \<Rightarrow> int
    \<Rightarrow> yml_error + node \<times> nat" where
  "parseMapping block scalar lines minInd =
     mapping_loop block scalar \<lparr>entries = [], seenKeys = [], baseIndent = - 1, minIndent = minInd\<rparr> 0 0 lines"

text \<open>The loop of \<open>parseSequence\<close>, with the same conventions.\<close>

fun sequence_loop :: "block_parser \<Rightarrow> (string \<Rightarrow> yml_error + node) \<Rightarrow> int \<Rightarrow> node list \<Rightarrow> nat \<Rightarrow> nat
    \<Rightarrow> rawLine list \<Rightarrow> yml_error + node \<times> nat" where
  "sequence_loop block scalar seqIndent items used skip [] = Inr (Sequence items, used)"
| "sequence_loop block scalar seqIndent items used skip (line # lines) =
     (if 0 < skip then sequence_loop block scalar seqIndent items (Suc used) (skip - 1) lines
      else if indent line \<noteq> seqIndent \<or> \<not> has_prefix (text_of line) ''- '' then Inr (Sequence items, used)
      else
        let itemText = trim_prefix (text_of line) ''- '';
            itemIndent = seqIndent + 2
        in if literal line \<noteq> None \<and> \<not> has_prefix itemText ''- '' \<and> findColon itemText = None
           then sequence_loop block scalar seqIndent (items @ [Scalar (the (literal line))]) (Suc used) 0 lines
           else
             let body = takeWhile (\<lambda>l. seqIndent < indent l) lines;
                 itemLines = \<lparr>literal = literal line, text_of = itemText, indent = itemIndent, num = num line\<rparr> # body
             in if body = [] \<and> isInlineSeqItem itemText
                then (case scalar itemText of
                        Inl e \<Rightarrow> Inl (AtLine (num line) e)
                      | Inr item \<Rightarrow>
                          sequence_loop block scalar seqIndent (items @ [item]) (Suc used) 0 lines)
                else (case block itemLines (itemIndent - 1) of
                        Inl e \<Rightarrow> Inl e
                      | Inr (item, n) \<Rightarrow>
                          if n < length itemLines
                          then Inl (ItemIndent (num (itemLines ! n)) (text_of (itemLines ! n)) (num line))
                          else sequence_loop block scalar seqIndent (items @ [item]) (Suc used) (length body) lines))"

definition parseSequence :: "block_parser \<Rightarrow> (string \<Rightarrow> yml_error + node) \<Rightarrow> rawLine list \<Rightarrow> int
    \<Rightarrow> yml_error + node \<times> nat" where
  "parseSequence block scalar lines seqIndent = sequence_loop block scalar seqIndent [] 0 0 lines"

primrec parseBlock :: "nat \<Rightarrow> block_parser" where
  "parseBlock 0 = (\<lambda>lines minInd. Inl (TooDeep (case lines of [] \<Rightarrow> 0 | l # _ \<Rightarrow> num l)))"
| "parseBlock (Suc k) =
     (\<lambda>lines minInd.
        case lines of
          [] \<Rightarrow> Inr (Scalar [], 0)
        | line # _ \<Rightarrow>
            if has_prefix (text_of line) ''- ''
            then parseSequence (parseBlock k) (parseScalar (Suc k)) lines (indent line)
            else parseMapping (parseBlock k) (parseScalar (Suc k)) lines minInd)"

definition utf8_bom :: string where "utf8_bom = [CHR 0xEF, CHR 0xBB, CHR 0xBF]"

definition Parse :: "string \<Rightarrow> yml_error + node" where
  "Parse data =
     result_bind (splitLines (normalize_cr (trim_prefix data utf8_bom))) (\<lambda>lines.
       result_bind (parseBlock (Suc maxParseDepth) lines (- 1)) (\<lambda>(n, used).
         if used < length lines
         then Inl (UnexpectedIndent (num (lines ! used)) (text_of (lines ! used)))
         else Inr n))"

section \<open>Accessors\<close>

text \<open>A nil node is \<^const>\<open>None\<close>.\<close>

definition Get :: "node option \<Rightarrow> string \<Rightarrow> node option" where
  "Get n key = (case n of Some (Mapping es) \<Rightarrow> map_of es key | _ \<Rightarrow> None)"

definition String_of :: "node option \<Rightarrow> string" where
  "String_of n = (case n of Some (Scalar s) \<Rightarrow> s | _ \<Rightarrow> [])"

definition Int_of :: "node option \<Rightarrow> int option" where
  "Int_of n = (if String_of n = [] then None else parse_int (String_of n))"

definition Bool_of :: "node option \<Rightarrow> bool" where
  "Bool_of n = (to_lower (String_of n) = ''true'' \<or> to_lower (String_of n) = ''yes'')"

definition BoolPtr :: "node option \<Rightarrow> bool option" where
  "BoolPtr n = (if n = None \<or> String_of n = [] then None else Some (Bool_of n))"

definition Strings :: "node option \<Rightarrow> string list" where
  "Strings n =
     (case n of
        Some (Sequence items) \<Rightarrow> List.map_filter (\<lambda>i. case i of Scalar s \<Rightarrow> Some s | _ \<Rightarrow> None) items
      | _ \<Rightarrow> [])"

definition StringMap :: "node option \<Rightarrow> (string \<rightharpoonup> string) option" where
  "StringMap n =
     (case n of
        Some (Mapping es) \<Rightarrow>
          Some (fold (\<lambda>(k, v) m. case v of Scalar s \<Rightarrow> m(k \<mapsto> s) | _ \<Rightarrow> m) es (\<lambda>_. None))
      | _ \<Rightarrow> None)"

definition Entries :: "node option \<Rightarrow> (string \<times> node) list" where
  "Entries n = (case n of Some (Mapping es) \<Rightarrow> es | _ \<Rightarrow> [])"

definition Items :: "node option \<Rightarrow> node list" where
  "Items n = (case n of Some (Sequence items) \<Rightarrow> items | _ \<Rightarrow> [])"

section \<open>What every parsed tree satisfies\<close>

fun depth :: "node \<Rightarrow> nat" where
  "depth (Scalar s) = 0"
| "depth (Mapping es) = Suc (Max (insert 0 (set (map (\<lambda>(k, v). depth v) es))))"
| "depth (Sequence items) = Suc (Max (insert 0 (set (map depth items))))"

fun keys_distinct :: "node \<Rightarrow> bool" where
  "keys_distinct (Scalar s) = True"
| "keys_distinct (Mapping es) = (distinct (map fst es) \<and> list_all (\<lambda>(k, v). keys_distinct v) es)"
| "keys_distinct (Sequence items) = list_all keys_distinct items"

text \<open>Entries and items, at every level.\<close>

fun weight :: "node \<Rightarrow> nat" where
  "weight (Scalar s) = 0"
| "weight (Mapping es) = sum_list (map (\<lambda>(k, v). Suc (weight v)) es)"
| "weight (Sequence items) = sum_list (map (\<lambda>i. Suc (weight i)) items)"

text \<open>One iteration of each loop, seen from its result.\<close>

lemma mapping_loop_step:
  assumes "mapping_loop block scalar st used skip (line # lines) = Inr r"
  obtains (skip) "0 < skip" "mapping_loop block scalar st (Suc used) (skip - 1) lines = Inr r"
  | (stop) "skip = 0" "r = (Mapping (entries st), used)"
  | (entry) st' key v n where "skip = 0" "map_of (seenKeys st) key = None"
      "seenKeys st' = (key, num line) # seenKeys st" "entries st' = entries st @ [(key, v)]"
      "mapping_loop block scalar st' (Suc used) n lines = Inr r"
      "n = 0 \<and> (\<exists>t. v = Scalar t) \<or> n = 0 \<and> (\<exists>t. scalar t = Inr v) \<or> block lines (indent line) = Inr (v, n)"
proof -
  define st1 where "st1 = (if baseIndent st < 0 then st\<lparr>baseIndent := indent line, minIndent := indent line - 1\<rparr> else st)"
  have st1: "seenKeys st1 = seenKeys st" "entries st1 = entries st" by (simp_all add: st1_def)
  show thesis
  proof (cases "0 < skip \<or> 0 \<le> minIndent st \<and> indent line \<le> minIndent st \<or>
      0 \<le> baseIndent st \<and> indent line \<noteq> baseIndent st")
    case True
    with assms skip stop show thesis by (auto split: if_splits)
  next
    case False
    then have s0: "skip = 0" by simp
    from False assms obtain i where i: "findColon (text_of line) = Some i"
      by (cases "findColon (text_of line)") auto
    define key rest where "key = trim_space (take i (text_of line))" "rest = trim_space (drop (Suc i) (text_of line))"
    define st2 where "st2 = st1\<lparr>seenKeys := (key, num line) # seenKeys st1\<rparr>"
    let ?add = "\<lambda>v. st2\<lparr>entries := entries st2 @ [(key, v)]\<rparr>"
    have st2: "seenKeys (?add v) = (key, num line) # seenKeys st" "entries (?add v) = entries st @ [(key, v)]" for v
      by (simp_all add: st2_def st1)
    have f: "(0 < skip) = False" "(0 \<le> minIndent st \<and> indent line \<le> minIndent st) = False"
      "(0 \<le> baseIndent st \<and> indent line \<noteq> baseIndent st) = False" using False by blast+
    from assms have run: "(case map_of (seenKeys st1) key of
        Some prev \<Rightarrow> Inl (DuplicateKey (num line) key prev)
      | None \<Rightarrow>
          (case literal line of
             Some lit \<Rightarrow> mapping_loop block scalar (?add (Scalar lit)) (Suc used) 0 lines
           | None \<Rightarrow>
               if rest \<noteq> []
               then (case scalar rest of
                       Inl e \<Rightarrow> Inl (AtLine (num line) e)
                     | Inr v \<Rightarrow> mapping_loop block scalar (?add v) (Suc used) 0 lines)
               else if lines = [] \<or> indent (hd lines) \<le> indent line
               then mapping_loop block scalar (?add (Scalar [])) (Suc used) 0 lines
               else (case block lines (indent line) of
                       Inl e \<Rightarrow> Inl e
                     | Inr (child, n) \<Rightarrow> mapping_loop block scalar (?add child) (Suc used) n lines))) = Inr r"
      by (simp only: mapping_loop.simps Let_def f if_False i option.case st1_def key_rest_def st2_def)
    then have new: "map_of (seenKeys st) key = None" by (simp add: st1 split: option.splits)
    note e = entry [OF s0 new st2]
    consider (lit) lit where "literal line = Some lit" | (inline) "literal line = None" "rest \<noteq> []"
      | (empty) "literal line = None" "rest = []" "lines = [] \<or> indent (hd lines) \<le> indent line"
      | (child) "literal line = None" "rest = []" "\<not> (lines = [] \<or> indent (hd lines) \<le> indent line)"
      by (cases "literal line") auto
    then show thesis
    proof cases
      case lit
      with run new show thesis by (intro e) (auto simp: st1)
    next
      case inline
      with run new obtain v where "scalar rest = Inr v" by (cases "scalar rest") (simp_all add: st1)
      with inline run new show thesis by (intro e [where v = v and n = 0]) (auto simp: st1)
    next
      case empty
      with run new show thesis by (intro e [where v = "Scalar []" and n = 0]) (simp_all add: st1)
    next
      case child
      with run new obtain v n where "block lines (indent line) = Inr (v, n)"
        by (cases "block lines (indent line)") (auto simp: st1)
      with child run new show thesis by (intro e [where v = v and n = n]) (simp_all add: st1)
    qed
  qed
qed

lemma sequence_loop_step:
  assumes "sequence_loop block scalar seqIndent items used skip (line # lines) = Inr r"
  obtains (skip) "0 < skip" "sequence_loop block scalar seqIndent items (Suc used) (skip - 1) lines = Inr r"
  | (stop) "skip = 0" "r = (Sequence items, used)"
  | (inline) v where "skip = 0" "sequence_loop block scalar seqIndent (items @ [v]) (Suc used) 0 lines = Inr r"
      "(\<exists>t. v = Scalar t) \<or> (\<exists>t. scalar t = Inr v)"
  | (item) v ls n m where "skip = 0"
      "sequence_loop block scalar seqIndent (items @ [v]) (Suc used) m lines = Inr r"
      "block ls (seqIndent + 2 - 1) = Inr (v, n)" "length ls = Suc m" "Suc m \<le> n"
proof (cases "0 < skip \<or> indent line \<noteq> seqIndent \<or> \<not> has_prefix (text_of line) ''- ''")
  case True
  with assms skip stop show thesis by (auto split: if_splits)
next
  case False
  then have s0: "skip = 0" by simp
  have f: "(0 < skip) = False" "(indent line \<noteq> seqIndent \<or> \<not> has_prefix (text_of line) ''- '') = False"
    using False by blast+
  define t where "t = trim_prefix (text_of line) ''- ''"
  show thesis
  proof (cases "literal line \<noteq> None \<and> \<not> has_prefix t ''- '' \<and> findColon t = None")
    case True
    then have g: "(literal line \<noteq> None \<and> \<not> has_prefix t ''- '' \<and> findColon t = None) = True" by blast
    from assms have "sequence_loop block scalar seqIndent (items @ [Scalar (the (literal line))]) (Suc used) 0 lines = Inr r"
      by (simp only: sequence_loop.simps Let_def f if_False t_def [symmetric] g if_True)
    with s0 show thesis by (intro inline) auto
  next
    case False
    then have g: "(literal line \<noteq> None \<and> \<not> has_prefix t ''- '' \<and> findColon t = None) = False" by blast
    define body where "body = takeWhile (\<lambda>l. seqIndent < indent l) lines"
    define ls where "ls = \<lparr>literal = literal line, text_of = t, indent = seqIndent + 2, num = num line\<rparr> # body"
    from assms have run: "(if body = [] \<and> isInlineSeqItem t
        then (case scalar t of
                Inl e \<Rightarrow> Inl (AtLine (num line) e)
              | Inr item \<Rightarrow> sequence_loop block scalar seqIndent (items @ [item]) (Suc used) 0 lines)
        else (case block ls (seqIndent + 2 - 1) of
                Inl e \<Rightarrow> Inl e
              | Inr (item, n) \<Rightarrow>
                  if n < length ls
                  then Inl (ItemIndent (num (ls ! n)) (text_of (ls ! n)) (num line))
                  else sequence_loop block scalar seqIndent (items @ [item]) (Suc used) (length body) lines)) = Inr r"
      by (simp only: sequence_loop.simps Let_def f if_False t_def [symmetric] g ls_def body_def)
    show thesis
    proof (cases "body = [] \<and> isInlineSeqItem t")
      case True
      with run obtain v where "scalar t = Inr v" by (cases "scalar t") simp_all
      with True run s0 show thesis by (intro inline [of v]) auto
    next
      case False
      with run obtain v n where v: "block ls (seqIndent + 2 - 1) = Inr (v, n)"
        by (cases "block ls (seqIndent + 2 - 1)") auto
      with False run have "\<not> n < length ls"
        "sequence_loop block scalar seqIndent (items @ [v]) (Suc used) (length body) lines = Inr r"
        by (simp_all split: if_splits)
      with s0 v show thesis by (intro item [of v "length body" ls n]) (simp_all add: ls_def)
    qed
  qed
qed

text \<open>
  A property of trees that every construction of the parser keeps, one for inline values and one
  for blocks, both relative to the levels left. Whatever satisfies the laws holds of every parsed
  tree.
\<close>

locale tree_property =
  fixes inline :: "nat \<Rightarrow> node \<Rightarrow> bool" and blockwise :: "nat \<Rightarrow> node \<Rightarrow> bool"
  assumes inline_scalar: "inline (Suc k) (Scalar s)"
    and inline_sequence: "inline (Suc k) (Sequence (map Scalar ss))"
    and inline_mapping: "distinct (map fst es) \<Longrightarrow> \<forall>v \<in> snd ` set es. inline k v \<Longrightarrow> inline (Suc k) (Mapping es)"
    and block_scalar: "blockwise (Suc k) (Scalar s)"
    and block_mapping: "distinct (map fst es) \<Longrightarrow>
      \<forall>v \<in> snd ` set es. inline (Suc k) v \<or> blockwise k v \<Longrightarrow> blockwise (Suc k) (Mapping es)"
    and block_sequence: "\<forall>v \<in> set items. inline (Suc k) v \<or> blockwise k v \<Longrightarrow> blockwise (Suc k) (Sequence items)"
begin

lemma inline_entries_ok:
  assumes "\<And>t v. scalar t = Inr v \<Longrightarrow> P v"
  shows "inline_entries scalar es acc = Inr r \<Longrightarrow> distinct (map fst acc) \<Longrightarrow> \<forall>v \<in> snd ` set acc. P v \<Longrightarrow>
    distinct (map fst r) \<and> (\<forall>v \<in> snd ` set r. P v)"
proof (induction es arbitrary: acc)
  case Nil
  then show ?case by simp
next
  case (Cons e es)
  show ?case
  proof (cases "trim_space e = []")
    case True
    with Cons show ?thesis by simp
  next
    case False
    with Cons.prems(1) obtain i where i: "findColon (trim_space e) = Some i"
      by (cases "findColon (trim_space e)") (auto simp: Let_def)
    let ?key = "unquote (trim_space (take i (trim_space e)))"
    have new: "?key \<notin> fst ` set acc"
      using Cons.prems(1) i False by (cases "?key \<in> fst ` set acc") (simp_all add: Let_def)
    with Cons.prems(1) i False obtain v where v: "scalar (trim_space (drop (Suc i) (trim_space e))) = Inr v"
      by (cases "scalar (trim_space (drop (Suc i) (trim_space e)))") (simp_all add: Let_def)
    with Cons.prems(1) i False new have "inline_entries scalar es (acc @ [(?key, v)]) = Inr r"
      by (simp add: Let_def)
    from Cons.IH [OF this] new assms [OF v] Cons.prems(2,3) show ?thesis by auto
  qed
qed

lemma parseScalar_ok: "parseScalar k s = Inr n \<Longrightarrow> inline k n"
proof (induction k arbitrary: s n)
  case 0
  then show ?case by simp
next
  case (Suc k)
  then consider "n = inline_list (butlast (tl s))" | "parseInlineMap (parseScalar k) (butlast (tl s)) = Inr n"
    | t where "n = Scalar t"
    unfolding parseScalar.simps by (metis sum.inject(2))
  then show ?case
  proof cases
    case 1
    then show ?thesis using inline_sequence [of k "map (\<lambda>t. unquote (trim_space t)) (splitCSV (butlast (tl s)))"]
      by (simp add: inline_list_def comp_def)
  next
    case 2
    then obtain es where "n = Mapping es" "inline_entries (parseScalar k) (splitCSV (butlast (tl s))) [] = Inr es"
      by (auto simp: parseInlineMap_def map_sum_def split: sum.splits)
    with inline_entries_ok [of "parseScalar k" "inline k" "splitCSV (butlast (tl s))" "[]" es] Suc.IH
    show ?thesis using inline_mapping [of es k] by simp
  next
    case 3
    then show ?thesis by (simp add: inline_scalar)
  qed
qed

lemma mapping_loop_ok:
  assumes "\<And>t v. scalar t = Inr v \<Longrightarrow> P v" "\<And>ls m v n. block ls m = Inr (v, n) \<Longrightarrow> P v" "\<And>t. P (Scalar t)"
  shows "mapping_loop block scalar st used skip lines = Inr (r, u) \<Longrightarrow>
    map fst (seenKeys st) = rev (map fst (entries st)) \<Longrightarrow> distinct (map fst (entries st)) \<Longrightarrow>
    \<forall>v \<in> snd ` set (entries st). P v \<Longrightarrow>
    \<exists>es. r = Mapping es \<and> distinct (map fst es) \<and> (\<forall>v \<in> snd ` set es. P v)"
proof (induction lines arbitrary: st used skip)
  case Nil
  then show ?case by auto
next
  case (Cons line lines)
  from Cons.prems(1) show ?case
  proof (cases rule: mapping_loop_step)
    case skip
    then show ?thesis using Cons.IH Cons.prems by blast
  next
    case stop
    then show ?thesis using Cons.prems by simp
  next
    case (entry st' key v n)
    have "key \<notin> fst ` set (entries st)"
      using entry(2) Cons.prems(2) by (metis map_of_eq_None_iff set_map set_rev)
    moreover have "P v" using entry(6) assms by blast
    ultimately show ?thesis
      using Cons.prems(2-4) by (intro Cons.IH [OF entry(5)]) (auto simp: entry(3,4))
  qed
qed

lemma sequence_loop_ok:
  assumes "\<And>t v. scalar t = Inr v \<Longrightarrow> P v" "\<And>ls m v n. block ls m = Inr (v, n) \<Longrightarrow> P v" "\<And>t. P (Scalar t)"
  shows "sequence_loop block scalar seqIndent items used skip lines = Inr (r, u) \<Longrightarrow>
    \<forall>v \<in> set items. P v \<Longrightarrow> \<exists>items'. r = Sequence items' \<and> (\<forall>v \<in> set items'. P v)"
proof (induction lines arbitrary: items used skip)
  case Nil
  then show ?case by auto
next
  case (Cons line lines)
  from Cons.prems(1) show ?case
  proof (cases rule: sequence_loop_step)
    case skip
    then show ?thesis using Cons.IH Cons.prems by blast
  next
    case stop
    then show ?thesis using Cons.prems by simp
  next
    case (inline v)
    then have "P v" using assms by blast
    with Cons.prems(2) show ?thesis by (intro Cons.IH [OF inline(2)]) auto
  next
    case (item v ls n m)
    then have "P v" using assms by blast
    with Cons.prems(2) show ?thesis by (intro Cons.IH [OF item(2)]) auto
  qed
qed

lemma parseBlock_ok: "parseBlock k lines m = Inr (n, used) \<Longrightarrow> blockwise k n"
proof (induction k arbitrary: lines m n used)
  case 0
  then show ?case by simp
next
  case (Suc k)
  let ?P = "\<lambda>v. inline (Suc k) v \<or> blockwise k v"
  have P: "\<And>t v. parseScalar (Suc k) t = Inr v \<Longrightarrow> ?P v" "\<And>ls m v n. parseBlock k ls m = Inr (v, n) \<Longrightarrow> ?P v"
    "\<And>t. ?P (Scalar t)"
    using parseScalar_ok Suc.IH inline_scalar by blast+
  show ?case
  proof (cases lines)
    case Nil
    with Suc.prems show ?thesis by (auto simp: block_scalar)
  next
    case (Cons l ls)
    show ?thesis
    proof (cases "has_prefix (text_of l) ''- ''")
      case True
      with Suc.prems Cons have run: "sequence_loop (parseBlock k) (parseScalar (Suc k)) (indent l) [] 0 0 lines = Inr (n, used)"
        by (simp add: parseSequence_def del: parseScalar.simps)
      have "\<exists>items. n = Sequence items \<and> (\<forall>v \<in> set items. ?P v)"
        by (rule sequence_loop_ok [where P = ?P, OF _ _ _ run]) (use P in \<open>simp_all del: parseScalar.simps\<close>)
      then show ?thesis by (auto intro: block_sequence)
    next
      case False
      with Suc.prems Cons have run: "mapping_loop (parseBlock k) (parseScalar (Suc k))
          \<lparr>entries = [], seenKeys = [], baseIndent = - 1, minIndent = m\<rparr> 0 0 lines = Inr (n, used)"
        by (simp add: parseMapping_def del: parseScalar.simps mapping_loop.simps)
      have "\<exists>es. n = Mapping es \<and> distinct (map fst es) \<and> (\<forall>v \<in> snd ` set es. ?P v)"
        by (rule mapping_loop_ok [where P = ?P, OF _ _ _ run]) (use P in auto)
      then show ?thesis by (auto intro: block_mapping)
    qed
  qed
qed

lemma Parse_ok: "Parse data = Inr n \<Longrightarrow> blockwise (Suc maxParseDepth) n"
  by (auto simp: Parse_def result_bind_eq_Inr split: if_splits simp del: parseBlock.simps dest: parseBlock_ok)

end

interpretation distinct_keys: tree_property "\<lambda>k. keys_distinct" "\<lambda>k. keys_distinct"
  by unfold_locales (auto simp: list_all_iff)

interpretation bounded_depth: tree_property "\<lambda>k n. depth n \<le> k" "\<lambda>k n. depth n \<le> Suc k"
  by unfold_locales (auto simp: Max_le_iff; fastforce)+

section \<open>No line is lost\<close>

lemma mapping_loop_weight:
  assumes "\<And>ls m v n. block ls m = Inr (v, n) \<Longrightarrow> n \<le> weight v"
  shows "mapping_loop block scalar st used skip lines = Inr (r, u) \<Longrightarrow>
    used + skip \<le> weight (Mapping (entries st)) \<Longrightarrow> u \<le> weight r"
proof (induction lines arbitrary: st used skip)
  case Nil
  then show ?case by auto
next
  case (Cons line lines)
  from Cons.prems(1) show ?case
  proof (cases rule: mapping_loop_step)
    case skip
    with Cons.prems(2) show ?thesis by (intro Cons.IH [OF skip(2)]) simp
  next
    case stop
    with Cons.prems(2) show ?thesis by simp
  next
    case (entry st' key v n)
    have "n \<le> weight v" using entry(6) assms by auto
    with Cons.prems(2) entry(1) show ?thesis by (intro Cons.IH [OF entry(5)]) (simp add: entry(4))
  qed
qed

lemma sequence_loop_weight:
  assumes "\<And>ls m v n. block ls m = Inr (v, n) \<Longrightarrow> n \<le> weight v"
  shows "sequence_loop block scalar seqIndent items used skip lines = Inr (r, u) \<Longrightarrow>
    used + skip \<le> weight (Sequence items) \<Longrightarrow> u \<le> weight r"
proof (induction lines arbitrary: items used skip)
  case Nil
  then show ?case by auto
next
  case (Cons line lines)
  from Cons.prems(1) show ?case
  proof (cases rule: sequence_loop_step)
    case skip
    with Cons.prems(2) show ?thesis by (intro Cons.IH [OF skip(2)]) simp
  next
    case stop
    with Cons.prems(2) show ?thesis by simp
  next
    case (inline v)
    with Cons.prems(2) show ?thesis by (intro Cons.IH [OF inline(2)]) simp
  next
    case (item v ls n m)
    then have "m \<le> weight v" using assms [OF item(3)] by simp
    with Cons.prems(2) item(1) show ?thesis by (intro Cons.IH [OF item(2)]) simp
  qed
qed

lemma parseBlock_weight: "parseBlock k lines m = Inr (n, used) \<Longrightarrow> used \<le> weight n"
proof (induction k arbitrary: lines m n used)
  case 0
  then show ?case by simp
next
  case (Suc k)
  show ?case
  proof (cases lines)
    case Nil
    with Suc.prems show ?thesis by auto
  next
    case (Cons l ls)
    show ?thesis
    proof (cases "has_prefix (text_of l) ''- ''")
      case True
      with Suc.prems Cons have run: "sequence_loop (parseBlock k) (parseScalar (Suc k)) (indent l) [] 0 0 lines = Inr (n, used)"
        by (simp add: parseSequence_def del: parseScalar.simps)
      show ?thesis by (rule sequence_loop_weight [OF _ run]) (use Suc.IH in auto)
    next
      case False
      with Suc.prems Cons have run: "mapping_loop (parseBlock k) (parseScalar (Suc k))
          \<lparr>entries = [], seenKeys = [], baseIndent = - 1, minIndent = m\<rparr> 0 0 lines = Inr (n, used)"
        by (simp add: parseMapping_def del: parseScalar.simps mapping_loop.simps)
      show ?thesis by (rule mapping_loop_weight [OF _ run]) (use Suc.IH in auto)
    qed
  qed
qed

section \<open>Printing a tree\<close>

fun escape :: "string \<Rightarrow> string" where
  "escape [] = []"
| "escape (c # s) =
     (if c = CHR 0x5C \<or> c = CHR 0x22 then [CHR 0x5C, c]
      else if c = newline then [CHR 0x5C, CHR ''n'']
      else if c = tab then [CHR 0x5C, CHR ''t'']
      else if c = carriage_return then [CHR 0x5C, CHR ''r'']
      else [c]) @ escape s"

definition quote :: "string \<Rightarrow> string" where
  "quote s = CHR 0x22 # escape s @ [CHR 0x22]"

fun is_scalar :: "node \<Rightarrow> bool" where
  "is_scalar (Scalar s) = True"
| "is_scalar _ = False"

definition as_item :: "nat \<Rightarrow> (nat \<times> string) list \<Rightarrow> (nat \<times> string) list" where
  "as_item ind ls = (case ls of [] \<Rightarrow> [] | (i, t) # rest \<Rightarrow> (ind, ''- '' @ t) # rest)"

text \<open>Lines of a tree, each with its indentation.\<close>

fun render :: "nat \<Rightarrow> node \<Rightarrow> (nat \<times> string) list" where
  "render ind (Scalar s) = [(ind, quote s)]"
| "render ind (Mapping es) =
     concat (map (\<lambda>(k, v). if is_scalar v then map (\<lambda>(i, t). (ind, k @ '': '' @ t)) (render ind v)
                          else (ind, k @ '':'') # render (ind + 2) v) es)"
| "render ind (Sequence items) = concat (map (\<lambda>i. as_item ind (render (ind + 2) i)) items)"

definition key_char :: "char \<Rightarrow> bool" where
  "key_char c = (is_lower c \<or> is_upper c \<or> is_digit c \<or> c \<in> {CHR ''_'', CHR ''-'', CHR ''.''})"

definition key_ok :: "string \<Rightarrow> bool" where
  "key_ok k = (k \<noteq> [] \<and> hd k \<noteq> CHR ''-'' \<and> list_all key_char k)"

fun renderable :: "node \<Rightarrow> bool" where
  "renderable (Scalar s) = True"
| "renderable (Mapping es) =
     (es \<noteq> [] \<and> distinct (map fst es) \<and> list_all (\<lambda>(k, v). key_ok k \<and> renderable v) es)"
| "renderable (Sequence items) = (items \<noteq> [] \<and> list_all renderable items)"

fun item_scalars_ok :: "node \<Rightarrow> bool" where
  "item_scalars_ok (Scalar s) = True"
| "item_scalars_ok (Mapping es) = list_all (\<lambda>(k, v). item_scalars_ok v) es"
| "item_scalars_ok (Sequence items) =
     list_all (\<lambda>i. item_scalars_ok i \<and> (case i of Scalar s \<Rightarrow> blockIndicator (quote s) = None | _ \<Rightarrow> True)) items"

fun number :: "nat \<Rightarrow> (nat \<times> string) list \<Rightarrow> rawLine list" where
  "number j [] = []"
| "number j ((i, t) # ls) = \<lparr>literal = None, text_of = t, indent = int i, num = j\<rparr> # number (Suc j) ls"

lemma unescape_escape: "unescapeDouble (escape s) = s"
proof (induction s)
  case Nil
  then show ?case by simp
next
  case (Cons c s)
  have plain: "unescapeDouble (c # t) = c # unescapeDouble t" if "c \<noteq> CHR 0x5C" for t
    using that by (cases t) simp_all
  show ?case using Cons plain by (auto simp: control_chars)
qed

lemma quote_ends [simp]: "quote s \<noteq> []" "hd (quote s) = CHR 0x22" "last (quote s) = CHR 0x22" "2 \<le> length (quote s)"
  by (simp_all add: quote_def)

lemma unquote_quote: "unquote (quote s) = s"
  by (simp add: unquote_def quote_def unescape_escape butlast_append)

lemma quote_char: "ascii_text CHR 0x22"
  by (simp add: ascii_text_def space1_def)

lemma trim_quote: "trim_space (quote s) = quote s"
  by (simp add: trim_space_ascii quote_char)

lemma key_char_ascii: "key_char c \<Longrightarrow> ascii_text c \<and> c \<noteq> CHR '':'' \<and> c \<noteq> CHR '' '' \<and> c \<noteq> CHR ''#'' \<and>
    c \<noteq> CHR 0x22 \<and> c \<noteq> CHR 0x27 \<and> c \<noteq> CHR 0x5C \<and> c \<noteq> CHR ''{'' \<and> c \<noteq> CHR ''['' \<and> c \<noteq> newline \<and> c \<noteq> carriage_return"
  by (auto simp: key_char_def ascii_text_def space1_def is_digit_def is_lower_def is_upper_def less_eq_char_def control_chars)

lemma key_okD:
  assumes "key_ok k"
  shows "k \<noteq> []" "CHR '':'' \<notin> set k" "ascii_text (hd k)" "ascii_text (last k)" "trim_space k = k"
    "hd k \<noteq> CHR ''-''" "hd k \<noteq> CHR 0x22" "hd k \<noteq> CHR 0x27" "hd k \<noteq> CHR ''{''"
proof -
  from assms have k: "k \<noteq> []" "\<And>c. c \<in> set k \<Longrightarrow> key_char c" "hd k \<noteq> CHR ''-''"
    by (auto simp: key_ok_def list_all_iff)
  show "k \<noteq> []" "hd k \<noteq> CHR ''-''" by (rule k)+
  show "CHR '':'' \<notin> set k" using k(2) key_char_ascii by blast
  have "hd k \<in> set k" "last k \<in> set k" using k(1) by simp_all
  then show h: "ascii_text (hd k)" "ascii_text (last k)" "hd k \<noteq> CHR 0x22" "hd k \<noteq> CHR 0x27" "hd k \<noteq> CHR ''{''"
    using k(2) key_char_ascii by blast+
  show "trim_space k = k" by (rule trim_space_ascii [OF k(1) h(1,2)])
qed

lemma findColon_key: "CHR '':'' \<notin> set k \<Longrightarrow> s = [] \<or> hd s = CHR '' '' \<Longrightarrow> findColon (k @ CHR '':'' # s) = Some (length k)"
  by (induction k) auto

lemma parseScalar_quote: "parseScalar (Suc k) (quote s) = Inr (Scalar s)"
  by (simp add: trim_quote unquote_quote has_prefix_def quote_def del: append_Cons)
    (simp add: quote_def [symmetric] trim_quote unquote_quote)

lemma number_append: "number j (xs @ ys) = number j xs @ number (j + length xs) ys"
  by (induction j xs rule: number.induct) auto

lemma length_number [simp]: "length (number j xs) = length xs"
  by (induction j xs rule: number.induct) auto

lemma indent_number: "l \<in> set (number j ls) \<Longrightarrow> \<exists>p \<in> set ls. indent l = int (fst p)"
  by (induction j ls rule: number.induct) auto

lemma mapping_skip:
  "mapping_loop block scalar st used (length xs) (xs @ ys) = mapping_loop block scalar st (used + length xs) 0 ys"
  by (induction xs arbitrary: used) auto

lemma sequence_skip:
  "sequence_loop block scalar i items used (length xs) (xs @ ys) =
   sequence_loop block scalar i items (used + length xs) 0 ys"
  by (induction xs arbitrary: used) auto

text \<open>The first line of a block, and the indentation of the others.\<close>

lemma as_item_mem: "(i, t) \<in> set (as_item ind ls) \<Longrightarrow> i = ind \<or> (i, t) \<in> set ls"
  by (auto simp: as_item_def split: list.splits)

lemma render_indent: "(i, t) \<in> set (render ind n) \<Longrightarrow> ind \<le> i"
proof (induction ind n arbitrary: i t rule: render.induct)
  case (2 ind es)
  then show ?case by (force split: if_splits)
next
  case (3 ind items)
  then obtain x where x: "x \<in> set items" "(i, t) \<in> set (as_item ind (render (ind + 2) x))" by auto
  with as_item_mem [OF x(2)] "3.IH" [OF x(1)] show ?case by fastforce
qed simp

lemma render_mapping_head:
  assumes "renderable (Mapping es)"
  obtains k t rest where "render ind (Mapping es) = (ind, k @ CHR '':'' # t) # rest" "key_ok k" "t = [] \<or> hd t = CHR '' ''"
proof -
  from assms obtain k v es' where es: "es = (k, v) # es'" "key_ok k" by (cases es) auto
  show thesis
  proof (cases v)
    case (Scalar s)
    with es show thesis by (intro that [of k "CHR '' '' # quote s"]) simp_all
  qed (use es in \<open>(intro that [of k "[]"], simp_all)+\<close>)
qed

lemma render_nonempty: "renderable n \<Longrightarrow> render ind n \<noteq> []"
proof (induction ind n rule: render.induct)
  case (2 ind es)
  then show ?case using render_mapping_head [of es ind] by (metis list.distinct(1))
next
  case (3 ind items)
  then obtain i more where i: "items = i # more" "renderable i" by (cases items) auto
  then have "render (ind + 2) i \<noteq> []" using "3.IH" [of i] by simp
  with i show ?case by (simp add: as_item_def split: list.splits)
qed simp

lemma render_head:
  assumes "renderable n"
  obtains t rest where "render ind n = (ind, t) # rest"
    "\<not> is_scalar n \<Longrightarrow> \<not> isInlineSeqItem t"
    "(\<exists>items. n = Sequence items) \<Longrightarrow> has_prefix t ''- ''"
    "(\<exists>es. n = Mapping es) \<Longrightarrow> \<not> has_prefix t ''- ''"
proof (cases n)
  case (Scalar s)
  then show thesis by (intro that) simp_all
next
  case (Mapping es)
  with assms have r: "renderable (Mapping es)" by simp
  obtain k t rest where m: "render ind (Mapping es) = (ind, k @ CHR '':'' # t) # rest" "key_ok k" "t = [] \<or> hd t = CHR '' ''"
    using render_mapping_head [OF r] by blast
  note k = key_okD [OF m(2)]
  have np: "\<not> has_prefix (k @ CHR '':'' # t) ''- ''" using k(1,6) by (cases k) (simp_all add: has_prefix_def)
  moreover have "\<not> isInlineSeqItem (k @ CHR '':'' # t)"
    using np k(1,7,8,9) findColon_key [OF k(2) m(3)]
    by (cases k) (simp_all add: isInlineSeqItem_def has_prefix_def)
  ultimately show thesis using m(1) Mapping by (intro that) auto
next
  case (Sequence items)
  with assms obtain i more where i: "items = i # more" "renderable i" by (cases items) auto
  then obtain p rest where "render (ind + 2) i = p # rest" using render_nonempty by (meson neq_Nil_conv)
  with i Sequence show thesis
    by (intro that [of "''- '' @ snd p" "rest @ concat (map (\<lambda>i. as_item ind (render (ind + 2) i)) more)"])
       (auto simp: as_item_def isInlineSeqItem_def has_prefix_def split: prod.splits)
qed

lemma render_first:
  assumes "renderable n" shows "\<exists>t rest. render ind n = (ind, t) # rest"
  by (rule render_head [OF assms, of ind]) simp

lemma render_first_line:
  assumes "renderable n" "render ind n = (i, t) # rest" "\<not> is_scalar n"
  shows "\<not> isInlineSeqItem t" "has_prefix t ''- '' \<longleftrightarrow> (\<exists>items. n = Sequence items)"
proof -
  have "\<not> isInlineSeqItem t \<and> (has_prefix t ''- '' \<longleftrightarrow> (\<exists>items. n = Sequence items))"
    by (rule render_head [OF assms(1), of ind]) (use assms(2,3) in \<open>cases n; simp\<close>)
  then show "\<not> isInlineSeqItem t" "has_prefix t ''- '' \<longleftrightarrow> (\<exists>items. n = Sequence items)" by simp_all
qed

definition outside :: "nat \<Rightarrow> rawLine list \<Rightarrow> bool" where
  "outside ind rest = (rest = [] \<or> indent (hd rest) < int ind)"

definition entry_lines :: "nat \<Rightarrow> (string \<times> node) list \<Rightarrow> (nat \<times> string) list" where
  "entry_lines ind es = render ind (Mapping es)"

lemma entry_lines_simps:
  "entry_lines ind [] = []"
  "entry_lines ind ((k, Scalar s) # es) = (ind, k @ '': '' @ quote s) # entry_lines ind es"
  "\<not> is_scalar v \<Longrightarrow> entry_lines ind ((k, v) # es) = (ind, k @ '':'') # render (ind + 2) v @ entry_lines ind es"
  by (simp_all add: entry_lines_def)

lemma entry_lines_head:
  assumes "list_all (\<lambda>(k, v). key_ok k \<and> renderable v) es" "outside ind rest"
  shows "outside (ind + 2) (number j (entry_lines ind es) @ rest)"
proof (cases es)
  case Nil
  with assms(2) show ?thesis by (auto simp: entry_lines_simps outside_def)
next
  case (Cons e es')
  then show ?thesis
    by (cases e; cases "snd e") (simp_all add: entry_lines_def outside_def)
qed

definition add_entry :: "int \<Rightarrow> nat \<Rightarrow> string \<Rightarrow> node \<Rightarrow> mapping_state \<Rightarrow> mapping_state" where
  "add_entry d j key v st =
     (let st1 = (if baseIndent st < 0 then st\<lparr>baseIndent := d, minIndent := d - 1\<rparr> else st)
      in st1\<lparr>seenKeys := (key, j) # seenKeys st1, entries := entries st1 @ [(key, v)]\<rparr>)"

lemma mapping_loop_inline:
  assumes "\<not> (0 \<le> minIndent st \<and> d \<le> minIndent st)" "\<not> (0 \<le> baseIndent st \<and> d \<noteq> baseIndent st)"
    "findColon t = Some i" "trim_space (take i t) = key" "map_of (seenKeys st) key = None"
    "trim_space (drop (Suc i) t) = r" "r \<noteq> []" "scalar r = Inr v"
  shows "mapping_loop block scalar st used 0 (\<lparr>literal = None, text_of = t, indent = d, num = j\<rparr> # lines) =
    mapping_loop block scalar (add_entry d j key v st) (Suc used) 0 lines"
  using assms by (auto simp: add_entry_def Let_def)

lemma mapping_loop_child:
  assumes "\<not> (0 \<le> minIndent st \<and> d \<le> minIndent st)" "\<not> (0 \<le> baseIndent st \<and> d \<noteq> baseIndent st)"
    "findColon t = Some i" "trim_space (take i t) = key" "map_of (seenKeys st) key = None"
    "trim_space (drop (Suc i) t) = []" "lines \<noteq> []" "d < indent (hd lines)" "block lines d = Inr (v, n)"
  shows "mapping_loop block scalar st used 0 (\<lparr>literal = None, text_of = t, indent = d, num = j\<rparr> # lines) =
    mapping_loop block scalar (add_entry d j key v st) (Suc used) n lines"
  using assms by (auto simp: add_entry_def Let_def)

lemma trim_space_quote: "trim_space (CHR '' '' # quote s) = quote s"
proof -
  have "trim_space_left (CHR '' '' # t) = trim_space_left t" for t
    by (cases t rule: remdups_adj.cases) (simp_all add: space1_def)
  then show ?thesis using trim_quote by (simp add: trim_space_def)
qed

lemma mapping_loop_render:
  assumes sc: "\<And>s. scalar (quote s) = Inr (Scalar s)"
    and child: "\<And>v j rest. v \<in> snd ` set es \<Longrightarrow> \<not> is_scalar v \<Longrightarrow> outside (ind + 2) rest \<Longrightarrow>
      block (number j (render (ind + 2) v) @ rest) (int ind) = Inr (v, length (render (ind + 2) v))"
    and es: "list_all (\<lambda>(k, v). key_ok k \<and> renderable v) es" "distinct (map fst es)"
      "\<forall>k \<in> fst ` set es. map_of (seenKeys st) k = None"
    and st: "baseIndent st = int ind \<and> minIndent st = int ind - 1 \<or>
      baseIndent st = - 1 \<and> minIndent st < int ind \<and> es \<noteq> []"
    and rest: "outside ind rest"
  shows "mapping_loop block scalar st used 0 (number j (entry_lines ind es) @ rest) =
    Inr (Mapping (entries st @ es), used + length (entry_lines ind es))"
  using child es st
proof (induction es arbitrary: st used j)
  case Nil
  then show ?case using rest by (cases rest) (auto simp: entry_lines_simps outside_def)
next
  case (Cons e es)
  obtain k v where e: "e = (k, v)" by fastforce
  from Cons.prems(2) e have k: "key_ok k" "renderable v" by auto
  note kd = key_okD [OF k(1)]
  let ?st = "add_entry (int ind) j k v st"
  have base: "baseIndent ?st = int ind" "minIndent ?st = int ind - 1" "entries ?st = entries st @ [(k, v)]"
    "seenKeys ?st = (k, j) # seenKeys st"
    using Cons.prems(5) by (auto simp: add_entry_def Let_def)
  have new: "map_of (seenKeys st) k = None" using Cons.prems(4) e by simp
  have go: "\<not> (0 \<le> minIndent st \<and> int ind \<le> minIndent st)" "\<not> (0 \<le> baseIndent st \<and> int ind \<noteq> baseIndent st)"
    using Cons.prems(5) by auto
  have IH: "mapping_loop block scalar ?st used' 0 (number j' (entry_lines ind es) @ rest) =
      Inr (Mapping (entries ?st @ es), used' + length (entry_lines ind es))" for used' j'
    using Cons.prems(1-4) e base by (intro Cons.IH) (auto simp: image_iff)
  have tk: "trim_space (take (length k) (k @ t)) = k" for t using kd(5) by simp
  show ?case
  proof (cases "is_scalar v")
    case True
    then obtain s where v: "v = Scalar s" by (cases v) auto
    have fc: "findColon (k @ CHR '':'' # CHR '' '' # quote s) = Some (length k)" using kd(2) by (simp add: findColon_key)
    have r: "trim_space (drop (Suc (length k)) (k @ CHR '':'' # CHR '' '' # quote s)) = quote s"
      using trim_space_quote by simp
    have "mapping_loop block scalar st used 0
          (\<lparr>literal = None, text_of = k @ CHR '':'' # CHR '' '' # quote s, indent = int ind, num = j\<rparr> # ls) =
        mapping_loop block scalar ?st (Suc used) 0 ls" for ls
      unfolding v by (rule mapping_loop_inline [where scalar = scalar and r = "quote s", OF go fc tk [of "CHR '':'' # CHR '' '' # quote s"] new r quote_ends(1) sc [of s]])
    then show ?thesis using IH [of "Suc used" "Suc j"] base(3) by (simp add: e v entry_lines_simps)
  next
    case False
    let ?more = "number (Suc j + length (render (ind + 2) v)) (entry_lines ind es) @ rest"
    let ?lines = "number (Suc j) (render (ind + 2) v) @ ?more"
    have fc: "findColon (k @ '':'') = Some (length k)" using kd(2) by (simp add: findColon_key)
    have r: "trim_space (drop (Suc (length k)) (k @ '':'')) = []" by (simp add: trim_space_def)
    obtain t rs where h: "render (ind + 2) v = (ind + 2, t) # rs" using render_first [OF k(2)] by blast
    have b: "block ?lines (int ind) = Inr (v, length (render (ind + 2) v))"
      using Cons.prems(1,2) e False entry_lines_head [OF _ rest, of es] by (intro Cons.prems(1)) auto
    have "mapping_loop block scalar st used 0 (\<lparr>literal = None, text_of = k @ '':'', indent = int ind, num = j\<rparr> # ?lines) =
        mapping_loop block scalar ?st (Suc used) (length (render (ind + 2) v)) ?lines"
      by (rule mapping_loop_child [where block = block and lines = ?lines, OF go fc tk [of "'':''"] new r _ _ b]) (unfold h, simp_all)
    also have "\<dots> = mapping_loop block scalar ?st (Suc used + length (render (ind + 2) v)) 0 ?more"
      using mapping_skip [of block scalar ?st "Suc used" "number (Suc j) (render (ind + 2) v)" ?more] by simp
    finally show ?thesis
      using IH base(3) False by (simp add: e entry_lines_simps number_append)
  qed
qed

definition item_lines :: "nat \<Rightarrow> node list \<Rightarrow> (nat \<times> string) list" where
  "item_lines ind items = render ind (Sequence items)"

lemma item_lines_simps:
  "item_lines ind [] = []"
  "render (ind + 2) i = (d, t) # rest \<Longrightarrow> item_lines ind (i # items) = (ind, ''- '' @ t) # rest @ item_lines ind items"
  by (simp_all add: item_lines_def as_item_def)

lemma item_lines_head:
  assumes "list_all renderable items" "outside ind rest"
  shows "number j (item_lines ind items) @ rest = [] \<or> indent (hd (number j (item_lines ind items) @ rest)) \<le> int ind"
proof (cases items)
  case Nil
  with assms(2) show ?thesis by (auto simp: item_lines_simps outside_def)
next
  case (Cons i more)
  then obtain t ls where "render (ind + 2) i = (ind + 2, t) # ls" using render_first assms(1) by fastforce
  with Cons show ?thesis by (simp add: item_lines_simps)
qed

lemma sequence_loop_inline:
  assumes "has_prefix (''- '' @ t) ''- ''" "takeWhile (\<lambda>l. d < indent l) lines = []" "isInlineSeqItem t" "scalar t = Inr v"
  shows "sequence_loop block scalar d items used 0 (\<lparr>literal = None, text_of = ''- '' @ t, indent = d, num = j\<rparr> # lines) =
    sequence_loop block scalar d (items @ [v]) (Suc used) 0 lines"
  using assms by (simp add: Let_def trim_prefix_def)

lemma sequence_loop_block:
  assumes "takeWhile (\<lambda>l. d < indent l) lines = body" "\<not> isInlineSeqItem t"
    "block (\<lparr>literal = None, text_of = t, indent = d + 2, num = j\<rparr> # body) (d + 2 - 1) = Inr (v, Suc (length body))"
  shows "sequence_loop block scalar d items used 0 (\<lparr>literal = None, text_of = ''- '' @ t, indent = d, num = j\<rparr> # lines) =
    sequence_loop block scalar d (items @ [v]) (Suc used) (length body) lines"
proof -
  have p: "has_prefix (''- '' @ t) ''- ''" "trim_prefix (''- '' @ t) ''- '' = t"
    by (simp_all add: has_prefix_def trim_prefix_def)
  show ?thesis
    unfolding sequence_loop.simps Let_def rawLine.simps p assms(1) using assms(2,3) p(1) by simp
qed

lemma takeWhile_body:
  assumes "\<And>l. l \<in> set xs \<Longrightarrow> d < indent l" "ys = [] \<or> indent (hd ys) \<le> d"
  shows "takeWhile (\<lambda>l. d < indent l) (xs @ ys) = xs"
proof -
  have "takeWhile (\<lambda>l. d < indent l) ys = []" using assms(2) by (cases ys) auto
  with assms(1) show ?thesis by simp
qed

lemma quote_inline: "isInlineSeqItem (quote s)"
  by (simp add: isInlineSeqItem_def) (simp add: quote_def has_prefix_def)

lemma sequence_loop_render:
  assumes sc: "\<And>s. scalar (quote s) = Inr (Scalar s)"
    and child: "\<And>v j. v \<in> set items \<Longrightarrow> \<not> is_scalar v \<Longrightarrow>
      block (number j (render (ind + 2) v)) (int ind + 2 - 1) = Inr (v, length (render (ind + 2) v))"
    and items: "list_all renderable items" and rest: "outside ind rest"
  shows "sequence_loop block scalar (int ind) acc used 0 (number j (item_lines ind items) @ rest) =
    Inr (Sequence (acc @ items), used + length (item_lines ind items))"
  using child items
proof (induction items arbitrary: acc used j)
  case Nil
  then show ?case using rest by (cases rest) (auto simp: item_lines_simps outside_def)
next
  case (Cons i items)
  then have i: "renderable i" "list_all renderable items" by simp_all
  obtain t ls where h: "render (ind + 2) i = (ind + 2, t) # ls" using render_first [OF i(1)] by blast
  let ?more = "number (Suc j + length ls) (item_lines ind items) @ rest"
  let ?lines = "number (Suc j) ls @ ?more"
  have lines: "number j (item_lines ind (i # items)) @ rest =
      \<lparr>literal = None, text_of = ''- '' @ t, indent = int ind, num = j\<rparr> # ?lines"
    by (simp add: item_lines_simps(2) [OF h] number_append)
  have len: "length (item_lines ind (i # items)) = Suc (length ls + length (item_lines ind items))"
    by (simp add: item_lines_simps(2) [OF h])
  have deep: "int ind < indent l" if "l \<in> set (number (Suc j) ls)" for l
  proof -
    from indent_number [OF that] obtain p where p: "p \<in> set ls" "indent l = int (fst p)" by blast
    then have "ind + 2 \<le> fst p" using render_indent [of "fst p" "snd p" "ind + 2" i] h by simp
    with p(2) show ?thesis by simp
  qed
  have body: "takeWhile (\<lambda>l. int ind < indent l) ?lines = number (Suc j) ls"
    by (rule takeWhile_body [OF deep item_lines_head [OF i(2) rest]])
  have IH: "sequence_loop block scalar (int ind) (acc @ [i]) used' 0 ?more =
      Inr (Sequence ((acc @ [i]) @ items), used' + length (item_lines ind items))" for used'
    using Cons.prems(1) i(2) by (intro Cons.IH) auto
  show ?case
  proof (cases "is_scalar i")
    case True
    then obtain s where s: "i = Scalar s" by (cases i) auto
    with h have t: "t = quote s" "ls = []" by simp_all
    have "sequence_loop block scalar (int ind) acc used 0
        (\<lparr>literal = None, text_of = ''- '' @ t, indent = int ind, num = j\<rparr> # ?lines) =
        sequence_loop block scalar (int ind) (acc @ [i]) (Suc used) 0 ?lines"
      using body sc [of s] by (intro sequence_loop_inline) (simp_all add: t s quote_inline has_prefix_def)
    with IH [of "Suc used"] t(2) show ?thesis unfolding lines len by simp
  next
    case False
    have nlines: "number j (render (ind + 2) i) =
        \<lparr>literal = None, text_of = t, indent = int ind + 2, num = j\<rparr> # number (Suc j) ls"
      unfolding h by simp
    have "block (number j (render (ind + 2) i)) (int ind + 2 - 1) = Inr (i, length (render (ind + 2) i))"
      using Cons.prems(1) False by simp
    then have b: "block (\<lparr>literal = None, text_of = t, indent = int ind + 2, num = j\<rparr> # number (Suc j) ls)
        (int ind + 2 - 1) = Inr (i, Suc (length (number (Suc j) ls)))"
      by (simp only: nlines) (simp only: h list.size length_number add_Suc_right add_0_right)
    have "sequence_loop block scalar (int ind) acc used 0
        (\<lparr>literal = None, text_of = ''- '' @ t, indent = int ind, num = j\<rparr> # ?lines) =
        sequence_loop block scalar (int ind) (acc @ [i]) (Suc used) (length (number (Suc j) ls)) ?lines"
      by (rule sequence_loop_block [where block = block, OF body render_first_line(1) [OF i(1) h False] b])
    also have "\<dots> = sequence_loop block scalar (int ind) (acc @ [i]) (Suc used + length (number (Suc j) ls)) 0 ?more"
      by (rule sequence_skip)
    finally show ?thesis unfolding lines len IH by simp
  qed
qed

text \<open>
  The lines of a tree parse to the tree, whatever follows them with a smaller indentation.
\<close>

lemma parseBlock_render:
  "renderable n \<Longrightarrow> \<not> is_scalar n \<Longrightarrow> depth n \<le> Suc k \<Longrightarrow> m < int ind \<Longrightarrow> outside ind rest \<Longrightarrow>
   parseBlock (Suc k) (number j (render ind n) @ rest) m = Inr (n, length (render ind n))"
proof (induction k arbitrary: n ind m rest j rule: less_induct)
  case (less k)
  have sc: "parseScalar (Suc k) (quote s) = Inr (Scalar s)" for s by (rule parseScalar_quote)
  have child: "parseBlock k (number j (render (ind + 2) v) @ rest') m' = Inr (v, length (render (ind + 2) v))"
    if "renderable v" "\<not> is_scalar v" "depth v \<le> k" "m' < int (ind + 2)" "outside (ind + 2) rest'" for v j rest' m'
  proof -
    from that(2,3) obtain k' where k': "k = Suc k'" by (cases k; cases v) auto
    have "parseBlock (Suc k') (number j (render (ind + 2) v) @ rest') m' = Inr (v, length (render (ind + 2) v))"
      by (rule less.IH) (use that k' in simp_all)
    then show ?thesis by (simp only: k')
  qed
  obtain t ls where h: "render ind n = (ind, t) # ls" using render_first [OF less.prems(1)] by blast
  have blk: "parseBlock (Suc k) (number j (render ind n) @ rest) m =
    (if has_prefix t ''- '' then parseSequence (parseBlock k) (parseScalar (Suc k)) (number j (render ind n) @ rest) (int ind)
     else parseMapping (parseBlock k) (parseScalar (Suc k)) (number j (render ind n) @ rest) m)"
    by (simp add: h del: parseScalar.simps)
  show ?case
  proof (cases n)
    case (Scalar s)
    with less.prems show ?thesis by simp
  next
    case (Mapping es)
    with less.prems have es: "list_all (\<lambda>(k, v). key_ok k \<and> renderable v) es" "distinct (map fst es)" "es \<noteq> []"
      "\<And>v. v \<in> snd ` set es \<Longrightarrow> depth v \<le> k" by auto
    have "\<not> has_prefix t ''- ''" using render_first_line(2) [OF less.prems(1) h less.prems(2)] Mapping by simp
    then have eq: "parseBlock (Suc k) (number j (render ind n) @ rest) m =
        mapping_loop (parseBlock k) (parseScalar (Suc k)) \<lparr>entries = [], seenKeys = [], baseIndent = - 1, minIndent = m\<rparr>
          0 0 (number j (entry_lines ind es) @ rest)"
      unfolding blk by (simp add: parseMapping_def Mapping entry_lines_def del: parseScalar.simps)
    have ch: "parseBlock k (number j (render (ind + 2) v) @ rest') (int ind) = Inr (v, length (render (ind + 2) v))"
      if "v \<in> snd ` set es" "\<not> is_scalar v" "outside (ind + 2) rest'" for v j rest'
      by (rule child) (use that es in \<open>auto simp: list_all_iff\<close>)
    note eq
    also have "mapping_loop (parseBlock k) (parseScalar (Suc k)) \<lparr>entries = [], seenKeys = [], baseIndent = - 1, minIndent = m\<rparr>
          0 0 (number j (entry_lines ind es) @ rest) = Inr (Mapping ([] @ es), 0 + length (entry_lines ind es))"
      using sc es less.prems(4,5) ch
      by (subst mapping_loop_render) (auto simp: list_all_iff simp del: parseScalar.simps)
    finally show ?thesis using Mapping by (simp add: entry_lines_def)
  next
    case (Sequence items)
    with less.prems have items: "list_all renderable items" "\<And>v. v \<in> set items \<Longrightarrow> depth v \<le> k" by auto
    have "has_prefix t ''- ''" using render_first_line(2) [OF less.prems(1) h less.prems(2)] Sequence by simp
    then have eq: "parseBlock (Suc k) (number j (render ind n) @ rest) m =
        sequence_loop (parseBlock k) (parseScalar (Suc k)) (int ind) [] 0 0 (number j (item_lines ind items) @ rest)"
      unfolding blk by (simp add: parseSequence_def Sequence item_lines_def del: parseScalar.simps)
    have ch: "parseBlock k (number j (render (ind + 2) v)) (int ind + 2 - 1) = Inr (v, length (render (ind + 2) v))"
      if "v \<in> set items" "\<not> is_scalar v" for v j
      using child [of v _ "[]"] that items by (auto simp: list_all_iff outside_def)
    note eq
    also have "sequence_loop (parseBlock k) (parseScalar (Suc k)) (int ind) [] 0 0 (number j (item_lines ind items) @ rest) =
        Inr (Sequence ([] @ items), 0 + length (item_lines ind items))"
      using sc items less.prems(5) ch
      by (subst sequence_loop_render) (auto simp: list_all_iff outside_def simp del: parseScalar.simps)
    finally show ?thesis using Sequence by (simp add: item_lines_def)
  qed
qed

section \<open>Printed text\<close>

definition raw_line :: "nat \<times> string \<Rightarrow> string" where
  "raw_line p = replicate (fst p) (CHR '' '') @ snd p"

definition render_text :: "node \<Rightarrow> string" where
  "render_text n = join newline_str (map raw_line (render 0 n))"

abbreviation unquoted :: quoting where
  "unquoted \<equiv> \<lparr>inSingle = False, inDouble = False, escaped = False\<rparr>"

definition line_ok :: "string \<Rightarrow> bool" where
  "line_ok t = (t \<noteq> [] \<and> ascii_text (hd t) \<and> ascii_text (last t) \<and> hd t \<noteq> CHR ''#'' \<and>
     (\<forall>pre. strip_comment_from unquoted pre t = pre @ t) \<and> blockIndicator t = None \<and>
     newline \<notin> set t \<and> carriage_return \<notin> set t)"

lemma trim_space_left_spaces: "trim_space_left (replicate i (CHR '' '') @ t) = trim_space_left t"
proof (induction i)
  case (Suc i)
  have "trim_space_left (CHR '' '' # t) = trim_space_left t" for t
    by (cases t rule: remdups_adj.cases) (simp_all add: space1_def)
  with Suc show ?case by simp
qed simp

lemma ascii_text_facts: "ascii_text c \<Longrightarrow> c \<noteq> CHR '' '' \<and> c \<noteq> tab \<and> c \<noteq> carriage_return \<and> c \<noteq> newline \<and> c \<noteq> CHR 0xEF"
proof -
  assume "ascii_text c"
  then have n: "(of_char c :: nat) < 128" "\<not> space1 c" by (simp_all add: ascii_text_def)
  have "c \<noteq> CHR 0xEF" using n(1) by auto
  with n(2) show ?thesis by (simp add: space1_def control_chars)
qed

lemma split_raw_line:
  assumes "line_ok t"
  shows "split_raw j 0 (raw_line (i, t) # raw) =
    map_sum id (\<lambda>ls. \<lparr>literal = None, text_of = t, indent = int i, num = j\<rparr> # ls) (split_raw (Suc j) 0 raw)"
proof -
  from assms have t: "t \<noteq> []" "ascii_text (hd t)" "ascii_text (last t)" "hd t \<noteq> CHR ''#''"
    "stripInlineComment t = t" "blockIndicator t = None"
    by (simp_all add: line_ok_def stripInlineComment_def)
  let ?r = "raw_line (i, t)"
  have last: "last ?r = last t" "?r \<noteq> []" using t(1) by (simp_all add: raw_line_def)
  have tr: "trim_right {CHR '' '', tab, carriage_return} ?r = ?r"
    using ascii_text_facts [OF t(3)] last by (intro trim_right_id) simp
  have ts: "trim_space ?r = t"
    using trim_space_ascii [OF t(1-3)] by (simp add: raw_line_def trim_space_def trim_space_left_spaces)
  have hd: "hd ?r \<noteq> tab" using ascii_text_facts [OF t(2)] t(1) by (cases i) (auto simp: raw_line_def control_chars)
  have ls: "leading_spaces ?r = int i"
  proof -
    have "dropWhile (\<lambda>c. c \<in> {CHR '' ''}) (replicate i (CHR '' '') @ t) = t"
      using ascii_text_facts [OF t(2)] t(1) by (induction i) (cases t; simp)+
    then show ?thesis by (simp add: leading_spaces_def trim_left_def raw_line_def)
  qed
  have np: "\<not> has_prefix t ''#''" using t(1,4) by (cases t) (simp_all add: has_prefix_def)
  show ?thesis
    using t(1) last(2) by (simp add: tr ts hd ls np t(5,6))
qed

lemma split_raw_render:
  "list_all (\<lambda>p. line_ok (snd p)) ls \<Longrightarrow> split_raw j 0 (map raw_line ls) = Inr (number j ls)"
  by (induction j ls rule: number.induct) (simp_all add: split_raw_line del: split_raw.simps(2))

lemma normalize_cr_id: "carriage_return \<notin> set s \<Longrightarrow> normalize_cr s = s"
  by (induction s rule: normalize_cr.induct) auto

lemma escape_breaks: "newline \<notin> set (escape s)" "carriage_return \<notin> set (escape s)"
  by (induction s) (auto simp: control_chars)

lemma strip_comment_quoted:
  "strip_comment_from \<lparr>inSingle = False, inDouble = True, escaped = False\<rparr> pre (escape s @ CHR 0x22 # rest) =
   strip_comment_from unquoted (pre @ escape s @ [CHR 0x22]) rest"
  by (induction s arbitrary: pre) (auto simp: control_chars)

lemma strip_comment_quote: "strip_comment_from unquoted pre (quote s) = pre @ quote s"
  using strip_comment_quoted [of _ s "[]"] by (simp add: quote_def)

lemma strip_comment_key: "list_all key_char k \<Longrightarrow>
  strip_comment_from unquoted pre (k @ rest) = strip_comment_from unquoted (pre @ k) rest"
proof (induction k arbitrary: pre)
  case (Cons c k)
  then have "key_char c" by simp
  with key_char_ascii [of c] Cons show ?case by simp
qed simp

lemma blockIndicator_key:
  assumes "key_ok k" "t = [] \<or> (\<exists>s. t = CHR '' '' # quote s)"
  shows "blockIndicator (k @ CHR '':'' # t) = None"
proof -
  note kd = key_okD [OF assms(1)]
  have si: "strip_items (k @ CHR '':'' # t) = k @ CHR '':'' # t"
    using kd(1,6) by (cases k; cases "tl k @ CHR '':'' # t") auto
  have fc: "findColon (k @ CHR '':'' # t) = Some (length k)" using kd(2) assms(2) by (auto intro!: findColon_key)
  have "trim_space t = [] \<or> (\<exists>s. trim_space t = quote s)"
    using assms(2) trim_space_quote by (auto simp: trim_space_def)
  then show ?thesis
    by (auto simp: blockIndicator_def si fc Let_def)
qed

lemma key_line_ok:
  assumes "key_ok k" "t = [] \<or> (\<exists>s. t = CHR '' '' # quote s)"
  shows "line_ok (k @ CHR '':'' # t)"
proof -
  note kd = key_okD [OF assms(1)]
  from assms(1) have chars: "list_all key_char k" by (simp add: key_ok_def)
  then have "newline \<notin> set k" "carriage_return \<notin> set k" "hd k \<noteq> CHR ''#''"
    using key_char_ascii kd(1) by (auto simp: list_all_iff dest: hd_in_set)
  moreover have "ascii_text CHR '':''" by (simp add: ascii_text_def space1_def)
  moreover have "strip_comment_from unquoted pre (k @ CHR '':'' # t) = pre @ k @ CHR '':'' # t" for pre
    using assms(2) strip_comment_quote by (auto simp: strip_comment_key [OF chars])
  moreover have "newline \<notin> set (quote s)" "carriage_return \<notin> set (quote s)" for s
    using escape_breaks by (auto simp: quote_def control_chars)
  ultimately show ?thesis
    using kd(1,3) assms(2) quote_char blockIndicator_key [OF assms]
    by (auto simp: line_ok_def control_chars)
qed

lemma item_line_ok: "line_ok t \<Longrightarrow> line_ok (''- '' @ t)"
proof -
  assume t: "line_ok t"
  have "ascii_text CHR ''-''" by (simp add: ascii_text_def space1_def)
  with t show ?thesis
    by (simp add: line_ok_def blockIndicator_def control_chars)
qed

lemma quote_line_ok: "blockIndicator (quote s) = None \<Longrightarrow> line_ok (quote s)"
  using escape_breaks quote_char strip_comment_quote by (auto simp: line_ok_def quote_def control_chars)

lemma render_lines_ok:
  "renderable n \<Longrightarrow> \<not> is_scalar n \<Longrightarrow> item_scalars_ok n \<Longrightarrow> list_all (\<lambda>p. line_ok (snd p)) (render ind n)"
proof (induction ind n rule: render.induct)
  case (1 ind s)
  then show ?case by simp
next
  case (2 ind es)
  let ?f = "\<lambda>(k, v). if is_scalar v then map (\<lambda>(i, t). (ind, k @ '': '' @ t)) (render ind v)
                          else (ind, k @ '':'') # render (ind + 2) v"
  have "line_ok (snd p)" if p: "p \<in> set (?f e)" and e: "e \<in> set es" for p e
  proof -
    obtain k v where kv: "e = (k, v)" by fastforce
    with e "2.prems" have k: "key_ok k" "renderable v" "item_scalars_ok v" by (auto simp: list_all_iff)
    show ?thesis
    proof (cases "is_scalar v")
      case True
      then obtain s where "v = Scalar s" by (cases v) auto
      with p kv have "snd p = k @ CHR '':'' # CHR '' '' # quote s" by simp
      with key_line_ok [OF k(1), of "CHR '' '' # quote s"] show ?thesis by auto
    next
      case False
      have "list_all (\<lambda>p. line_ok (snd p)) (render (ind + 2) v)"
        using "2.IH"(2) [OF e] kv False k(2,3) by blast
      with p kv False key_line_ok [OF k(1), of "[]"] show ?thesis by (auto simp: list_all_iff)
    qed
  qed
  then show ?case unfolding render.simps list_all_iff set_concat set_map by blast
next
  case (3 ind items)
  have "line_ok (snd p)" if p: "p \<in> set (as_item ind (render (ind + 2) i))" and i: "i \<in> set items" for p i
  proof -
    have "list_all (\<lambda>p. line_ok (snd p)) (render (ind + 2) i)"
    proof (cases "is_scalar i")
      case True
      then obtain s where s: "i = Scalar s" by (cases i) auto
      with i "3.prems"(3) have "blockIndicator (quote s) = None" by (force simp: list_all_iff)
      with s show ?thesis by (simp add: quote_line_ok)
    next
      case False
      with "3.IH" [OF i] i "3.prems" show ?thesis by (simp add: list_all_iff)
    qed
    with p show ?thesis
    proof (cases "render (ind + 2) i")
      case (Cons q qs)
      with p have "p = (ind, ''- '' @ snd q) \<or> p \<in> set qs" by (cases q) (simp add: as_item_def)
      with \<open>list_all (\<lambda>p. line_ok (snd p)) (render (ind + 2) i)\<close> Cons item_line_ok [of "snd q"] show ?thesis
        by (auto simp: list_all_iff)
    qed (simp add: as_item_def)
  qed
  then show ?case unfolding render.simps list_all_iff set_concat set_map by blast
qed

lemma splitLines_render:
  assumes "renderable n" "\<not> is_scalar n" "item_scalars_ok n"
  shows "splitLines (normalize_cr (trim_prefix (render_text n) utf8_bom)) = Inr (number 1 (render 0 n))"
proof -
  note ok = render_lines_ok [OF assms, of 0]
  let ?ls = "map raw_line (render 0 n)"
  obtain t rest where h: "render 0 n = (0, t) # rest" using render_first [OF assms(1)] by blast
  have l: "newline \<notin> set l" "carriage_return \<notin> set l" "l \<noteq> []" if "l \<in> set ?ls" for l
  proof -
    from that obtain p where p: "p \<in> set (render 0 n)" "l = raw_line p" by auto
    with ok have "line_ok (snd p)" by (simp add: list_all_iff)
    with p(2) show "newline \<notin> set l" "carriage_return \<notin> set l" "l \<noteq> []"
      by (auto simp: raw_line_def line_ok_def control_chars)
  qed
  have ne: "?ls \<noteq> []" using h by simp
  then have last: "last ?ls \<noteq> []" using l(3) last_in_set by blast
  have "carriage_return \<notin> set (join newline_str xs)" if "\<And>l. l \<in> set xs \<Longrightarrow> carriage_return \<notin> set l" for xs
    using that by (induction xs rule: induct_list012) (auto simp: newline_str_def control_chars)
  then have cr: "carriage_return \<notin> set (render_text n)" unfolding render_text_def using l(2) by blast
  from ok h have t: "t \<noteq> []" "ascii_text (hd t)" by (simp_all add: line_ok_def)
  obtain u where u: "render_text n = t @ u"
    by (cases rest) (simp_all add: render_text_def h raw_line_def)
  have "hd t \<noteq> CHR 0xEF" using ascii_text_facts [OF t(2)] by blast
  with t(1) have "\<not> has_prefix (t @ u) utf8_bom"
    unfolding has_prefix_iff utf8_bom_def by (cases t) auto
  then have "\<not> has_prefix (render_text n) utf8_bom" using u by simp
  then have "normalize_cr (trim_prefix (render_text n) utf8_bom) = render_text n"
    using cr by (simp add: trim_prefix_def normalize_cr_id)
  moreover have "split_on newline (render_text n) = ?ls"
    unfolding render_text_def newline_str_def using ne l(1) by (intro split_on_join) (simp_all add: list_all_iff)
  ultimately show ?thesis
    using last split_raw_render [OF ok] by (simp add: splitLines_def)
qed

section \<open>Properties\<close>

text \<open>
  C11. Printing a tree and parsing the text gives the tree back: every tree of non-empty block
  mappings and sequences with distinct plain keys and arbitrary scalars (printed in double
  quotes), up to the depth the parser accepts. The scalars that are items of a sequence are those
  whose quoted form is not taken for a block scalar header.
\<close>

theorem Parse_render:
  assumes "renderable n" "\<not> is_scalar n" "item_scalars_ok n" "depth n \<le> Suc maxParseDepth"
  shows "Parse (render_text n) = Inr n"
proof -
  have "parseBlock (Suc maxParseDepth) (number 1 (render 0 n)) (- 1) = Inr (n, length (render 0 n))"
    using parseBlock_render [OF assms(1,2,4), of "- 1" 0 "[]" 1] by (simp add: outside_def del: parseBlock.simps)
  then show ?thesis
    unfolding Parse_def splitLines_render [OF assms(1-3)] by simp
qed

definition sample_tree :: node where
  "sample_tree =
     Mapping [(''processes'', Sequence [Mapping [(''name'', Scalar ''web: # 1''), (''args'', Sequence [Scalar ''-p'', Scalar ''a: b''])],
                                        Sequence [Scalar [], Mapping [(''k'', Scalar [newline, tab])]]]),
              (''log'', Scalar [CHR 0x5C, CHR 0x22])]"

theorem Parse_render_witness: "Parse (render_text sample_tree) = Inr sample_tree"
proof (rule Parse_render)
  show "renderable sample_tree" by code_simp
  show "\<not> is_scalar sample_tree" by code_simp
  show "item_scalars_ok sample_tree" by code_simp
  show "depth sample_tree \<le> Suc maxParseDepth" by (simp add: sample_tree_def maxParseDepth_def)
qed



text \<open>
  C13. The keys of every mapping of a parsed tree, inline or block, at any level, are distinct,
  and the tree is at most two levels deeper than \<open>maxParseDepth\<close>.
\<close>

theorem Parse_well_formed:
  assumes "Parse data = Inr n"
  shows "keys_distinct n \<and> depth n \<le> maxParseDepth + 2"
  using distinct_keys.Parse_ok [OF assms] bounded_depth.Parse_ok [OF assms] by simp

theorem Parse_well_formed_witness:
  "keys_distinct (Mapping [(''a'', Mapping [(''b'', Scalar ''1''), (''c'', Scalar ''2'')])]) \<and>
   depth (Mapping [(''a'', Mapping [(''b'', Scalar ''1''), (''c'', Scalar ''2'')])]) \<le> maxParseDepth + 2"
proof (rule Parse_well_formed)
  show "Parse ''a: {b: 1, c: 2}'' = Inr (Mapping [(''a'', Mapping [(''b'', Scalar ''1''), (''c'', Scalar ''2'')])])"
    by code_simp
qed

text \<open>
  A quoted list item whose text holds a colon, a space and a bar is taken for a block scalar
  header and the file is rejected, although quoted values are meant never to match.
\<close>

lemma quoted_item_taken_for_block:
  "Parse (''- '' @ quote ''a: |b'') = Inl (AtLine 1 (UnsupportedIndicator (''|b'' @ [CHR 0x22])))"
  by code_simp

end
