(* ===== verification/Signals.thy ===== *)
theory Signals
  imports Go_Prelude "HOL-Library.Word"
begin

unbundle bit_operations_syntax

text \<open>
  Signal names and exit statuses: \<open>service/signal.go\<close>, \<open>SignalName\<close> of \<open>service/service.go\<close>,
  \<open>parseExitCode\<close> of \<open>internal/yml/config.go\<close>, and \<open>waitStatusCode\<close> and \<open>formatSignalSet\<close> of
  \<open>run.go\<close>. The numbers are those of Linux, the platform the program is built for. The wait status
  of a child is the 32-bit word \<open>wait4\<close> fills in; the tests on it are those of
  \<open>syscall.WaitStatus\<close>. The lemmas relate the two roads a signal takes to an exit code: through its
  name in the configuration and through the status of the child it killed.
\<close>

section \<open>Names\<close>

definition SIGHUP :: int where "SIGHUP = 1"
definition SIGINT :: int where "SIGINT = 2"
definition SIGKILL :: int where "SIGKILL = 9"
definition SIGUSR1 :: int where "SIGUSR1 = 10"
definition SIGUSR2 :: int where "SIGUSR2 = 12"
definition SIGTERM :: int where "SIGTERM = 15"
definition SIGSTOP :: int where "SIGSTOP = 19"

lemmas signal_numbers =
  SIGHUP_def SIGINT_def SIGKILL_def SIGUSR1_def SIGUSR2_def SIGTERM_def SIGSTOP_def

definition signalMap :: "(string \<times> int) list" where
  "signalMap =
     [(''SIGABRT'', 6), (''SIGALRM'', 14), (''SIGBUS'', 7), (''SIGCHLD'', 17), (''SIGCONT'', 18),
      (''SIGFPE'', 8), (''SIGHUP'', SIGHUP), (''SIGILL'', 4), (''SIGINT'', SIGINT), (''SIGIO'', 29),
      (''SIGKILL'', SIGKILL), (''SIGPIPE'', 13), (''SIGPROF'', 27), (''SIGQUIT'', 3), (''SIGSEGV'', 11),
      (''SIGSTOP'', SIGSTOP), (''SIGSYS'', 31), (''SIGTERM'', SIGTERM), (''SIGTRAP'', 5),
      (''SIGTSTP'', 20), (''SIGTTIN'', 21), (''SIGTTOU'', 22), (''SIGURG'', 23), (''SIGUSR1'', SIGUSR1),
      (''SIGUSR2'', SIGUSR2), (''SIGVTALRM'', 26), (''SIGWINCH'', 28), (''SIGXCPU'', 24), (''SIGXFSZ'', 25)]"

text \<open>The reverse table. No number has two names, so the order of the insertions is immaterial.\<close>

definition sigNames :: "int \<rightharpoonup> string" where
  "sigNames = map_of (map (\<lambda>(name, sig). (sig, name)) signalMap)"

text \<open>\<^const>\<open>None\<close> is the error for an unknown name.\<close>

definition ParseSignal :: "string \<Rightarrow> int option" where
  "ParseSignal s =
     (let name = trim_space (to_upper s)
      in if name = [] then Some SIGTERM
         else map_of signalMap (if has_prefix name ''SIG'' then name else ''SIG'' @ name))"

definition SignalName :: "int \<Rightarrow> string" where
  "SignalName sig = (case sigNames sig of Some name \<Rightarrow> name | None \<Rightarrow> itoa sig)"

definition formatSignalSet :: "int list \<Rightarrow> string" where
  "formatSignalSet sigs = (if sigs = [] then ''(none)'' else join '', '' (map SignalName (sort sigs)))"

section \<open>Exit codes\<close>

datatype exit_code_error = Empty_exit_code | Not_an_exit_code

definition parseExitCode :: "string \<Rightarrow> exit_code_error + int" where
  "parseExitCode t =
     (let s = trim_space t
      in if s = [] then Inl Empty_exit_code
         else case parse_int s of
           Some v \<Rightarrow> Inr v
         | None \<Rightarrow> (case ParseSignal s of None \<Rightarrow> Inl Not_an_exit_code | Some sig \<Rightarrow> Inr (128 + sig)))"

type_synonym wait_status = "32 word"

definition Exited :: "wait_status \<Rightarrow> bool" where
  "Exited ws = (ws AND 0x7F = 0)"

definition ExitStatus :: "wait_status \<Rightarrow> int" where
  "ExitStatus ws = uint (drop_bit 8 ws AND 0xFF)"

definition Signaled :: "wait_status \<Rightarrow> bool" where
  "Signaled ws = (ws AND 0x7F \<noteq> 0x7F \<and> ws AND 0x7F \<noteq> 0)"

definition term_signal :: "wait_status \<Rightarrow> int" where
  "term_signal ws = uint (ws AND 0x7F)"

definition waitStatusCode :: "wait_status \<Rightarrow> int" where
  "waitStatusCode ws =
     (if Exited ws then ExitStatus ws
      else if Signaled ws then 128 + term_signal ws
      else 1)"

text \<open>The statuses of a child that exits with a code and of one a signal kills, with or without a core.\<close>

definition status_exit :: "int \<Rightarrow> wait_status" where
  "status_exit code = push_bit 8 (word_of_int code AND 0xFF)"

definition status_killed :: "int \<Rightarrow> bool \<Rightarrow> wait_status" where
  "status_killed sig core = word_of_int sig OR (if core then 0x80 else 0)"


section \<open>The two roads to an exit code\<close>

definition signal_entry :: "string \<times> int \<Rightarrow> bool" where
  "signal_entry = (\<lambda>(name, sig).
     0 < sig \<and> sig < 127 \<and> list_all capital name \<and> take 3 name = ''SIG'' \<and>
     drop 3 name \<noteq> [] \<and> is_upper (hd (drop 3 name)) \<and> \<not> has_prefix (drop 3 name) ''SIG'')"

lemma signalMap_entries:
  "list_all signal_entry signalMap" "distinct (map fst signalMap)" "distinct (map snd signalMap)"
  by code_simp+

lemma SignalName_entry: "(name, sig) \<in> set signalMap \<Longrightarrow> SignalName sig = name"
proof -
  assume e: "(name, sig) \<in> set signalMap"
  have "map fst (map (\<lambda>(name, sig). (sig, name)) signalMap) = map snd signalMap" by (simp add: case_prod_beta comp_def)
  then have "distinct (map fst (map (\<lambda>(name, sig). (sig, name)) signalMap))" using signalMap_entries(3) by (simp only:)
  moreover have "(sig, name) \<in> set (map (\<lambda>(name, sig). (sig, name)) signalMap)" using e by force
  ultimately have "map_of (map (\<lambda>(name, sig). (sig, name)) signalMap) sig = Some name" by (rule map_of_is_SomeI)
  then show ?thesis by (simp add: SignalName_def sigNames_def)
qed

text \<open>What a spelling of a signal name is: with or without the prefix, in capitals or in small letters.\<close>

definition spellings :: "string \<Rightarrow> string set" where
  "spellings name = {name, drop 3 name, map lower_char name, map lower_char (drop 3 name)}"

lemma spelling_facts:
  assumes "(name, sig) \<in> set signalMap" "s \<in> spellings name"
  shows "trim_space s = s" "s \<noteq> []" "to_upper s \<in> {name, drop 3 name}" "\<not> is_digit (hd s)"
    "hd s \<noteq> CHR ''-''" "hd s \<noteq> CHR ''+''"
proof -
  have e: "list_all capital name" "take 3 name = ''SIG''" "drop 3 name \<noteq> []" "is_upper (hd (drop 3 name))"
    using assms(1) signalMap_entries(1) by (auto simp: signal_entry_def list_all_iff)
  have n: "list_all capital (drop 3 name)" "name \<noteq> []" "is_upper (hd name)"
    using e by (auto simp: list_all_iff is_upper_def less_eq_char_def numeral_3_eq_3 dest: in_set_dropD)
      (cases name; simp)+
  show "trim_space s = s" "s \<noteq> []" "to_upper s \<in> {name, drop 3 name}"
    using assms(2) e n capital_word [of name] capital_word [of "drop 3 name"] by (auto simp: spellings_def)
  have up: "\<not> is_digit c \<and> c \<noteq> CHR ''-'' \<and> c \<noteq> CHR ''+''" if "65 \<le> (of_char c :: nat)" for c
    using that by (auto simp: is_digit_iff)
  have lo: "65 \<le> (of_char (lower_char c) :: nat)" if "is_upper c" for c
    using that by (auto simp: lower_char_def of_char_bounds of_char_of)
  have "65 \<le> (of_char (hd s) :: nat)"
    using assms(2) e(3,4) n(2,3) lo by (auto simp: spellings_def of_char_bounds list.map_sel(1))
  from up [OF this] show "\<not> is_digit (hd s)" "hd s \<noteq> CHR ''-''" "hd s \<noteq> CHR ''+''" by auto
qed

lemma ParseSignal_spelling:
  assumes "(name, sig) \<in> set signalMap" "s \<in> spellings name"
  shows "ParseSignal s = Some sig"
proof -
  have e: "list_all capital name" "take 3 name = ''SIG''" "drop 3 name \<noteq> []" "\<not> has_prefix (drop 3 name) ''SIG''"
    using assms(1) signalMap_entries(1) by (auto simp: signal_entry_def list_all_iff)
  have full: "''SIG'' @ drop 3 name = name" using e(2) by (metis append_take_drop_id)
  have pre: "has_prefix name ''SIG''" using e(2) by (simp add: has_prefix_def numeral_3_eq_3)
  have c: "list_all capital (drop 3 name)" "name \<noteq> []" using e(1,3) by (auto simp: list_all_iff dest: in_set_dropD)
  have "to_upper s \<in> {name, drop 3 name}" by (rule spelling_facts [OF assms])
  moreover have "trim_space (to_upper s) = to_upper s"
    using calculation capital_word(3) [OF e(1) c(2)] capital_word(3) [OF c(1) e(3)] by auto
  moreover have "map_of signalMap name = Some sig" using assms(1) signalMap_entries(2) by (intro map_of_is_SomeI)
  ultimately show ?thesis
    using e(3,4) c(2) full pre unfolding ParseSignal_def Let_def by auto
qed

lemma parseExitCode_spelling:
  assumes "(name, sig) \<in> set signalMap" "s \<in> spellings name"
  shows "parseExitCode s = Inr (128 + sig)"
proof -
  note f = spelling_facts [OF assms]
  have "parse_int s = None" using f by (cases s) (auto simp: parse_int_def Let_def)
  then show ?thesis using f ParseSignal_spelling [OF assms] by (simp add: parseExitCode_def Let_def)
qed

lemma killed_mask:
  assumes "0 < sig" "sig < 127"
  shows "uint (status_killed sig core AND 0x7F) = sig"
proof -
  have m: "(0x7F :: int) = mask 7" by (simp add: mask_eq_exp_minus_1)
  have "sig AND mask 7 = sig" using assms by (simp add: take_bit_eq_mask [symmetric] take_bit_int_eq_self_iff)
  then have s: "sig AND 0x7F = sig" by (simp only: m)
  have r: "take_bit 32 sig = sig" using assms by (simp add: take_bit_int_eq_self_iff)
  have c: "(0x80 :: int) AND 0x7F = 0" by simp
  show ?thesis
    unfolding status_killed_def
    using assms(1) by (simp add: uint_and uint_or unsigned_of_int r s c bit.conj_disj_distrib2)
qed

lemma killed_code:
  assumes "0 < sig" "sig < 127"
  shows "waitStatusCode (status_killed sig core) = 128 + sig"
proof -
  have u: "uint (status_killed sig core AND 0x7F) = sig" by (rule killed_mask [OF assms])
  then have "status_killed sig core AND 0x7F \<noteq> 0" "status_killed sig core AND 0x7F \<noteq> 0x7F" using assms by auto
  then show ?thesis using u by (simp add: waitStatusCode_def Exited_def Signaled_def term_signal_def)
qed

lemma exit_code: "0 \<le> c \<Longrightarrow> c < 256 \<Longrightarrow> waitStatusCode (status_exit c) = c"
proof -
  assume c: "0 \<le> c" "c < 256"
  define w :: wait_status where "w = word_of_int c AND 0xFF"
  have m: "(0xFF :: wait_status) = mask 8" by (simp add: mask_eq_exp_minus_1)
  have "push_bit 8 w AND mask 7 = 0" by (rule bit_word_eqI) (auto simp: bit_simps)
  then have "push_bit 8 w AND 0x7F = 0" by (simp add: mask_eq_exp_minus_1)
  then have ex: "Exited (status_exit c)" by (simp add: Exited_def status_exit_def w_def [symmetric])
  have "drop_bit 8 (push_bit 8 w) AND 0xFF = w"
    unfolding w_def m by (rule bit_word_eqI) (auto simp: bit_simps)
  moreover have "uint w = c"
  proof -
    have i: "(0xFF :: int) = mask 8" by (simp add: mask_eq_exp_minus_1)
    have "c AND mask 8 = c" "take_bit 32 c = c"
      using c by (simp_all add: take_bit_eq_mask [symmetric] take_bit_int_eq_self_iff)
    then show ?thesis unfolding w_def using c(1) by (simp add: uint_and unsigned_of_int i [symmetric])
  qed
  ultimately show ?thesis using ex
    by (simp add: waitStatusCode_def ExitStatus_def status_exit_def w_def [symmetric])
qed

text \<open>
  C14. A signal has one exit code, whichever road it takes: its name in \<open>exit-code-map\<close>, in either
  spelling and in either case, and the status of a child that the signal killed, with or without a
  core dump, both give 128 plus its number; the name is the one \<open>SignalName\<close> prints, so that parsing
  undoes printing. A child that exits by itself with a code of one byte gives that code.
\<close>

theorem exit_codes_agree:
  assumes "(name, sig) \<in> set signalMap" "s \<in> spellings name" "0 \<le> code" "code < 256"
  shows "ParseSignal s = Some sig \<and> SignalName sig = name \<and>
    parseExitCode s = Inr (waitStatusCode (status_killed sig core)) \<and>
    waitStatusCode (status_killed sig core) = 128 + sig \<and>
    waitStatusCode (status_exit code) = code"
proof -
  have "0 < sig" "sig < 127" using assms(1) signalMap_entries(1) by (auto simp: signal_entry_def list_all_iff)
  then have k: "waitStatusCode (status_killed sig core) = 128 + sig" by (rule killed_code)
  show ?thesis
    unfolding k using ParseSignal_spelling [OF assms(1,2)] SignalName_entry [OF assms(1)]
      parseExitCode_spelling [OF assms(1,2)] exit_code [OF assms(3,4)] by simp
qed

theorem exit_codes_agree_witness:
  "parseExitCode ''sigterm'' = Inr 143 \<and> waitStatusCode (status_killed 15 True) = 143 \<and>
   waitStatusCode (status_exit 3) = 3"
proof -
  have e: "(''SIGTERM'', 15) \<in> set signalMap" by (simp add: signalMap_def SIGTERM_def)
  have "map lower_char ''SIGTERM'' = ''sigterm''" by code_simp
  then have s: "''sigterm'' \<in> spellings ''SIGTERM''" unfolding spellings_def by simp
  from exit_codes_agree [OF e s, of 3 True] show ?thesis by simp
qed

end
