(* ===== verification/Go_Float.thy ===== *)
theory Go_Float
  imports Complex_Main Go_Prelude
begin

text \<open>
  The \<open>float64\<close> arithmetic the sources use. A finite double is the rational number it denotes,
  and every operation is the exact rational operation followed by the rounding of IEEE 754:
  to nearest, ties to even, 53 significant bits, exponents down to -1074, overflow to an infinity.
  The two zeros are one value here: the sources compare
  with \<open><\<close>, \<open>>\<close> and \<open>==\<close> only, and convert to integers only, which do not tell them apart.
\<close>

section \<open>Rounding\<close>

datatype float64 = Finite rat | Infinite bool | NaN

fun ilog2 :: "nat \<Rightarrow> nat" where
  "ilog2 n = (if n < 2 then 0 else Suc (ilog2 (n div 2)))"

declare ilog2.simps [simp del]

definition pow2 :: "int \<Rightarrow> rat" where
  "pow2 e = (if 0 \<le> e then 2 ^ nat e else 1 / 2 ^ nat (- e))"

text \<open>The exponent of the leading binary digit of a positive number.\<close>

definition binade :: "rat \<Rightarrow> int" where
  "binade x =
     (let (a, b) = quotient_of x; k = int (ilog2 (nat a)) - int (ilog2 (nat b))
      in if pow2 k \<le> x then k else k - 1)"

definition round_even :: "rat \<Rightarrow> int" where
  "round_even x =
     (let f = \<lfloor>x\<rfloor>; r = x - of_int f
      in if r < 1 / 2 then f else if 1 / 2 < r then f + 1 else if even f then f else f + 1)"

definition round64 :: "rat \<Rightarrow> float64" where
  "round64 x =
     (if x = 0 then Finite 0
      else let e = max (binade \<bar>x\<bar> - 52) (- 1074);
               r = of_int (round_even (\<bar>x\<bar> / pow2 e)) * pow2 e
           in if pow2 1024 \<le> r then Infinite (0 < x) else Finite (sgn x * r))"

section \<open>Operations\<close>

fun fmul :: "float64 \<Rightarrow> float64 \<Rightarrow> float64" where
  "fmul NaN y = NaN"
| "fmul x NaN = NaN"
| "fmul (Finite x) (Finite y) = round64 (x * y)"
| "fmul (Infinite s) (Finite y) = (if y = 0 then NaN else Infinite (s = (0 < y)))"
| "fmul (Finite x) (Infinite t) = (if x = 0 then NaN else Infinite (t = (0 < x)))"
| "fmul (Infinite s) (Infinite t) = Infinite (s = t)"

fun fdiv :: "float64 \<Rightarrow> float64 \<Rightarrow> float64" where
  "fdiv NaN y = NaN"
| "fdiv x NaN = NaN"
| "fdiv (Finite x) (Finite y) = (if y = 0 then if x = 0 then NaN else Infinite (0 < x) else round64 (x / y))"
| "fdiv (Infinite s) (Finite y) = Infinite (s = (0 \<le> y))"
| "fdiv (Finite x) (Infinite t) = Finite 0"
| "fdiv (Infinite s) (Infinite t) = NaN"

text \<open>The conversions \<open>int64(x)\<close> and \<open>uint64(x)\<close> of a value in range: the fraction is dropped.\<close>

definition truncate :: "rat \<Rightarrow> int" where
  "truncate x = (if 0 \<le> x then \<lfloor>x\<rfloor> else \<lceil>x\<rceil>)"

text \<open>\<open>strconv.ParseFloat\<close> on digits with at most one dot.\<close>

definition parse_decimal :: "string \<Rightarrow> rat option" where
  "parse_decimal s =
     (let w = takeWhile is_digit s; f = filter is_digit (dropWhile is_digit s)
      in if w @ f = [] then None else Some (of_int (digits_val 10 (w @ f)) / 10 ^ length f))"

text \<open>\<open>math.Round\<close>: halves go away from zero.\<close>

definition round_away :: "rat \<Rightarrow> int" where
  "round_away x = (if 0 \<le> x then \<lfloor>x + 1 / 2\<rfloor> else - \<lfloor>- x + 1 / 2\<rfloor>)"

section \<open>Exact cases\<close>

lemma ilog2_bounds: "0 < n \<Longrightarrow> 2 ^ ilog2 n \<le> n \<and> n < 2 * 2 ^ ilog2 n"
proof (induction n rule: ilog2.induct)
  case (1 n)
  show ?case
  proof (cases "n < 2")
    case True
    then show ?thesis using 1(2) by (simp add: ilog2.simps)
  next
    case False
    then have "2 ^ ilog2 (n div 2) \<le> n div 2 \<and> n div 2 < 2 * 2 ^ ilog2 (n div 2)" using 1(1) by simp
    then show ?thesis using False by (subst (1 2) ilog2.simps) auto
  qed
qed

lemma pow2_pos [simp]: "0 < pow2 e"
  by (simp add: pow2_def)

lemma binade_of_nat: "0 < n \<Longrightarrow> binade (of_nat n) = int (ilog2 n)"
proof -
  assume n: "0 < n"
  have q: "quotient_of (of_nat n :: rat) = (int n, 1)"
    using quotient_of_int [of "int n"] by (simp add: Rat.of_int_def)
  have "(2::rat) ^ ilog2 n \<le> of_nat n"
    using ilog2_bounds [OF n] by (metis of_nat_le_iff of_nat_numeral of_nat_power)
  then show ?thesis
    unfolding binade_def q by (simp add: ilog2.simps [of "Suc 0"] pow2_def)
qed

lemma round_even_int [simp]: "round_even (of_int i) = i"
  by (simp add: round_even_def)

lemma round64_of_nat:
  assumes "n \<le> 2 ^ 53"
  shows "round64 (of_nat n) = Finite (of_nat n)"
proof (cases "n = 0")
  case True
  then show ?thesis by (simp add: round64_def)
next
  case False
  define l where "l = ilog2 n"
  have b: "2 ^ l \<le> n" "n < 2 * 2 ^ l" using ilog2_bounds [of n] False by (auto simp: l_def)
  have l: "l \<le> 53"
  proof (rule ccontr)
    assume "\<not> l \<le> 53"
    then have "(2::nat) ^ 54 \<le> 2 ^ l" by (intro power_increasing) auto
    then show False using b(1) assms by simp
  qed
  define e where "e = max (int l - 52) (- 1074)"
  have e: "e = int l - 52" using l by (simp add: e_def)
  have exact: "\<exists>i. of_nat n / pow2 e = of_int i \<and> of_int i * pow2 e = (of_nat n :: rat)"
  proof (cases "l = 53")
    case True
    then have "n = 2 ^ 53" using b(1) assms by simp
    then show ?thesis using True unfolding e by (intro exI [of _ "2 ^ 52"]) (simp add: pow2_def)
  next
    case False
    then have "l \<le> 52" using l by simp
    then have "pow2 e = 1 / 2 ^ (52 - l)" unfolding e pow2_def by (auto simp: nat_diff_distrib)
    then show ?thesis
      by (intro exI [of _ "int n * 2 ^ (52 - l)"]) simp
  qed
  then obtain i where i: "of_nat n / pow2 e = (of_int i :: rat)" "of_int i * pow2 e = (of_nat n :: rat)" by blast
  have "(of_nat n :: rat) < pow2 1024"
  proof -
    have "(of_nat n :: rat) \<le> of_nat (2 ^ 53)" using assms by (simp only: of_nat_le_iff)
    also have "\<dots> < 2 ^ 1024" by simp
    finally show ?thesis by (simp add: pow2_def)
  qed
  then show ?thesis
    using False i by (simp add: round64_def binade_of_nat l_def [symmetric] e_def [symmetric] Let_def)
qed

lemma truncate_of_nat [simp]: "truncate (of_nat n) = int n"
  by (simp add: truncate_def)

lemma round64_half: "round64 (1 / 2) = Finite (1 / 2)"
proof -
  have b: "binade (1 / 2) = - 1" by code_simp
  have "(1 / 2 :: rat) / pow2 (- 53) = of_int (2 ^ 52)" by (simp add: pow2_def)
  then have r: "round_even ((1 / 2) / pow2 (- 53)) = 2 ^ 52" by (simp only: round_even_int)
  have p: "(2 ^ 52 :: rat) * pow2 (- 53) = 1 / 2" by (simp add: pow2_def)
  have q: "\<not> pow2 1024 \<le> (1 / 2 :: rat)" by (simp add: pow2_def)
  show ?thesis using b r p q by (simp add: round64_def Let_def)
qed

section \<open>Rounding keeps bounds\<close>

lemma pow2_powi: "pow2 e = 2 powi e"
  by (simp add: pow2_def power_int_def power_one_over)

lemma pow2_diff: "pow2 (a - b) = pow2 a / pow2 b"
  by (simp add: pow2_powi power_int_diff)

lemma pow2_nat: "pow2 (int n) = 2 ^ n"
  by (simp add: pow2_def)

lemma binade_le:
  assumes "0 < x"
  shows "pow2 (binade x) \<le> x"
proof -
  obtain a b where q: "quotient_of x = (a, b)" by fastforce
  have b: "0 < b" using quotient_of_denom_pos [OF q] .
  have x: "x = of_int a / of_int b" using quotient_of_div [OF q] .
  have a: "0 < a" using assms b x by (simp add: zero_less_divide_iff)
  define k where "k = int (ilog2 (nat a)) - int (ilog2 (nat b))"
  have la: "(2::rat) ^ ilog2 (nat a) \<le> of_int a"
    using ilog2_bounds [of "nat a"] a of_nat_le_iff [of "2 ^ ilog2 (nat a)" "nat a", where ?'a = rat] by (simp add: of_nat_nat)
  have lb: "of_int b \<le> (2::rat) * 2 ^ ilog2 (nat b)"
    using ilog2_bounds [of "nat b"] b of_nat_le_iff [of "nat b" "2 * 2 ^ ilog2 (nat b)", where ?'a = rat] by (simp add: of_nat_nat)
  have "pow2 (k - 1) = 2 ^ ilog2 (nat a) / (2 * 2 ^ ilog2 (nat b))"
    unfolding k_def by (simp add: pow2_diff pow2_nat pow2_def [of 1])
  also have "\<dots> \<le> of_int a / of_int b" using la lb b a by (intro frac_le) auto
  finally have "pow2 (k - 1) \<le> x" by (simp add: x)
  then show ?thesis by (auto simp: binade_def q Let_def k_def)
qed

lemma round_even_le: "z \<le> of_int n \<Longrightarrow> round_even z \<le> n"
proof -
  assume z: "z \<le> of_int n"
  have "\<lfloor>z\<rfloor> \<le> n" using z by linarith
  moreover have "\<lfloor>z\<rfloor> + 1 \<le> n" if "z - of_int \<lfloor>z\<rfloor> \<noteq> 0" using that z by linarith
  ultimately show ?thesis by (auto simp: round_even_def Let_def not_less)
qed

lemma round_even_nonneg: "0 \<le> z \<Longrightarrow> 0 \<le> round_even z"
  by (auto simp: round_even_def Let_def)

lemma pow2_mono: "a \<le> b \<Longrightarrow> pow2 a \<le> pow2 b"
  unfolding pow2_powi by (rule power_int_increasing) simp_all

lemma scaled_nat_int: "e \<le> 0 \<Longrightarrow> (of_nat n :: rat) / pow2 e = of_int (int n * 2 ^ nat (- e))"
  by (cases "e = 0") (simp_all add: pow2_def)

text \<open>A value that is at most a whole number of at most 2^53 stays so when it is rounded.\<close>

lemma round64_le:
  assumes "0 \<le> x" "x \<le> of_nat n" "n \<le> 2 ^ 53"
  shows "\<exists>y. round64 x = Finite y \<and> 0 \<le> y \<and> y \<le> of_nat n"
proof (cases "x = 0 \<or> x = of_nat n")
  case True
  then show ?thesis using round64_of_nat [OF assms(3)] by (auto simp: round64_def)
next
  case False
  then have x: "0 < x" "x < of_nat n" using assms by auto
  define e where "e = max (binade x - 52) (- 1074)"
  have n53: "(of_nat n :: rat) \<le> 2 ^ 53" using assms(3) of_nat_le_iff [of n "2 ^ 53", where ?'a = rat] by simp
  have "pow2 (binade x) < pow2 53" using binade_le [OF x(1)] x(2) n53 by (simp add: pow2_def [of 53])
  then have "\<not> 53 \<le> binade x" using pow2_mono [of 53 "binade x"] by linarith
  then have e: "e \<le> 0" by (simp add: e_def)
  define r where "r = (of_int (round_even (x / pow2 e)) :: rat) * pow2 e"
  have "x / pow2 e \<le> of_int (int n * 2 ^ nat (- e))"
    unfolding scaled_nat_int [OF e, symmetric] using x(2) by (intro divide_right_mono) (simp_all add: less_imp_le)
  then have "round_even (x / pow2 e) \<le> int n * 2 ^ nat (- e)" by (rule round_even_le)
  then have "(of_int (round_even (x / pow2 e)) :: rat) \<le> of_nat n / pow2 e"
    unfolding scaled_nat_int [OF e] by (simp only: of_int_le_iff)
  then have r: "r \<le> of_nat n" by (simp add: r_def pos_le_divide_eq)
  have "0 \<le> x / pow2 e" using x(1) pow2_pos [of e] by (intro divide_nonneg_pos) simp_all
  then have "0 \<le> r" using round_even_nonneg [of "x / pow2 e"] pow2_pos [of e] by (simp add: r_def less_imp_le)
  moreover have "r < pow2 1024"
  proof -
    have "(2::rat) ^ 53 < 2 ^ 1024" by (rule power_strict_increasing) simp_all
    then show ?thesis using r n53 pow2_nat [of 1024] by simp
  qed
  moreover have "round64 x = (if pow2 1024 \<le> r then Infinite (0 < x) else Finite (sgn x * r))"
    using x(1) by (simp add: round64_def Let_def e_def r_def)
  ultimately show ?thesis using r x(1) by simp
qed

end
