(* ===== verification/Go_Duration.thy ===== *)
theory Go_Duration
  imports Go_Float
begin

text \<open>
  The type \<open>time.Duration\<close>: an \<open>int64\<close> count of nanoseconds, here an \<^typ>\<open>int\<close>. The theory
  models \<open>Duration.String\<close>, which the control client sends, and \<open>time.ParseDuration\<close>, which reads
  every duration of the configuration and of the control protocol, floating-point scaling of the
  fraction included. The last lemma is that parsing undoes printing.
\<close>

type_synonym duration = int

definition microsecond :: duration where "microsecond = 1000"
definition millisecond :: duration where "millisecond = 1000000"
definition second :: duration where "second = 1000000000"
definition minute :: duration where "minute = 60000000000"
definition hour :: duration where "hour = 3600000000000"

lemmas duration_units = microsecond_def millisecond_def second_def minute_def hour_def

section \<open>Printing\<close>

text \<open>\<open>fmtFrac\<close>: the last \<open>prec\<close> digits of a number as a fraction, without trailing zeros.\<close>

fun frac_digits :: "nat \<Rightarrow> nat \<Rightarrow> string \<Rightarrow> string \<times> nat" where
  "frac_digits 0 v out = (out, v)"
| "frac_digits (Suc n) v out =
     frac_digits n (v div 10)
       (if out \<noteq> [] \<or> v mod 10 \<noteq> 0 then digit_char (v mod 10) # out else out)"

definition fmtFrac :: "nat \<Rightarrow> nat \<Rightarrow> string \<times> nat" where
  "fmtFrac v prec =
     (let (ds, w) = frac_digits prec v [] in (if ds = [] then [] else CHR ''.'' # ds, w))"

definition micro_sign :: string where "micro_sign = [CHR 0xC2, CHR 0xB5]"

definition fmt_unit :: "nat \<Rightarrow> nat \<Rightarrow> string \<Rightarrow> string" where
  "fmt_unit v prec u = (let (fr, w) = fmtFrac v prec in nat_digits w @ fr @ u)"

definition fmt_clock :: "nat \<Rightarrow> string" where
  "fmt_clock u =
     (let (fr, s) = fmtFrac u 9; m = s div 60; h = m div 60
      in (if 0 < m then (if 0 < h then nat_digits h @ ''h'' else []) @ nat_digits (m mod 60) @ ''m'' else [])
         @ nat_digits (s mod 60) @ fr @ ''s'')"

definition duration_body :: "nat \<Rightarrow> string" where
  "duration_body u =
     (if u = 0 then ''0s''
      else if u < 1000 then fmt_unit u 0 ''ns''
      else if u < 1000000 then fmt_unit u 3 (micro_sign @ ''s'')
      else if u < 1000000000 then fmt_unit u 6 ''ms''
      else fmt_clock u)"

definition Duration_String :: "duration \<Rightarrow> string" where
  "Duration_String d =
     (if d < 0 then CHR ''-'' # duration_body (nat \<bar>d\<bar>) else duration_body (nat \<bar>d\<bar>))"

section \<open>Parsing\<close>

fun leadingInt :: "int \<Rightarrow> string \<Rightarrow> (int \<times> string) option" where
  "leadingInt x [] = Some (x, [])"
| "leadingInt x (c # s) =
     (if \<not> is_digit c then Some (x, c # s)
      else if 2 ^ 63 div 10 < x then None
      else if 2 ^ 63 < x * 10 + digit_val c then None
      else leadingInt (x * 10 + digit_val c) s)"

text \<open>Digits past the 64-bit range are skipped: \<open>overflow\<close> freezes the value and the scale.\<close>

fun leadingFraction :: "int \<Rightarrow> float64 \<Rightarrow> bool \<Rightarrow> string \<Rightarrow> int \<times> float64 \<times> string" where
  "leadingFraction x scale overflow [] = (x, scale, [])"
| "leadingFraction x scale overflow (c # s) =
     (if \<not> is_digit c then (x, scale, c # s)
      else if overflow \<or> (2 ^ 63 - 1) div 10 < x \<or> 2 ^ 63 < x * 10 + digit_val c
      then leadingFraction x scale True s
      else leadingFraction (x * 10 + digit_val c) (fmul scale (Finite 10)) False s)"

definition unit_of :: "string \<Rightarrow> duration option" where
  "unit_of u =
     (if u = ''ns'' then Some 1
      else if u = ''us'' \<or> u = micro_sign @ ''s'' \<or> u = [CHR 0xCE, CHR 0xBC] @ ''s'' then Some microsecond
      else if u = ''ms'' then Some millisecond
      else if u = ''s'' then Some second
      else if u = ''m'' then Some minute
      else if u = ''h'' then Some hour
      else None)"

definition number_char :: "char \<Rightarrow> bool" where
  "number_char c = (c = CHR ''.'' \<or> is_digit c)"

definition scale_fraction :: "int \<Rightarrow> float64 \<Rightarrow> duration \<Rightarrow> int" where
  "scale_fraction f scale u =
     (case fmul (round64 (of_int f)) (fdiv (round64 (of_int u)) scale) of
        Finite r \<Rightarrow> truncate r | _ \<Rightarrow> 0)"

text \<open>The optional fraction after the integer part, and whether it has a digit.\<close>

definition parse_fraction :: "string \<Rightarrow> int \<times> float64 \<times> string \<times> bool" where
  "parse_fraction r =
     (if r \<noteq> [] \<and> hd r = CHR ''.''
      then (let (f, scale, q) = leadingFraction 0 (Finite 1) False (tl r)
            in (f, scale, q, length q \<noteq> length (tl r)))
      else (0, Finite 1, r, False))"

text \<open>One number and its unit: the value and the text after it.\<close>

definition parse_group :: "string \<Rightarrow> (int \<times> string) option" where
  "parse_group s =
     (if s = [] \<or> \<not> number_char (hd s) then None
      else case leadingInt 0 s of
        None \<Rightarrow> None
      | Some (v, r) \<Rightarrow>
          let pre = (length r \<noteq> length s);
              (f, scale, r', post) = parse_fraction r;
              u = takeWhile (\<lambda>c. \<not> number_char c) r';
              rest = dropWhile (\<lambda>c. \<not> number_char c) r'
          in if \<not> pre \<and> \<not> post then None
             else if u = [] then None
             else case unit_of u of
               None \<Rightarrow> None
             | Some n \<Rightarrow>
                 if 2 ^ 63 div n < v then None
                 else let w = v * n + (if 0 < f then scale_fraction f scale n else 0)
                      in if 2 ^ 63 < w then None else Some (w, rest))"

lemma leadingInt_length: "leadingInt x s = Some (v, r) \<Longrightarrow> length r \<le> length s"
  by (induction x s rule: leadingInt.induct) (auto split: if_splits)

lemma leadingFraction_length: "leadingFraction x sc ov s = (f, scale, r) \<Longrightarrow> length r \<le> length s"
  by (induction x sc ov s rule: leadingFraction.induct) (auto split: if_splits)

lemma parse_fraction_length: "parse_fraction r = (f, scale, r', post) \<Longrightarrow> length r' \<le> length r"
  using leadingFraction_length [of 0 "Finite 1" False "tl r"]
  by (auto simp: parse_fraction_def split: if_splits prod.splits)

lemma parse_group_shorter:
  assumes "parse_group s = Some (w, rest)"
  shows "length rest < length s"
proof -
  from assms obtain v r where v: "leadingInt 0 s = Some (v, r)"
    unfolding parse_group_def by (auto split: if_splits option.splits)
  obtain f scale r' post where fr: "parse_fraction r = (f, scale, r', post)" by (metis prod_cases4)
  define p where "p = (\<lambda>c. \<not> number_char c)"
  have ne: "takeWhile p r' \<noteq> []" and rest: "rest = dropWhile p r'"
    using assms v fr unfolding parse_group_def p_def by (auto simp: Let_def split: if_splits option.splits)
  have "length r' = length (takeWhile p r') + length (dropWhile p r')"
    by (metis length_append takeWhile_dropWhile_id)
  then have "length rest < length r'" using ne rest by simp
  also have "\<dots> \<le> length r" using parse_fraction_length [OF fr] .
  also have "\<dots> \<le> length s" using leadingInt_length [OF v] .
  finally show ?thesis .
qed

function parse_groups :: "int \<Rightarrow> string \<Rightarrow> int option" where
  "parse_groups d s =
     (if s = [] then Some d
      else case parse_group s of
        None \<Rightarrow> None
      | Some (w, rest) \<Rightarrow> if 2 ^ 63 < d + w then None else parse_groups (d + w) rest)"
  by pat_completeness auto

termination
  by (relation "measure (\<lambda>(d, s). length s)") (auto dest: parse_group_shorter [OF sym] parse_group_shorter)

declare parse_groups.simps [simp del]

definition ParseDuration :: "string \<Rightarrow> duration option" where
  "ParseDuration orig =
     (let neg = (orig \<noteq> [] \<and> hd orig = CHR ''-'');
          s = (if orig \<noteq> [] \<and> (hd orig = CHR ''-'' \<or> hd orig = CHR ''+'') then tl orig else orig)
      in if s = ''0'' then Some 0
         else if s = [] then None
         else case parse_groups 0 s of
           None \<Rightarrow> None
         | Some d \<Rightarrow> if neg then Some (- d) else if 2 ^ 63 - 1 < d then None else Some d)"


section \<open>Parsing undoes printing\<close>

lemma digits_val_append: "digits_val b (xs @ ys) = digits_val b xs * b ^ length ys + digits_val b ys"
  by (induction ys rule: rev_induct) (simp_all add: append_assoc [symmetric] algebra_simps del: append_assoc)

lemma leadingInt_digits:
  assumes "list_all is_digit ds" "r = [] \<or> \<not> is_digit (hd r)" "0 \<le> x"
    and "x * 10 ^ length ds + digits_val 10 ds \<le> 2 ^ 63"
  shows "leadingInt x (ds @ r) = Some (x * 10 ^ length ds + digits_val 10 ds, r)"
  using assms
proof (induction ds arbitrary: x)
  case Nil
  then show ?case by (cases r) auto
next
  case (Cons c ds)
  have c: "0 \<le> digit_val c" "digit_val c < 10" "is_digit c" using Cons(2) digit_val_bounds [of c] by auto
  have v: "digits_val 10 (c # ds) = digit_val c * 10 ^ length ds + digits_val 10 ds"
    using digits_val_append [of 10 "[c]" ds] by (simp add: digits_val_def)
  have p: "(1::int) \<le> 10 ^ length ds" by simp
  have dv: "0 \<le> digits_val 10 ds" using Cons(2) digits_val_ge by simp
  have le: "x * 10 + digit_val c \<le> (x * 10 + digit_val c) * 10 ^ length ds"
    using mult_left_mono [OF p, of "x * 10 + digit_val c"] c(1) Cons(4) by simp
  have tot: "(x * 10 + digit_val c) * 10 ^ length ds + digits_val 10 ds \<le> 2 ^ 63"
    using Cons(5) unfolding v by (simp add: algebra_simps)
  have "\<not> 2 ^ 63 < x * 10 + digit_val c" using le tot dv by simp
  moreover have "\<not> 2 ^ 63 div 10 < x" using calculation c by simp
  moreover have "leadingInt (x * 10 + digit_val c) (ds @ r)
      = Some ((x * 10 + digit_val c) * 10 ^ length ds + digits_val 10 ds, r)"
    using Cons(2-4) c(1) tot by (intro Cons(1)) auto
  ultimately show ?case using c(3) unfolding v by (simp add: algebra_simps)
qed

lemma leadingFraction_digits:
  assumes "list_all is_digit ds" "r = [] \<or> \<not> is_digit (hd r)" "0 \<le> x" "x < 10 ^ k" "k + length ds \<le> 9"
  shows "leadingFraction x (Finite (10 ^ k)) False (ds @ r)
    = (x * 10 ^ length ds + digits_val 10 ds, Finite (10 ^ (k + length ds)), r)"
  using assms
proof (induction ds arbitrary: x k)
  case Nil
  then show ?case by (cases r) auto
next
  case (Cons c ds)
  have c: "0 \<le> digit_val c" "digit_val c < 10" "is_digit c" using Cons(2) digit_val_bounds [of c] by auto
  have v: "digits_val 10 (c # ds) = digit_val c * 10 ^ length ds + digits_val 10 ds"
    using digits_val_append [of 10 "[c]" ds] by (simp add: digits_val_def)
  have x': "x * 10 + digit_val c < 10 ^ Suc k" using Cons(5) c by simp
  have k: "(10::int) ^ Suc k \<le> 10 ^ 9" using Cons(6) by (intro power_increasing) auto
  then have "x * 10 + digit_val c < 10 ^ 9" using x' by linarith
  then have ov: "\<not> ((2::int) ^ 63 - 1) div 10 < x" "\<not> (2::int) ^ 63 < x * 10 + digit_val c" using c by simp_all
  have "(10::nat) ^ Suc k \<le> 10 ^ 9" using Cons(6) by (intro power_increasing) auto
  then have "(10::nat) ^ Suc k \<le> 2 ^ 53" by simp
  from round64_of_nat [OF this] have sc: "fmul (Finite (10 ^ k)) (Finite 10) = Finite (10 ^ Suc k)"
    by (simp add: mult.commute)
  have "leadingFraction (x * 10 + digit_val c) (Finite (10 ^ Suc k)) False (ds @ r)
      = ((x * 10 + digit_val c) * 10 ^ length ds + digits_val 10 ds, Finite (10 ^ (Suc k + length ds)), r)"
    using Cons(2-4,6) c(1) x' by (intro Cons(1)) auto
  then show ?case using c(3) ov unfolding v by (simp add: sc algebra_simps del: fmul.simps)
qed


text \<open>The digits \<open>fmtFrac\<close> prints stand for the last \<open>prec\<close> digits of the number.\<close>

lemma frac_digits_value:
  assumes "frac_digits n v out = (ds, w)" "list_all is_digit out"
  shows "w = v div 10 ^ n \<and> list_all is_digit ds
    \<and> length out \<le> length ds \<and> length ds \<le> n + length out
    \<and> (out \<noteq> [] \<longrightarrow> length ds = n + length out)
    \<and> digits_val 10 ds * 10 ^ (n + length out - length ds)
      = int (v mod 10 ^ n) * 10 ^ length out + digits_val 10 out"
  using assms
proof (induction n v out arbitrary: ds w rule: frac_digits.induct)
  case (1 v out)
  then show ?case by simp
next
  case (2 n v out)
  define out' where "out' = (if out \<noteq> [] \<or> v mod 10 \<noteq> 0 then digit_char (v mod 10) # out else out)"
  have eq: "frac_digits n (v div 10) out' = (ds, w)" using 2(2) by (simp add: out'_def)
  have dig: "list_all is_digit out'" using 2(3) by (simp add: out'_def)
  have ih: "w = v div 10 div 10 ^ n" "list_all is_digit ds" "length out' \<le> length ds"
      "length ds \<le> n + length out'" "out' \<noteq> [] \<longrightarrow> length ds = n + length out'"
      "digits_val 10 ds * 10 ^ (n + length out' - length ds)
       = int (v div 10 mod 10 ^ n) * 10 ^ length out' + digits_val 10 out'"
    using 2(1) [folded out'_def, OF eq dig] by simp_all
  have w: "w = v div 10 ^ Suc n" using ih(1) by (simp add: div_mult2_eq)
  have m: "v mod 10 ^ Suc n = 10 * (v div 10 mod 10 ^ n) + v mod 10"
    by (simp add: mod_mult2_eq)
  have val: "digits_val 10 out' * 10 ^ (Suc (length out) - length out')
      = int (v mod 10) * 10 ^ length out + digits_val 10 out" if "out' \<noteq> out"
  proof -
    have "out' = digit_char (v mod 10) # out" using that by (simp add: out'_def split: if_splits)
    then show ?thesis using digits_val_append [of 10 "[digit_char (v mod 10)]" out] by (simp add: digits_val_def)
  qed
  show ?case
  proof (cases "out' = out")
    case True
    then have o: "out = []" "v mod 10 = 0" by (auto simp: out'_def split: if_splits)
    have l: "length ds \<le> n" using ih(4) True o by simp
    have "digits_val 10 ds * 10 ^ (Suc n - length ds) = digits_val 10 ds * 10 ^ (n - length ds) * 10"
      using l by (simp add: Suc_diff_le)
    also have "\<dots> = int (v mod 10 ^ Suc n)" using ih(6) True o m by simp
    finally show ?thesis using w ih(2) l o by simp
  next
    case False
    then have o: "out' = digit_char (v mod 10) # out" by (simp add: out'_def split: if_splits)
    have l: "length ds = n + length out'" using ih(5) o by simp
    have "digits_val 10 ds = int (v div 10 mod 10 ^ n) * 10 ^ Suc (length out)
        + (int (v mod 10) * 10 ^ length out + digits_val 10 out)"
      using ih(6) l val [OF False] o by simp
    also have "\<dots> = int (v mod 10 ^ Suc n) * 10 ^ length out + digits_val 10 out"
      unfolding m by (simp add: algebra_simps)
    finally show ?thesis using w ih(2) l o by simp
  qed
qed

definition unit_word :: "string \<Rightarrow> bool" where
  "unit_word u = (u \<noteq> [] \<and> list_all (\<lambda>c. \<not> number_char c) u)"

lemma unit_word_split:
  assumes "unit_word u" "r = [] \<or> number_char (hd r)"
  shows "takeWhile (\<lambda>c. \<not> number_char c) (u @ r) = u" "dropWhile (\<lambda>c. \<not> number_char c) (u @ r) = r"
proof -
  have "\<forall>c \<in> set u. \<not> number_char c" using assms(1) by (auto simp: unit_word_def list_all_iff)
  then show "takeWhile (\<lambda>c. \<not> number_char c) (u @ r) = u" "dropWhile (\<lambda>c. \<not> number_char c) (u @ r) = r"
    using assms(2) by (cases r; simp)+
qed

lemma scale_fraction_exact:
  assumes "int f * 10 ^ (prec - k) = int m" "m < 10 ^ prec" "k \<le> prec" "prec \<le> 9"
  shows "scale_fraction (int f) (Finite (10 ^ k)) (10 ^ prec) = int m"
proof -
  have p: "(10::nat) ^ prec \<le> 10 ^ 9" using assms(4) by (intro power_increasing) auto
  have le: "(10::nat) ^ (prec - k) \<le> 10 ^ 9" using assms(4) by (intro power_increasing) auto
  have fm: "f * 10 ^ (prec - k) = m"
    using assms(1) by (metis of_nat_eq_iff of_nat_mult of_nat_numeral of_nat_power)
  have "f \<le> m" using fm by (metis One_nat_def Suc_leI mult.right_neutral mult_le_mono2 zero_less_numeral zero_less_power)
  then have f: "f \<le> 2 ^ 53" and m: "m \<le> 2 ^ 53" using assms(2) p by simp_all
  have q: "(10::rat) ^ prec / 10 ^ k = of_nat (10 ^ (prec - k))" 
  proof -
    have "(10::rat) ^ prec = 10 ^ (prec - k) * 10 ^ k" using assms(3) by (simp add: power_add [symmetric])
    then show ?thesis by simp
  qed
  have u: "round64 (of_int (10 ^ prec)) = Finite (10 ^ prec)" using round64_of_nat [of "10 ^ prec"] p by simp
  have d: "fdiv (round64 (of_int (10 ^ prec))) (Finite (10 ^ k)) = Finite (of_nat (10 ^ (prec - k)))"
    unfolding u using round64_of_nat [of "10 ^ (prec - k)"] le by (simp add: q del: of_nat_power)
  have "round64 (of_int (int f)) = Finite (of_nat f)" using round64_of_nat [OF f] by simp
  moreover have "of_nat f * of_nat (10 ^ (prec - k)) = (of_nat m :: rat)" unfolding fm [symmetric] by simp
  ultimately have "fmul (round64 (of_int (int f))) (Finite (of_nat (10 ^ (prec - k)))) = Finite (of_nat m)"
    using round64_of_nat [OF m] by (simp del: of_nat_power of_nat_mult)
  then show ?thesis unfolding scale_fraction_def d by simp
qed


lemma parse_groupI:
  assumes "s \<noteq> []" "number_char (hd s)" "leadingInt 0 s = Some (v, r)" "length r \<noteq> length s"
    and "parse_fraction r = (f, scale, u @ rest, post)" "unit_word u" "rest = [] \<or> number_char (hd rest)"
    and "unit_of u = Some n" "\<not> 2 ^ 63 div n < v"
    and "v * n + (if 0 < f then scale_fraction f scale n else 0) = w" "\<not> 2 ^ 63 < w"
  shows "parse_group s = Some (w, rest)"
proof -
  have "u \<noteq> []" using assms(6) by (simp add: unit_word_def)
  then show ?thesis
    using assms unfolding parse_group_def by (simp add: unit_word_split [OF assms(6,7)] Let_def)
qed

lemma parse_group_whole:
  assumes "unit_of u = Some n" "unit_word u" "r = [] \<or> number_char (hd r)" "0 < n" "int w * n < 2 ^ 63"
  shows "parse_group (nat_digits w @ u @ r) = Some (int w * n, r)"
proof -
  have nd: "list_all is_digit (nat_digits w)" "digits_val 10 (nat_digits w) = int w" "nat_digits w \<noteq> []"
    using nat_digits_correct [of w] by auto
  obtain c u' where u: "u = c # u'" "\<not> number_char c" using assms(2) by (cases u) (auto simp: unit_word_def)
  then have ur: "u @ r \<noteq> []" "\<not> is_digit (hd (u @ r))" "hd (u @ r) \<noteq> CHR ''.''" by (auto simp: number_char_def)
  have w: "int w \<le> int w * n" using assms(4) by (simp add: mult_le_cancel_left1)
  then have li: "leadingInt 0 (nat_digits w @ u @ r) = Some (int w, u @ r)"
    using leadingInt_digits [OF nd(1), of "u @ r" 0] nd(2) ur assms(5) by simp
  have hd: "number_char (hd (nat_digits w @ u @ r))"
    using nd(1,3) by (cases "nat_digits w") (auto simp: number_char_def)
  have fr: "parse_fraction (u @ r) = (0, Finite 1, u @ r, False)" using ur by (simp add: parse_fraction_def)
  have "int w * n div n \<le> 2 ^ 63 div n" using assms(4,5) by (intro zdiv_mono1) auto
  then have dv: "\<not> 2 ^ 63 div n < int w" using assms(4) by simp
  show ?thesis
    by (rule parse_groupI [OF _ hd li _ fr assms(2,3,1) dv]) (use nd(3) assms(5) in simp_all)
qed

lemma parse_group_unit:
  assumes "fmtFrac v prec = (fr, w)" "unit_of u = Some (10 ^ prec)" "unit_word u" "prec \<le> 9"
    and "r = [] \<or> number_char (hd r)"
    and "int x * 10 ^ prec + int (v mod 10 ^ prec) < 2 ^ 63"
  shows "parse_group (nat_digits x @ fr @ u @ r) = Some (int x * 10 ^ prec + int (v mod 10 ^ prec), r)"
proof -
  obtain ds where fd: "frac_digits prec v [] = (ds, w)" and fr: "fr = (if ds = [] then [] else CHR ''.'' # ds)"
    using assms(1) by (auto simp: fmtFrac_def split: prod.splits)
  have fv: "list_all is_digit ds" "length ds \<le> prec"
    and fm: "digits_val 10 ds * 10 ^ (prec - length ds) = int (v mod 10 ^ prec)"
    using frac_digits_value [OF fd] by auto
  show ?thesis
  proof (cases "ds = []")
    case True
    then have "int (v mod 10 ^ prec) = 0" using fm by simp
    then show ?thesis using parse_group_whole [OF assms(2,3,5), of x] True fr assms(6) by simp
  next
    case False
    have nd: "list_all is_digit (nat_digits x)" "digits_val 10 (nat_digits x) = int x" "nat_digits x \<noteq> []"
      using nat_digits_correct [of x] by auto
    obtain c u' where u: "u = c # u'" "\<not> number_char c" using assms(3) by (cases u) (auto simp: unit_word_def)
    then have ur: "\<not> is_digit (hd (u @ r))" by (auto simp: number_char_def)
    have "int x \<le> int x * 10 ^ prec" by (simp add: mult_le_cancel_left1)
    then have "int x \<le> 2 ^ 63" using assms(6) by linarith
    then have li: "leadingInt 0 (nat_digits x @ fr @ u @ r) = Some (int x, fr @ u @ r)"
      using leadingInt_digits [OF nd(1), of "fr @ u @ r" 0] nd(2) False fr by (simp add: is_digit_def)
    have hd: "number_char (hd (nat_digits x @ fr @ u @ r))"
      using nd(1,3) by (cases "nat_digits x") (auto simp: number_char_def)
    obtain f where f: "digits_val 10 ds = int f" using digits_val_ge [OF fv(1)] by (metis nonneg_int_cases)
    have lf: "leadingFraction 0 (Finite 1) False (ds @ u @ r) = (int f, Finite (10 ^ length ds), u @ r)"
      using leadingFraction_digits [OF fv(1), of "u @ r" 0 0] ur fv(2) assms(4) f by simp
    have pf: "parse_fraction (fr @ u @ r) = (int f, Finite (10 ^ length ds), u @ r, True)"
      using False fr by (simp add: parse_fraction_def lf)
    have sf: "(if 0 < int f then scale_fraction (int f) (Finite (10 ^ length ds)) (10 ^ prec) else 0)
        = int (v mod 10 ^ prec)"
      using scale_fraction_exact [of f prec "length ds" "v mod 10 ^ prec"] fm f fv(2) assms(4) by auto
    have "int x * 10 ^ prec div 10 ^ prec \<le> 2 ^ 63 div 10 ^ prec"
      using assms(6) by (intro zdiv_mono1) auto
    then have dv: "\<not> 2 ^ 63 div 10 ^ prec < int x" by simp
    show ?thesis
      by (rule parse_groupI [OF _ hd li _ pf assms(3,5,2) dv])
        (use nd(3) assms(6) sf in simp_all)
  qed
qed

lemma parse_groups_step:
  assumes "parse_group s = Some (w, r)" "s \<noteq> []" "d + w \<le> 2 ^ 63"
  shows "parse_groups d s = parse_groups (d + w) r"
  using assms by (simp add: parse_groups.simps [of d s])


lemma number_char_digits: "number_char (hd (nat_digits n @ s))"
  using nat_digits_correct [of n] by (cases "nat_digits n") (auto simp: number_char_def)

lemma number_char_hd_digits [simp]: "number_char (hd (nat_digits n))"
  using number_char_digits [of n "[]"] by simp

lemma nat_digits_not_Nil [simp]: "nat_digits n \<noteq> []"
  using nat_digits_correct [of n] by simp

lemma unit_words:
  "unit_word ''h''" "unit_word ''m''" "unit_word ''s''" "unit_word ''ms''" "unit_word ''ns''"
  "unit_word (micro_sign @ ''s'')"
  by (simp_all add: unit_word_def number_char_def is_digit_def less_eq_char_def micro_sign_def)

lemma fmtFrac_rest: "fmtFrac v prec = (fr, w) \<Longrightarrow> w = v div 10 ^ prec"
  using frac_digits_value [of prec v "[]"] by (auto simp: fmtFrac_def split: prod.splits)

lemma parse_groups_unit:
  assumes "fmtFrac v prec = (fr, w)" "unit_of u = Some (10 ^ prec)" "unit_word u" "prec \<le> 9"
    and "0 \<le> d" "d + (int x * 10 ^ prec + int (v mod 10 ^ prec)) < 2 ^ 63"
  shows "parse_groups d (nat_digits x @ fr @ u) = Some (d + (int x * 10 ^ prec + int (v mod 10 ^ prec)))"
proof -
  have "parse_group (nat_digits x @ fr @ u @ []) = Some (int x * 10 ^ prec + int (v mod 10 ^ prec), [])"
    using assms by (intro parse_group_unit) auto
  then show ?thesis
    using assms(6) by (subst parse_groups_step [of _ "int x * 10 ^ prec + int (v mod 10 ^ prec)" "[]"])
      (simp_all add: parse_groups.simps)
qed

lemma parse_groups_whole:
  assumes "unit_of u = Some n" "unit_word u" "0 < n" "0 \<le> d" "d + int w * n < 2 ^ 63" "r = [] \<or> number_char (hd r)"
  shows "parse_groups d (nat_digits w @ u @ r) = parse_groups (d + int w * n) r"
  using assms by (intro parse_groups_step parse_group_whole) auto

lemma parse_groups_fmt_unit:
  assumes "unit_of u = Some (10 ^ prec)" "unit_word u" "prec \<le> 9" "int v < 2 ^ 63"
  shows "parse_groups 0 (fmt_unit v prec u) = Some (int v)"
proof -
  obtain fr w where f: "fmtFrac v prec = (fr, w)" by (cases "fmtFrac v prec")
  have "int v = int (w * 10 ^ prec + v mod 10 ^ prec)"
    unfolding fmtFrac_rest [OF f] by (simp only: div_mult_mod_eq)
  also have "\<dots> = int w * 10 ^ prec + int (v mod 10 ^ prec)" by (simp only: of_nat_add of_nat_mult of_nat_power of_nat_numeral)
  finally have split: "0 + (int w * 10 ^ prec + int (v mod 10 ^ prec)) = int v" by simp
  have "parse_groups 0 (nat_digits w @ fr @ u) = Some (0 + (int w * 10 ^ prec + int (v mod 10 ^ prec)))"
    by (rule parse_groups_unit [OF f assms(1-3)]) (simp_all only: split assms(4) order_refl)
  then show ?thesis by (simp only: split fmt_unit_def f Let_def split_conv)
qed

lemma unit_of_clock [simp]:
  "unit_of ''h'' = Some 3600000000000" "unit_of ''m'' = Some 60000000000" "unit_of ''s'' = Some 1000000000"
  by (simp_all add: unit_of_def duration_units micro_sign_def)

text \<open>The clock form: hours, minutes and seconds add up to the number of nanoseconds.\<close>

lemma parse_groups_clock:
  assumes "int u < 2 ^ 63"
  shows "parse_groups 0 (fmt_clock u) = Some (int u)"
proof -
  obtain fr s where f: "fmtFrac u 9 = (fr, s)" by (cases "fmtFrac u 9")
  define h where "h = s div 60 div 60"
  define m where "m = s div 60 mod 60"
  define k where "k = s mod 60"
  define n where "n = int k * 10 ^ 9 + int (u mod 10 ^ 9)"
  have "s div 60 = h * 60 + m" unfolding h_def m_def by (rule div_mult_mod_eq [symmetric])
  then have "s = (h * 60 + m) * 60 + k" unfolding k_def by (metis div_mult_mod_eq)
  then have s: "int s = (int h * 60 + int m) * 60 + int k" by (metis of_nat_add of_nat_mult of_nat_numeral)
  have "int u = int (s * 10 ^ 9 + u mod 10 ^ 9)"
    unfolding fmtFrac_rest [OF f] by (simp only: div_mult_mod_eq)
  also have "\<dots> = int s * 10 ^ 9 + int (u mod 10 ^ 9)"
    by (simp only: of_nat_add of_nat_mult of_nat_power of_nat_numeral)
  finally have u: "int u = int h * 3600000000000 + int m * 60000000000 + n" unfolding n_def s by simp
  have n: "0 \<le> n" unfolding n_def by simp
  have sec: "parse_groups d (nat_digits k @ fr @ ''s'') = Some (d + n)" if "0 \<le> d" "d + n < 2 ^ 63" for d
    unfolding n_def by (rule parse_groups_unit [OF f]) (use that in \<open>simp_all add: unit_words n_def\<close>)
  have min: "parse_groups d (nat_digits m @ ''m'' @ nat_digits k @ fr @ ''s'') = Some (d + int m * 60000000000 + n)"
    if d: "0 \<le> d" "d + int m * 60000000000 + n < 2 ^ 63" for d
  proof -
    have "parse_groups d (nat_digits m @ ''m'' @ nat_digits k @ fr @ ''s'')
        = parse_groups (d + int m * 60000000000) (nat_digits k @ fr @ ''s'')"
      by (rule parse_groups_whole) (use d n in \<open>simp_all add: unit_words number_char_digits\<close>)
    also have "\<dots> = Some (d + int m * 60000000000 + n)" by (rule sec) (use d in simp_all)
    finally show ?thesis .
  qed
  have hr: "parse_groups 0 (nat_digits h @ ''h'' @ nat_digits m @ ''m'' @ nat_digits k @ fr @ ''s'') = Some (int u)"
  proof -
    have "parse_groups 0 (nat_digits h @ ''h'' @ nat_digits m @ ''m'' @ nat_digits k @ fr @ ''s'')
        = parse_groups (0 + int h * 3600000000000) (nat_digits m @ ''m'' @ nat_digits k @ fr @ ''s'')"
      by (rule parse_groups_whole) (use u assms n in \<open>simp_all add: unit_words number_char_digits\<close>)
    also have "\<dots> = Some (0 + int h * 3600000000000 + int m * 60000000000 + n)"
      by (rule min) (use u assms in simp_all)
    finally show ?thesis using u by simp
  qed
  have clock: "fmt_clock u = (if 0 < s div 60 then (if 0 < h then nat_digits h @ ''h'' else []) @ nat_digits m @ ''m'' else [])
      @ nat_digits k @ fr @ ''s''"
    by (simp only: fmt_clock_def f Let_def h_def m_def k_def split_conv)
  consider "s div 60 = 0" | "s div 60 \<noteq> 0" "h = 0" | "s div 60 \<noteq> 0" "h \<noteq> 0" by blast
  then show ?thesis
  proof cases
    case 1
    then have "h = 0" "m = 0" by (simp_all add: h_def m_def)
    then show ?thesis using 1 sec [of 0] u assms unfolding clock by simp
  next
    case 2
    then show ?thesis using min [of 0] u assms unfolding clock by simp
  next
    case 3
    then show ?thesis using hr unfolding clock by simp
  qed
qed

lemma nat_digits_0: "nat_digits 0 = ''0''"
  by code_simp

lemma unit_of_small:
  "unit_of ''ns'' = Some (10 ^ 0)" "unit_of (micro_sign @ ''s'') = Some (10 ^ 3)" "unit_of ''ms'' = Some (10 ^ 6)"
  by (simp_all add: unit_of_def duration_units micro_sign_def)

lemma parse_groups_body:
  assumes "int u < 2 ^ 63"
  shows "parse_groups 0 (duration_body u) = Some (int u)"
proof -
  have z: "''0s'' = fmt_unit 0 9 ''s''"
    by code_simp
  have "unit_of ''s'' = Some (10 ^ 9)" by simp
  then have "parse_groups 0 (fmt_unit 0 9 ''s'') = Some (int 0)"
    by (rule parse_groups_fmt_unit) (simp_all add: unit_words)
  then have "parse_groups 0 ''0s'' = Some (int 0)" unfolding z .
  moreover have "parse_groups 0 (fmt_unit u 0 ''ns'') = Some (int u)"
    by (rule parse_groups_fmt_unit [OF unit_of_small(1)]) (use assms in \<open>simp_all add: unit_words\<close>)
  moreover have "parse_groups 0 (fmt_unit u 3 (micro_sign @ ''s'')) = Some (int u)"
    by (rule parse_groups_fmt_unit [OF unit_of_small(2)]) (use assms in \<open>simp_all add: unit_words\<close>)
  moreover have "parse_groups 0 (fmt_unit u 6 ''ms'') = Some (int u)"
    by (rule parse_groups_fmt_unit [OF unit_of_small(3)]) (use assms in \<open>simp_all add: unit_words\<close>)
  ultimately show ?thesis using parse_groups_clock [OF assms] unfolding duration_body_def by auto
qed

lemma duration_body_shape: "\<exists>w x. duration_body u = nat_digits w @ x \<and> x \<noteq> []"
proof -
  have unit: "\<exists>w x. fmt_unit v p n = nat_digits w @ x \<and> x \<noteq> []" if "n \<noteq> []" for v p n
    unfolding fmt_unit_def Let_def using that
    by (cases "fmtFrac v p") (metis append_is_Nil_conv case_prod_conv)
  have clock: "\<exists>w x. fmt_clock u = nat_digits w @ x \<and> x \<noteq> []"
  proof -
    obtain fr s where f: "fmtFrac u 9 = (fr, s)" by (cases "fmtFrac u 9")
    consider "s div 60 = 0" | "s div 60 \<noteq> 0" "s div 60 div 60 = 0" | "s div 60 \<noteq> 0" "s div 60 div 60 \<noteq> 0" by blast
    then show ?thesis
    proof cases
      case 1
      then show ?thesis unfolding fmt_clock_def f
        by (intro exI [of _ "s mod 60"] exI [of _ "fr @ ''s''"]) (simp add: Let_def)
    next
      case 2
      then show ?thesis unfolding fmt_clock_def f
        by (intro exI [of _ "s div 60 mod 60"] exI [of _ "''m'' @ nat_digits (s mod 60) @ fr @ ''s''"])
          (simp add: Let_def)
    next
      case 3
      then show ?thesis unfolding fmt_clock_def f
        by (intro exI [of _ "s div 60 div 60"]
            exI [of _ "''h'' @ nat_digits (s div 60 mod 60) @ ''m'' @ nat_digits (s mod 60) @ fr @ ''s''"])
          (simp add: Let_def)
    qed
  qed
  have "\<exists>w x. ''0s'' = nat_digits w @ x \<and> x \<noteq> []"
    by (intro exI [of _ 0] exI [of _ "''s''"]) (simp add: nat_digits_0)
  then show ?thesis using unit clock unfolding duration_body_def by simp
qed

text \<open>Every duration of the 64-bit range but the least is read back from its printed form.\<close>

lemma ParseDuration_String:
  assumes "- (2 ^ 63) < d" "d < 2 ^ 63"
  shows "ParseDuration (Duration_String d) = Some d"
proof -
  define u where "u = nat \<bar>d\<bar>"
  obtain w x where shape: "duration_body u = nat_digits w @ x" "x \<noteq> []" using duration_body_shape by blast
  have ne: "duration_body u \<noteq> []" using shape by simp
  have zero: "duration_body u \<noteq> ''0''"
  proof
    assume "duration_body u = ''0''"
    then have "length (nat_digits w) + length x = 1" using shape(1) by (metis One_nat_def length_append list.size(3,4) add_0 plus_1_eq_Suc)
    then show False using shape(2) nat_digits_not_Nil [of w] by (cases x; cases "nat_digits w") auto
  qed
  have "number_char (hd (duration_body u))" unfolding shape(1) by (rule number_char_digits)
  then have hd: "hd (duration_body u) \<noteq> CHR ''-''" "hd (duration_body u) \<noteq> CHR ''+''"
    by (auto simp: number_char_def is_digit_def less_eq_char_def)
  have "int u < 2 ^ 63" using assms by (simp add: u_def)
  note g = parse_groups_body [OF this]
  have str: "Duration_String d = (if d < 0 then CHR ''-'' # duration_body u else duration_body u)"
    by (simp only: Duration_String_def u_def)
  show ?thesis
  proof (cases "d < 0")
    case True
    then show ?thesis using ne zero g unfolding str by (simp add: ParseDuration_def u_def)
  next
    case False
    then have "\<not> 2 ^ 63 - 1 < int u" "int u = d" using assms by (simp_all add: u_def)
    then show ?thesis using False ne zero g hd unfolding str by (simp add: ParseDuration_def)
  qed
qed


text \<open>A whole number of a unit, as configurations write durations.\<close>

lemma ParseDuration_whole:
  assumes "unit_of u = Some n" "unit_word u" "0 < n" "int w * n < 2 ^ 63"
  shows "ParseDuration (nat_digits w @ u) = Some (int w * n)"
proof -
  have "parse_groups 0 (nat_digits w @ u @ []) = parse_groups (0 + int w * n) []"
    using assms by (intro parse_groups_whole) auto
  then have g: "parse_groups 0 (nat_digits w @ u) = Some (int w * n)" by (simp add: parse_groups.simps)
  have "number_char (hd (nat_digits w @ u))" by (rule number_char_digits)
  then have hd: "hd (nat_digits w @ u) \<noteq> CHR ''-''" "hd (nat_digits w @ u) \<noteq> CHR ''+''"
    by (auto simp: number_char_def is_digit_def less_eq_char_def)
  have "u \<noteq> []" using assms(2) by (simp add: unit_word_def)
  then have "length (nat_digits w @ u) \<noteq> 1" by (cases u; cases "nat_digits w") auto
  then have "nat_digits w @ u \<noteq> ''0''" by (metis length_Cons list.size(3) One_nat_def)
  moreover have "\<not> 2 ^ 63 - 1 < int w * n" using assms(4) by simp
  ultimately show ?thesis using g hd by (simp add: ParseDuration_def)
qed

end
