(* ===== verification/Reaper.thy ===== *)
theory Reaper
  imports Go_Prelude
begin

text \<open>
  The registry of \<open>internal/reaper/reaper.go\<close> that hands the exit status of a forked probe from the
  reap loop to the goroutine that forked it. A status channel is a position in \<open>chans\<close>, holding the
  values sent and not yet received; its capacity is one. Every method runs under the lock, so it is
  one atomic step; \<^const>\<open>None\<close> stands for a send that would block with the lock held. \<open>wakes\<close>
  counts the calls of the wake function and \<open>received\<close> is the history of the receives.

  The lemmas show that no send blocks and that a channel gets the exit code of its own child, once,
  whatever the order of forks, exits and cancellations, also when the kernel reuses a pid.
\<close>

section \<open>State and operations\<close>

record registry =
  waiters :: "(int \<times> nat) list"
  chans :: "int list list"
  wakes :: nat
  has_wake :: bool
  active :: bool
  received :: "(nat \<times> int) list"

definition New_registry :: "bool \<Rightarrow> registry" where
  "New_registry wake =
     \<lparr>waiters = [], chans = [], wakes = 0, has_wake = wake, active = False, received = []\<rparr>"

definition Activate :: "registry \<Rightarrow> registry" where
  "Activate r = r\<lparr>active := True\<rparr>"

definition Active :: "registry \<Rightarrow> bool" where
  "Active r = active r"

text \<open>\<open>Start\<close>: the argument is what \<open>fork()\<close> returns, an error or a pid.\<close>

definition Start :: "'e + int \<Rightarrow> registry \<Rightarrow> registry \<times> ('e + int \<times> nat)" where
  "Start fork r =
     (case fork of
        Inl e \<Rightarrow> (r, Inl e)
      | Inr pid \<Rightarrow>
          let status = length (chans r);
              r' = r\<lparr>chans := chans r @ [[]], waiters := AList.update pid status (waiters r)\<rparr>
          in (if has_wake r' then r'\<lparr>wakes := wakes r' + 1\<rparr> else r', Inr (pid, status)))"

definition send :: "nat \<Rightarrow> int \<Rightarrow> registry \<Rightarrow> registry option" where
  "send status code r =
     (if length (chans r ! status) < 1
      then Some (r\<lparr>chans := (chans r)[status := chans r ! status @ [code]]\<rparr>)
      else None)"

definition Deliver :: "int \<Rightarrow> int \<Rightarrow> registry \<Rightarrow> (registry \<times> bool) option" where
  "Deliver pid code r =
     (case map_of (waiters r) pid of
        None \<Rightarrow> Some (r, False)
      | Some status \<Rightarrow>
          map_option (\<lambda>r'. (r', True)) (send status code (r\<lparr>waiters := AList.delete pid (waiters r)\<rparr>)))"

definition Forget :: "int \<Rightarrow> registry \<Rightarrow> registry" where
  "Forget pid r = r\<lparr>waiters := AList.delete pid (waiters r)\<rparr>"

text \<open>The receive of the waiting goroutine, when a value is there.\<close>

definition receive :: "nat \<Rightarrow> registry \<Rightarrow> registry" where
  "receive status r =
     (if status < length (chans r) \<and> chans r ! status \<noteq> []
      then r\<lparr>chans := (chans r)[status := tl (chans r ! status)],
             received := received r @ [(status, hd (chans r ! status))]\<rparr>
      else r)"

section \<open>Runs\<close>

datatype reg_op =
  Op_Start "unit + int"
| Op_Deliver int int
| Op_Forget int
| Op_Receive nat
| Op_Activate

fun reg_step :: "reg_op \<Rightarrow> registry \<Rightarrow> registry option" where
  "reg_step (Op_Start fork) r = Some (fst (Start fork r))"
| "reg_step (Op_Deliver pid code) r = map_option fst (Deliver pid code r)"
| "reg_step (Op_Forget pid) r = Some (Forget pid r)"
| "reg_step (Op_Receive status) r = Some (receive status r)"
| "reg_step Op_Activate r = Some (Activate r)"

fun run_ops :: "reg_op list \<Rightarrow> registry \<Rightarrow> registry option" where
  "run_ops [] r = Some r"
| "run_ops (op # ops) r = Option.bind (reg_step op r) (run_ops ops)"

text \<open>Everything ever sent on a channel: what was received from it, then what it still holds.\<close>

definition sent :: "nat \<Rightarrow> registry \<Rightarrow> int list" where
  "sent c r = map snd (filter (\<lambda>x. fst x = c) (received r)) @ chans r ! c"

text \<open>
  What a run should do: the child of the \<open>c\<close>-th successful fork and the operations after it; whether
  its pid is still waited for; and the first exit code reaped for it while it is.
\<close>

fun forked :: "reg_op \<Rightarrow> int option" where
  "forked (Op_Start (Inr pid)) = Some pid" | "forked _ = None"

fun nth_start :: "nat \<Rightarrow> reg_op list \<Rightarrow> (int \<times> reg_op list) option" where
  "nth_start c [] = None"
| "nth_start c (op # ops) =
     (case forked op of
        None \<Rightarrow> nth_start c ops
      | Some pid \<Rightarrow> if c = 0 then Some (pid, ops) else nth_start (c - 1) ops)"

fun ends_wait :: "int \<Rightarrow> reg_op \<Rightarrow> bool" where
  "ends_wait pid (Op_Start (Inr p)) = (p = pid)"
| "ends_wait pid (Op_Deliver p code) = (p = pid)"
| "ends_wait pid (Op_Forget p) = (p = pid)"
| "ends_wait pid op = False"

fun first_code :: "int \<Rightarrow> reg_op list \<Rightarrow> int list" where
  "first_code pid [] = []"
| "first_code pid (op # ops) =
     (if ends_wait pid op then (case op of Op_Deliver p code \<Rightarrow> [code] | _ \<Rightarrow> []) else first_code pid ops)"

definition forks :: "reg_op list \<Rightarrow> nat" where
  "forks ops = length (filter (\<lambda>op. forked op \<noteq> None) ops)"

definition waiting :: "int \<Rightarrow> reg_op list \<Rightarrow> bool" where
  "waiting pid ops = list_all (\<lambda>op. \<not> ends_wait pid op) ops"

section \<open>Exactly one delivery\<close>

lemma run_ops_snoc: "run_ops (ops @ [op]) r = Option.bind (run_ops ops r) (reg_step op)"
  by (induction ops arbitrary: r) (auto split: Option.bind_split)

lemma forks_simps [simp]:
  "forks [] = 0" "forks (op # ops) = (if forked op = None then forks ops else Suc (forks ops))"
  "forks (ops @ ops') = forks ops + forks ops'"
  by (simp_all add: forks_def)

lemma nth_start_None: "nth_start c ops = None \<longleftrightarrow> forks ops \<le> c"
  by (induction c ops rule: nth_start.induct) (auto split: option.splits)

lemma nth_start_snoc:
  "nth_start c (ops @ [op]) =
     (case nth_start c ops of
        Some (pid, rest) \<Rightarrow> Some (pid, rest @ [op])
      | None \<Rightarrow> if c = forks ops then map_option (\<lambda>pid. (pid, [])) (forked op) else None)"
proof (induction c ops rule: nth_start.induct)
  case (1 c)
  then show ?case by (auto split: option.splits)
next
  case (2 c op' ops)
  then show ?case by (cases "forked op'"; cases c) auto
qed

lemma first_code_snoc:
  "first_code pid (ops @ [op]) =
     (if waiting pid ops then (if ends_wait pid op then (case op of Op_Deliver p code \<Rightarrow> [code] | _ \<Rightarrow> []) else [])
      else first_code pid ops)"
  by (induction ops) (auto simp: waiting_def)

lemma first_code_waiting: "waiting pid ops \<Longrightarrow> first_code pid ops = []"
  by (induction ops) (auto simp: waiting_def)

lemma waiting_snoc: "waiting pid (ops @ [op]) \<longleftrightarrow> waiting pid ops \<and> \<not> ends_wait pid op"
  by (simp add: waiting_def)

text \<open>What holds between the operations done so far and the state they lead to.\<close>

definition matches :: "reg_op list \<Rightarrow> registry \<Rightarrow> bool" where
  "matches ops r =
     (length (chans r) = forks ops \<and>
      (\<forall>x \<in> set (received r). fst x < forks ops) \<and>
      (\<forall>c pid rest. nth_start c ops = Some (pid, rest) \<longrightarrow>
         sent c r = first_code pid rest \<and> (map_of (waiters r) pid = Some c) = waiting pid rest) \<and>
      (\<forall>pid c. map_of (waiters r) pid = Some c \<longrightarrow> (\<exists>rest. nth_start c ops = Some (pid, rest))))"


lemma matches_New: "matches [] (New_registry w)"
  by (simp add: matches_def New_registry_def)

lemma matchesD:
  assumes "matches ops r"
  shows "length (chans r) = forks ops" "x \<in> set (received r) \<Longrightarrow> fst x < forks ops"
    "nth_start c ops = Some (pid, rest) \<Longrightarrow> sent c r = first_code pid rest"
    "nth_start c ops = Some (pid, rest) \<Longrightarrow> (map_of (waiters r) pid = Some c) = waiting pid rest"
    "map_of (waiters r) pid = Some c \<Longrightarrow> \<exists>rest. nth_start c ops = Some (pid, rest)"
  using assms unfolding matches_def by blast+

lemma nth_start_lt: "nth_start c ops = Some x \<Longrightarrow> c < forks ops"
  using nth_start_None [of c ops] by auto

text \<open>An operation that forks nothing keeps the children; only those that still wait can change.\<close>

lemma matches_no_fork:
  assumes m: "matches ops r" and f: "forked op = None"
    and len: "length (chans r') = length (chans r)" and rec: "\<And>x. x \<in> set (received r') \<Longrightarrow> fst x < forks ops"
    and same: "\<And>c pid rest. nth_start c ops = Some (pid, rest) \<Longrightarrow> \<not> (waiting pid rest \<and> ends_wait pid op) \<Longrightarrow>
      sent c r' = sent c r \<and> (map_of (waiters r') pid = Some c) = (map_of (waiters r) pid = Some c)"
    and ended: "\<And>c pid rest. nth_start c ops = Some (pid, rest) \<Longrightarrow> waiting pid rest \<Longrightarrow> ends_wait pid op \<Longrightarrow>
      sent c r' = (case op of Op_Deliver p code \<Rightarrow> [code] | _ \<Rightarrow> []) \<and> map_of (waiters r') pid \<noteq> Some c"
    and sub: "\<And>pid c. map_of (waiters r') pid = Some c \<Longrightarrow> map_of (waiters r) pid = Some c"
  shows "matches (ops @ [op]) r'"
proof -
  note d = matchesD [OF m]
  have nth: "nth_start c (ops @ [op]) = map_option (\<lambda>(pid, rest). (pid, rest @ [op])) (nth_start c ops)" for c
    using f by (simp add: nth_start_snoc split: option.splits)
  have child: "sent c r' = first_code pid rest' \<and> (map_of (waiters r') pid = Some c) = waiting pid rest'"
    if "nth_start c (ops @ [op]) = Some (pid, rest')" for c pid rest'
  proof -
    from that obtain rest where rest: "nth_start c ops = Some (pid, rest)" "rest' = rest @ [op]" by (auto simp: nth)
    show ?thesis
    proof (cases "waiting pid rest \<and> ends_wait pid op")
      case True
      then show ?thesis using ended [OF rest(1)] by (simp add: rest(2) first_code_snoc waiting_snoc)
    next
      case False
      then have "sent c r' = first_code pid rest" "(map_of (waiters r') pid = Some c) = waiting pid rest"
        using same [OF rest(1)] d(3,4) [OF rest(1)] by simp_all
      then show ?thesis using False first_code_waiting [of pid rest]
        by (auto simp: rest(2) first_code_snoc waiting_snoc)
    qed
  qed
  show ?thesis
    unfolding matches_def using child len d(1) rec f sub d(5) by (fastforce simp: nth)
qed

lemma matches_Start:
  assumes m: "matches ops r"
  shows "matches (ops @ [Op_Start (Inr pid)]) (fst (Start (Inr pid :: unit + int) r))"
proof -
  note d = matchesD [OF m]
  define n where "n = forks ops"
  define r' where "r' = fst (Start (Inr pid :: unit + int) r)"
  have r': "chans r' = chans r @ [[]]" "received r' = received r" "map_of (waiters r') = (map_of (waiters r))(pid \<mapsto> n)"
    using d(1) by (simp_all add: r'_def Start_def Let_def n_def)
  have old: "sent c r' = sent c r" if "c < n" for c
    using that d(1) r' by (simp add: sent_def nth_append n_def)
  have new: "sent n r' = []"
  proof -
    have "\<forall>x \<in> set (received r). fst x \<noteq> n" using d(2) unfolding n_def by fastforce
    then show ?thesis using d(1) r' by (simp add: sent_def n_def nth_append filter_empty_conv)
  qed
  have nn: "nth_start n ops = None" by (simp add: nth_start_None n_def)
  have child: "sent c r' = first_code p rest' \<and> (map_of (waiters r') p = Some c) = waiting p rest'"
    if c: "nth_start c (ops @ [Op_Start (Inr pid)]) = Some (p, rest')" for c p rest'
  proof (cases "nth_start c ops")
    case None
    then have "c = n" "p = pid" "rest' = []" using c by (auto simp: nth_start_snoc n_def split: if_splits)
    then show ?thesis using new r'(3) by (simp add: waiting_def)
  next
    case (Some x)
    then obtain rest where rest: "nth_start c ops = Some (p, rest)" "rest' = rest @ [Op_Start (Inr pid)]"
      using c by (cases x) (auto simp: nth_start_snoc)
    have "c < n" using nth_start_lt [OF rest(1)] by (simp add: n_def)
    then show ?thesis
      using d(3,4) [OF rest(1)] old [of c] r'(3) first_code_waiting [of p rest]
      by (auto simp: rest(2) first_code_snoc waiting_snoc)
  qed
  have orig: "\<exists>rest. nth_start c (ops @ [Op_Start (Inr pid)]) = Some (p, rest)"
    if "map_of (waiters r') p = Some c" for p c
    using that d(5) [of p c] nn by (auto simp: r'(3) nth_start_snoc n_def split: if_splits)
  have "length (chans r') = forks (ops @ [Op_Start (Inr pid)])" using d(1) r'(1) by simp
  moreover have "\<forall>x \<in> set (received r'). fst x < forks (ops @ [Op_Start (Inr pid)])"
    using d(2) r'(2) by (fastforce simp: less_Suc_eq)
  ultimately have "matches (ops @ [Op_Start (Inr pid)]) r'" unfolding matches_def using child orig by blast
  then show ?thesis unfolding r'_def .
qed

lemma matches_Deliver:
  assumes m: "matches ops r"
  shows "\<exists>r' b. Deliver pid code r = Some (r', b) \<and> matches (ops @ [Op_Deliver pid code]) r'"
proof (cases "map_of (waiters r) pid")
  case None
  have "\<not> waiting pid rest" if "nth_start c ops = Some (pid, rest)" for c rest
    using matchesD(4) [OF m that] None by simp
  then have "matches (ops @ [Op_Deliver pid code]) r"
    by (intro matches_no_fork [OF m]) (use matchesD(2) [OF m] in auto)
  then show ?thesis using None by (auto simp: Deliver_def)
next
  case (Some status)
  note d = matchesD [OF m]
  from d(5) [OF Some] obtain rest where rest: "nth_start status ops = Some (pid, rest)" by blast
  have w: "waiting pid rest" using d(4) [OF rest] Some by simp
  have "sent status r = []" using d(3) [OF rest] first_code_waiting [OF w] by simp
  then have empty: "chans r ! status = []" and norec: "filter (\<lambda>x. fst x = status) (received r) = []"
    by (simp_all add: sent_def)
  have lt: "status < length (chans r)" using nth_start_lt [OF rest] d(1) by simp
  define r' where "r' = r\<lparr>waiters := AList.delete pid (waiters r), chans := (chans r)[status := [code]]\<rparr>"
  have del: "Deliver pid code r = Some (r', True)"
    using Some empty by (simp add: Deliver_def send_def r'_def)
  have sent: "sent c r' = (if c = status then [code] else sent c r)" for c
    using lt norec by (simp add: sent_def r'_def)
  have "matches (ops @ [Op_Deliver pid code]) r'"
  proof (rule matches_no_fork [OF m])
    fix c p rest'
    assume c: "nth_start c ops = Some (p, rest')" "\<not> (waiting p rest' \<and> ends_wait p (Op_Deliver pid code))"
    have "c \<noteq> status" using c rest w by auto
    moreover have "(map_of (waiters r') p = Some c) = (map_of (waiters r) p = Some c)"
      using calculation c Some by (auto simp: r'_def)
    ultimately show "sent c r' = sent c r \<and> (map_of (waiters r') p = Some c) = (map_of (waiters r) p = Some c)"
      by (simp add: sent)
  next
    fix c p rest'
    assume c: "nth_start c ops = Some (p, rest')" "waiting p rest'" "ends_wait p (Op_Deliver pid code)"
    then have "c = status" using d(4) [OF c(1)] Some by simp
    then show "sent c r' = (case Op_Deliver pid code of Op_Deliver p code \<Rightarrow> [code] | _ \<Rightarrow> [])
        \<and> map_of (waiters r') p \<noteq> Some c"
      using c sent [of c] by (simp, simp add: r'_def)
  qed (use d(2) in \<open>auto simp: r'_def split: if_splits\<close>)
  then show ?thesis using del by blast
qed

lemma sent_other: "sent c (Forget pid r) = sent c r" "sent c (Activate r) = sent c r"
  by (simp_all add: sent_def Forget_def Activate_def)

lemma sent_receive: "sent c (receive st r) = sent c r"
  by (cases "chans r ! st") (auto simp: receive_def sent_def nth_list_update)

lemma matches_step:
  assumes m: "matches ops r"
  shows "\<exists>r'. reg_step op r = Some r' \<and> matches (ops @ [op]) r'"
proof (cases op)
  case (Op_Start fork)
  show ?thesis
  proof (cases fork)
    case (Inl e)
    have "matches (ops @ [op]) r"
      by (rule matches_no_fork [OF m]) (use Inl Op_Start matchesD [OF m] in auto)
    then show ?thesis using Inl Op_Start by (simp add: Start_def)
  next
    case (Inr pid)
    then show ?thesis using Op_Start matches_Start [OF m] by simp
  qed
next
  case (Op_Deliver pid code)
  then show ?thesis using matches_Deliver [OF m, of pid code] by auto
next
  case (Op_Forget pid)
  note d = matchesD [OF m]
  have "sent c r = []" if "nth_start c ops = Some (pid, rest)" "waiting pid rest" for c rest
    using d(3) [OF that(1)] first_code_waiting [OF that(2)] by simp
  then have "matches (ops @ [op]) (Forget pid r)"
    by (intro matches_no_fork [OF m])
      (use Op_Forget d(2,4) in \<open>auto simp: sent_other\<close>, auto simp: Forget_def split: if_splits)
  then show ?thesis using Op_Forget by simp
next
  case (Op_Receive st)
  note d = matchesD [OF m]
  have "matches (ops @ [op]) (receive st r)"
    by (rule matches_no_fork [OF m])
      (use Op_Receive d(1,2) in \<open>auto simp: sent_receive\<close>, auto simp: receive_def split: if_splits)
  then show ?thesis using Op_Receive by simp
next
  case Op_Activate
  have "matches (ops @ [op]) (Activate r)"
    by (rule matches_no_fork [OF m])
      (use Op_Activate matchesD(2) [OF m] in \<open>auto simp: sent_other\<close>, auto simp: Activate_def)
  then show ?thesis using Op_Activate by simp
qed

lemma run_matches: "\<exists>r. run_ops ops (New_registry w) = Some r \<and> matches ops r"
proof (induction ops rule: rev_induct)
  case Nil
  then show ?case by (simp add: matches_New)
next
  case (snoc op ops)
  then obtain r where "run_ops ops (New_registry w) = Some r" "matches ops r" by blast
  with matches_step [of ops r op] show ?case by (auto simp: run_ops_snoc)
qed

lemma run_ops_append: "run_ops (xs @ ys) r = Option.bind (run_ops xs r) (run_ops ys)"
  by (induction xs arbitrary: r) (auto split: Option.bind_split)

lemma received_step:
  "reg_step op r = Some r' \<Longrightarrow> op \<noteq> Op_Receive c \<Longrightarrow>
     filter (\<lambda>x. fst x = c) (received r') = filter (\<lambda>x. fst x = c) (received r)"
  by (cases op)
    (auto simp: Start_def Deliver_def send_def Forget_def receive_def Activate_def Let_def
      split: sum.splits option.splits if_splits)

lemma received_run:
  "run_ops ops r = Some r' \<Longrightarrow> Op_Receive c \<notin> set ops \<Longrightarrow>
     filter (\<lambda>x. fst x = c) (received r') = filter (\<lambda>x. fst x = c) (received r)"
  by (induction ops arbitrary: r) (auto simp: received_step split: Option.bind_splits)

lemma first_code_deliver: "waiting pid xs \<Longrightarrow> first_code pid (xs @ Op_Deliver pid code # ys) = [code]"
  by (induction xs) (auto simp: waiting_def)

text \<open>
  The channel of a new child, when nobody else receives from it, holds the exit code reaped first.
\<close>

lemma delivered_status:
  assumes run0: "run_ops ops0 (New_registry w) = Some r" and st: "Start (Inr pid :: unit + int) r = (r1, Inr (pid', c))"
    and w: "waiting pid xs" and rec: "Op_Receive c \<notin> set (xs @ Op_Deliver pid code # ys)"
  shows "\<exists>r2. run_ops (xs @ Op_Deliver pid code # ys) r1 = Some r2 \<and> chans r2 ! c = [code] \<and> pid' = pid"
proof -
  define ww where "ww = xs @ Op_Deliver pid code # ys"
  have m0: "matches ops0 r" using run_matches [of ops0 w] run0 by auto
  have c: "c = forks ops0" "pid' = pid" "r1 = fst (Start (Inr pid :: unit + int) r)" "received r1 = received r"
    using st matchesD(1) [OF m0] by (auto simp: Start_def Let_def)
  have step: "reg_step (Op_Start (Inr pid)) r = Some r1" using c(3) by simp
  obtain r2 where r2: "run_ops ((ops0 @ [Op_Start (Inr pid)]) @ ww) (New_registry w) = Some r2"
      "matches ((ops0 @ [Op_Start (Inr pid)]) @ ww) r2"
    using run_matches by blast
  have run: "run_ops ww r1 = Some r2"
    using r2(1) run0 step by (simp add: run_ops_append)
  have start: "nth_start c (ops0 @ Op_Start (Inr pid) # ww) = Some (pid, ww)"
  proof -
    have "nth_start (forks ops0) (ops0 @ Op_Start (Inr pid) # ww) = Some (pid, ww)"
      by (induction ops0) (auto split: option.splits)
    then show ?thesis by (simp only: c(1))
  qed
  then have "sent c r2 = [code]"
    using matchesD(3) [OF r2(2)] first_code_deliver [OF w] by (simp add: ww_def)
  moreover have "\<forall>x \<in> set (received r). fst x \<noteq> c" using matchesD(2) [OF m0] unfolding c(1) by fastforce
  then have "filter (\<lambda>x. fst x = c) (received r2) = []"
    using received_run [OF run, of c] rec c(4) by (simp add: ww_def filter_empty_conv)
  ultimately have "chans r2 ! c = [code]" by (simp add: sent_def)
  then show ?thesis using run c(2) unfolding ww_def by blast
qed

text \<open>
  C17. Whatever the order of forks, exits, cancellations and receives, no delivery blocks the reap
  loop, and all that is ever sent on the channel of a forked child is the first exit code reaped for
  its pid, provided it comes before the registration is cancelled or the pid is forked again: one
  value at most, never that of another child, and nothing after a cancellation.
\<close>

theorem reaper_exactly_once:
  "\<exists>r. run_ops ops (New_registry w) = Some r \<and>
     length (chans r) = forks ops \<and>
     (\<forall>c pid rest. nth_start c ops = Some (pid, rest) \<longrightarrow> sent c r = first_code pid rest)"
  using run_matches [of ops w] matchesD(1,3) by blast


theorem reaper_exactly_once_witness:
  "\<exists>r. run_ops [Op_Start (Inr 7), Op_Deliver 7 0, Op_Start (Inr 7), Op_Deliver 7 3, Op_Receive 0]
       (New_registry True) = Some r \<and> sent 0 r = [0] \<and> sent 1 r = [3]"
proof -
  define ops where "ops = [Op_Start (Inr 7), Op_Deliver 7 0, Op_Start (Inr 7), Op_Deliver 7 3, Op_Receive 0]"
  obtain r where r: "run_ops ops (New_registry True) = Some r"
    "\<forall>c pid rest. nth_start c ops = Some (pid, rest) \<longrightarrow> sent c r = first_code pid rest"
    using reaper_exactly_once [of ops True] by blast
  have "nth_start 0 ops = Some (7, tl ops)" "nth_start 1 ops = Some (7, drop 3 ops)" by (simp_all add: ops_def)
  then have "sent 0 r = first_code 7 (tl ops)" "sent 1 r = first_code 7 (drop 3 ops)" using r(2) by blast+
  then show ?thesis using r(1) unfolding ops_def by simp
qed

end
