(* ===== verification/Metrics.thy ===== *)
theory Metrics
  imports Go_Duration
begin

text \<open>
  The statistics of \<open>internal/metrics/metrics.go\<close>. The two maps of \<open>Metrics\<close> are dictionaries, one
  definition per method; the lock makes each method one atomic step. \<open>time.Now()\<close> is the argument
  \<open>now\<close>, in nanoseconds, and the zero time is \<^const>\<open>None\<close>. The counters are unbounded: a Go \<open>int\<close>
  would wrap after 2^63 events.

  The contract is a log: the abstract view of a service is the list of the calls about it since it
  was last registered. The refinement lemma says that after any sequence of calls the fields of
  every entry are the counts and the last events of that log, so that a call about a service that a
  reload removed leaves no trace.
\<close>

section \<open>State\<close>

record serviceStats =
  StartedAt :: "int option"
  Skipped :: string
  Pid :: int
  Restarts :: int
  Exits :: int
  Failures :: int
  Successes :: int
  Up :: bool
  Enabled :: bool
  Pending :: bool

record checkStats =
  chk_Failures :: int
  chk_Healthy :: bool

record metrics =
  services :: "(string \<times> serviceStats) list"
  checks :: "(string \<times> checkStats) list"

definition New_metrics :: metrics where
  "New_metrics = \<lparr>services = [], checks = []\<rparr>"

definition svc_zero :: serviceStats where
  "svc_zero = \<lparr>StartedAt = None, Skipped = [], Pid = 0, Restarts = 0, Exits = 0, Failures = 0,
     Successes = 0, Up = False, Enabled = True, Pending = False\<rparr>"

section \<open>Operations\<close>

definition set_svc :: "string \<Rightarrow> serviceStats \<Rightarrow> metrics \<Rightarrow> metrics" where
  "set_svc name s m = m\<lparr>services := AList.update name s (services m)\<rparr>"

definition svcRegister :: "metrics \<Rightarrow> string \<Rightarrow> serviceStats" where
  "svcRegister m name = (case map_of (services m) name of Some s \<Rightarrow> s | None \<Rightarrow> svc_zero)"

definition chkRegister :: "metrics \<Rightarrow> string \<Rightarrow> checkStats" where
  "chkRegister m name =
     (case map_of (checks m) name of Some c \<Rightarrow> c | None \<Rightarrow> \<lparr>chk_Failures = 0, chk_Healthy = True\<rparr>)"

definition RegisterService :: "string \<Rightarrow> bool \<Rightarrow> metrics \<Rightarrow> metrics" where
  "RegisterService name enabled m =
     (let s = (svcRegister m name)\<lparr>Enabled := enabled\<rparr>
      in set_svc name
           (if enabled \<and> StartedAt s = None \<and> Exits s = 0 then s\<lparr>Pending := True\<rparr> else s) m)"

definition IsPending :: "metrics \<Rightarrow> string \<Rightarrow> bool" where
  "IsPending m name = (case map_of (services m) name of Some s \<Rightarrow> Pending s | None \<Rightarrow> False)"

definition UnregisterService :: "string \<Rightarrow> metrics \<Rightarrow> metrics" where
  "UnregisterService name m = m\<lparr>services := AList.delete name (services m)\<rparr>"

text \<open>An event method: nothing happens when the service is not registered.\<close>

definition event :: "string \<Rightarrow> (serviceStats \<Rightarrow> serviceStats) \<Rightarrow> metrics \<Rightarrow> metrics" where
  "event name f m = (case map_of (services m) name of None \<Rightarrow> m | Some s \<Rightarrow> set_svc name (f s) m)"

definition ServiceStarted :: "string \<Rightarrow> int \<Rightarrow> int \<Rightarrow> metrics \<Rightarrow> metrics" where
  "ServiceStarted name pid now =
     event name (\<lambda>s. s\<lparr>Up := True, Pid := pid, Pending := False, Skipped := [], StartedAt := Some now\<rparr>)"

definition ServiceSkipped :: "string \<Rightarrow> string \<Rightarrow> metrics \<Rightarrow> metrics" where
  "ServiceSkipped name reason = event name (\<lambda>s. s\<lparr>Skipped := reason\<rparr>)"

definition ServiceExited :: "string \<Rightarrow> int \<Rightarrow> metrics \<Rightarrow> metrics" where
  "ServiceExited name exitCode =
     event name (\<lambda>s.
       let s' = s\<lparr>Up := False, Pid := 0, Pending := False, Exits := Exits s + 1\<rparr>
       in if exitCode = 0 then s'\<lparr>Successes := Successes s' + 1\<rparr> else s'\<lparr>Failures := Failures s' + 1\<rparr>)"

definition ServiceRestarted :: "string \<Rightarrow> metrics \<Rightarrow> metrics" where
  "ServiceRestarted name = event name (\<lambda>s. s\<lparr>Restarts := Restarts s + 1\<rparr>)"

definition RegisterCheck :: "string \<Rightarrow> metrics \<Rightarrow> metrics" where
  "RegisterCheck name m = m\<lparr>checks := AList.update name (chkRegister m name) (checks m)\<rparr>"

definition UnregisterCheck :: "string \<Rightarrow> metrics \<Rightarrow> metrics" where
  "UnregisterCheck name m = m\<lparr>checks := AList.delete name (checks m)\<rparr>"

definition CheckResult :: "string \<Rightarrow> bool \<Rightarrow> metrics \<Rightarrow> metrics" where
  "CheckResult name healthy m =
     (case map_of (checks m) name of
        None \<Rightarrow> m
      | Some c \<Rightarrow>
          let c' = c\<lparr>chk_Healthy := healthy\<rparr>
          in m\<lparr>checks := AList.update name
               (if healthy then c' else c'\<lparr>chk_Failures := chk_Failures c' + 1\<rparr>) (checks m)\<rparr>)"

section \<open>Views\<close>

datatype svc_state = State_up | State_disabled | State_skipped | State_pending | State_stopped

record serviceSnapshot =
  snap_Name :: string
  snap_State :: svc_state
  snap_Reason :: string
  snap_Pid :: int
  snap_Uptime :: int
  snap_Enabled :: bool
  snap_Exits :: int
  snap_Restarts :: int
  snap_Successes :: int
  snap_Failures :: int

record checkSnapshot =
  csnap_Name :: string
  csnap_Healthy :: bool
  csnap_Failures :: int

record snapshot =
  snap_Services :: "serviceSnapshot list"
  snap_Checks :: "checkSnapshot list"

text \<open>The switch that \<open>serviceSnapshotLocked\<close> and \<open>Format\<close> share.\<close>

definition state_of :: "serviceStats \<Rightarrow> svc_state" where
  "state_of s =
     (if Up s then State_up
      else if \<not> Enabled s then State_disabled
      else if Skipped s \<noteq> [] then State_skipped
      else if Pending s then State_pending
      else State_stopped)"

text \<open>\<open>time.Since(t).Truncate(time.Second)\<close>: whole seconds, towards zero.\<close>

definition since_seconds :: "int option \<Rightarrow> int \<Rightarrow> int" where
  "since_seconds started now =
     (let d = now - (case started of Some t \<Rightarrow> t | None \<Rightarrow> 0)
      in if 0 \<le> d then d div second else - ((- d) div second))"

definition serviceSnapshotLocked :: "int \<Rightarrow> string \<Rightarrow> serviceStats \<Rightarrow> serviceSnapshot" where
  "serviceSnapshotLocked now name s =
     \<lparr>snap_Name = name,
      snap_State = state_of s,
      snap_Reason = (if state_of s = State_skipped then Skipped s else []),
      snap_Pid = (if Up s then Pid s else 0),
      snap_Uptime = (if Up s then since_seconds (StartedAt s) now else 0),
      snap_Enabled = Enabled s,
      snap_Exits = Exits s,
      snap_Restarts = Restarts s,
      snap_Successes = Successes s,
      snap_Failures = Failures s\<rparr>"

definition sorted_entries :: "(string \<times> 'a) list \<Rightarrow> (string \<times> 'a) list" where
  "sorted_entries d = map (\<lambda>name. (name, the (map_of d name))) (sort (map fst d))"

definition Snapshot :: "int \<Rightarrow> metrics \<Rightarrow> snapshot" where
  "Snapshot now m =
     \<lparr>snap_Services = map (\<lambda>(name, s). serviceSnapshotLocked now name s) (sorted_entries (services m)),
      snap_Checks = map (\<lambda>(name, c). \<lparr>csnap_Name = name, csnap_Healthy = chk_Healthy c,
        csnap_Failures = chk_Failures c\<rparr>) (sorted_entries (checks m))\<rparr>"

definition ServiceSnapshot :: "int \<Rightarrow> metrics \<Rightarrow> string \<Rightarrow> serviceSnapshot option" where
  "ServiceSnapshot now m name = map_option (serviceSnapshotLocked now name) (map_of (services m) name)"

definition state_text :: "int \<Rightarrow> serviceStats \<Rightarrow> string" where
  "state_text now s =
     (case state_of s of
        State_up \<Rightarrow> Duration_String (since_seconds (StartedAt s) now * second)
      | State_disabled \<Rightarrow> ''disabled''
      | State_skipped \<Rightarrow> ''skipped''
      | State_pending \<Rightarrow> ''pending''
      | State_stopped \<Rightarrow> ''stopped'')"

definition service_line :: "int \<Rightarrow> nat \<Rightarrow> string \<times> serviceStats \<Rightarrow> string" where
  "service_line now maxState = (\<lambda>(name, s).
     ''  '' @ pad_right 20 name @ '' '' @ pad_right maxState (state_text now s) @
     '' exits='' @ itoa (Exits s) @ '' restarts='' @ itoa (Restarts s) @
     '' ok='' @ itoa (Successes s) @ '' fail='' @ itoa (Failures s) @
     (if Up s then '' pid='' @ itoa (Pid s) else []) @ [newline])"

definition check_line :: "string \<times> checkStats \<Rightarrow> string" where
  "check_line = (\<lambda>(name, c).
     ''  '' @ pad_right 20 name @ '' '' @ (if chk_Healthy c then ''healthy'' else ''unhealthy'') @
     ''  failures='' @ itoa (chk_Failures c) @ [newline])"

definition Format :: "int \<Rightarrow> metrics \<Rightarrow> string" where
  "Format now m =
     (let svcs = sorted_entries (services m);
          maxState = fold (\<lambda>(_, s) w. max w (length (state_text now s))) svcs 0;
          b = (if services m = [] then [] else
                 ''services:'' @ [newline] @ concat (map (service_line now maxState) svcs)) @
              (if checks m = [] then [] else
                 ''checks:'' @ [newline] @ concat (map check_line (sorted_entries (checks m))))
      in if b = [] then ''no stats'' else trim_right {newline} b)"


section \<open>The log contract\<close>

datatype metrics_call =
  Call_Register string bool
| Call_Unregister string
| Call_Started string int int
| Call_Skipped string string
| Call_Exited string int
| Call_Restarted string
| Call_RegisterCheck string
| Call_UnregisterCheck string
| Call_CheckResult string bool

fun call :: "metrics_call \<Rightarrow> metrics \<Rightarrow> metrics" where
  "call (Call_Register n e) = RegisterService n e"
| "call (Call_Unregister n) = UnregisterService n"
| "call (Call_Started n pid now) = ServiceStarted n pid now"
| "call (Call_Skipped n r) = ServiceSkipped n r"
| "call (Call_Exited n code) = ServiceExited n code"
| "call (Call_Restarted n) = ServiceRestarted n"
| "call (Call_RegisterCheck n) = RegisterCheck n"
| "call (Call_UnregisterCheck n) = UnregisterCheck n"
| "call (Call_CheckResult n ok) = CheckResult n ok"

definition run_calls :: "metrics_call list \<Rightarrow> metrics" where
  "run_calls cs = fold call cs New_metrics"

fun about :: "metrics_call \<Rightarrow> string option" where
  "about (Call_Register n e) = Some n"
| "about (Call_Unregister n) = Some n"
| "about (Call_Started n pid now) = Some n"
| "about (Call_Skipped n r) = Some n"
| "about (Call_Exited n code) = Some n"
| "about (Call_Restarted n) = Some n"
| "about _ = None"

text \<open>
  The log of a service: the calls about it from the registration on that no later unregistration
  has cancelled, newest first; \<^const>\<open>None\<close> while it is not registered.
\<close>

definition log_step :: "string \<Rightarrow> metrics_call \<Rightarrow> metrics_call list option \<Rightarrow> metrics_call list option" where
  "log_step n c l =
     (if about c \<noteq> Some n then l
      else case c of
        Call_Unregister _ \<Rightarrow> None
      | Call_Register _ _ \<Rightarrow> Some (c # (case l of None \<Rightarrow> [] | Some cs \<Rightarrow> cs))
      | _ \<Rightarrow> map_option ((#) c) l)"

definition log_of :: "string \<Rightarrow> metrics_call list \<Rightarrow> metrics_call list option" where
  "log_of n cs = fold (log_step n) cs None"

fun is_exit :: "metrics_call \<Rightarrow> bool" where
  "is_exit (Call_Exited n code) = True" | "is_exit _ = False"

fun is_failure :: "metrics_call \<Rightarrow> bool" where
  "is_failure (Call_Exited n code) = (code \<noteq> 0)" | "is_failure _ = False"

fun is_restart :: "metrics_call \<Rightarrow> bool" where
  "is_restart (Call_Restarted n) = True" | "is_restart _ = False"

fun started :: "metrics_call list \<Rightarrow> (int \<times> int) option" where
  "started [] = None"
| "started (Call_Started n pid now # l) = Some (pid, now)"
| "started (_ # l) = started l"

text \<open>The run in progress: the last start, unless an exit came after it.\<close>

fun running_as :: "metrics_call list \<Rightarrow> int option" where
  "running_as [] = None"
| "running_as (Call_Started n pid now # l) = Some pid"
| "running_as (Call_Exited n code # l) = None"
| "running_as (_ # l) = running_as l"

fun enabled_by :: "metrics_call list \<Rightarrow> bool" where
  "enabled_by [] = True"
| "enabled_by (Call_Register n e # l) = e"
| "enabled_by (_ # l) = enabled_by l"

text \<open>The reason of the last refused start, until a start succeeds.\<close>

fun skipped_for :: "metrics_call list \<Rightarrow> string" where
  "skipped_for [] = []"
| "skipped_for (Call_Started n pid now # l) = []"
| "skipped_for (Call_Skipped n r # l) = r"
| "skipped_for (_ # l) = skipped_for l"

text \<open>Waiting for a first start: some registration was enabled, and nothing started or exited.\<close>

definition waits :: "metrics_call list \<Rightarrow> bool" where
  "waits l = (list_all (\<lambda>c. \<not> is_exit c) l \<and> started l = None \<and>
     list_ex (\<lambda>c. case c of Call_Register _ e \<Rightarrow> e | _ \<Rightarrow> False) l)"

definition stats_of_log :: "metrics_call list \<Rightarrow> serviceStats" where
  "stats_of_log l =
     \<lparr>StartedAt = map_option snd (started l),
      Skipped = skipped_for l,
      Pid = (case running_as l of Some pid \<Rightarrow> pid | None \<Rightarrow> 0),
      Restarts = int (length (filter is_restart l)),
      Exits = int (length (filter is_exit l)),
      Failures = int (length (filter is_failure l)),
      Successes = int (length (filter (\<lambda>c. is_exit c \<and> \<not> is_failure c) l)),
      Up = (running_as l \<noteq> None),
      Enabled = enabled_by l,
      Pending = waits l\<rparr>"

lemma call_other:
  "about c \<noteq> Some n \<Longrightarrow> map_of (services (call c m)) n = map_of (services m) n"
  by (cases c)
    (auto simp: RegisterService_def UnregisterService_def ServiceStarted_def ServiceSkipped_def ServiceExited_def
      ServiceRestarted_def RegisterCheck_def UnregisterCheck_def CheckResult_def event_def set_svc_def Let_def
      split: option.splits)

lemma exits_zero: "filter is_exit l = [] \<longleftrightarrow> list_all (\<lambda>c. \<not> is_exit c) l"
  by (simp add: filter_empty_conv list_all_iff)

lemma call_log:
  assumes "map_of (services m) n = map_option stats_of_log l"
  shows "map_of (services (call c m)) n = map_option stats_of_log (log_step n c l)"
proof (cases "about c = Some n")
  case False
  then show ?thesis using assms by (simp add: call_other log_step_def)
next
  case True
  show ?thesis
  proof (cases c)
    case (Call_Register k e)
    then show ?thesis using True assms
      by (cases l) (auto simp: log_step_def RegisterService_def svcRegister_def set_svc_def svc_zero_def Let_def
        stats_of_log_def waits_def exits_zero)
  qed (use True assms in \<open>cases l; auto simp: log_step_def UnregisterService_def ServiceStarted_def
      ServiceSkipped_def ServiceExited_def ServiceRestarted_def event_def set_svc_def stats_of_log_def waits_def Let_def\<close>)+
qed

interpretation svc_log: simulation call "log_step n" "\<lambda>m l. map_of (services m) n = map_option stats_of_log l"
  for n
  by unfold_locales (rule call_log)

lemma call_dict_ok: "dict_ok (services m) \<Longrightarrow> dict_ok (services (call c m))"
  by (cases c)
    (auto simp: RegisterService_def UnregisterService_def ServiceStarted_def ServiceSkipped_def ServiceExited_def
      ServiceRestarted_def RegisterCheck_def UnregisterCheck_def CheckResult_def event_def set_svc_def Let_def
      split: option.splits)

lemma run_calls_dict_ok: "dict_ok (services (run_calls cs))"
proof -
  have "dict_ok (services m) \<Longrightarrow> dict_ok (services (fold call cs m))" for m
    by (induction cs arbitrary: m) (auto intro: call_dict_ok)
  then show ?thesis by (simp add: run_calls_def New_metrics_def)
qed

lemma log_contract: "map_of (services (run_calls cs)) n = map_option stats_of_log (log_of n cs)"
  unfolding run_calls_def log_of_def by (rule svc_log.simulates_run) (simp add: New_metrics_def)

lemma stats_balance: "Exits (stats_of_log l) = Successes (stats_of_log l) + Failures (stats_of_log l)"
proof -
  have "length (filter is_exit l)
      = length (filter (\<lambda>c. is_exit c \<and> \<not> is_failure c) l) + length (filter is_failure l)"
  proof (induction l)
    case (Cons c l)
    then show ?case by (cases c) auto
  qed simp
  then show ?thesis by (simp add: stats_of_log_def)
qed

lemma sorted_entries_names: "map fst (sorted_entries d) = sort (map fst d)"
  by (simp add: sorted_entries_def comp_def)

lemma sorted_entries_mem:
  assumes "(n, s) \<in> set (sorted_entries d)"
  shows "map_of d n = Some s"
proof -
  from assms have "s = the (map_of d n)" "n \<in> set (map fst d)" by (auto simp: sorted_entries_def)
  then show ?thesis using dict_keys [of n d] by auto
qed

text \<open>
  C15. After any sequence of calls the entry of a service is what the log of the calls about it since
  its registration says: the counters are numbers of calls, the service is up when its last start
  is newer than its last exit, it is pending while it was enabled and never started or exited, and
  a service that was never registered, or was unregistered since, has no entry, whatever late events
  arrive about it.
\<close>

theorem metrics_refine_log:
  "map_of (services (run_calls cs)) n = map_option stats_of_log (log_of n cs)"
  by (rule log_contract)

text \<open>
  C16. The snapshot lists exactly the registered services, once each and in the order of their names;
  the exits of each are its successes plus its failures, and it is shown as up, with the pid of its
  last start, exactly when a start without a later exit is on its log.
\<close>

theorem Snapshot_of_log:
  "sorted (map snap_Name (snap_Services (Snapshot now (run_calls cs)))) \<and>
   distinct (map snap_Name (snap_Services (Snapshot now (run_calls cs)))) \<and>
   set (map snap_Name (snap_Services (Snapshot now (run_calls cs)))) = {n. log_of n cs \<noteq> None} \<and>
   list_all (\<lambda>x. snap_Exits x = snap_Successes x + snap_Failures x \<and>
       (snap_State x = State_up) = (running_as (the (log_of (snap_Name x) cs)) \<noteq> None) \<and>
       snap_Pid x = (case running_as (the (log_of (snap_Name x) cs)) of None \<Rightarrow> 0 | Some pid \<Rightarrow> pid))
     (snap_Services (Snapshot now (run_calls cs)))"
proof -
  define d where "d = services (run_calls cs)"
  have ok: "dict_ok d" unfolding d_def by (rule run_calls_dict_ok)
  have names: "map snap_Name (snap_Services (Snapshot now (run_calls cs))) = sort (map fst d)"
    unfolding sorted_entries_names [symmetric] Snapshot_def d_def
    by (simp add: serviceSnapshotLocked_def comp_def case_prod_beta)
  have keys: "set (map fst d) = {n. log_of n cs \<noteq> None}"
    using dict_keys [of _ d] log_contract [of cs] unfolding d_def by auto
  have entry: "snap_Exits x = snap_Successes x + snap_Failures x \<and>
       (snap_State x = State_up) = (running_as (the (log_of (snap_Name x) cs)) \<noteq> None) \<and>
       snap_Pid x = (case running_as (the (log_of (snap_Name x) cs)) of None \<Rightarrow> 0 | Some pid \<Rightarrow> pid)"
    if "x \<in> set (snap_Services (Snapshot now (run_calls cs)))" for x
  proof -
    from that obtain n s where x: "x = serviceSnapshotLocked now n s" "(n, s) \<in> set (sorted_entries d)"
      unfolding Snapshot_def d_def by auto
    from sorted_entries_mem [OF x(2)] obtain l where l: "log_of n cs = Some l" "s = stats_of_log l"
      using log_contract [of cs n] unfolding d_def by auto
    have "Up s = (running_as l \<noteq> None)" "Pid s = (case running_as l of Some pid \<Rightarrow> pid | None \<Rightarrow> 0)"
      unfolding l(2) by (simp_all add: stats_of_log_def)
    then show ?thesis using l(1) stats_balance [of l, folded l(2)]
      unfolding x(1) by (auto simp: serviceSnapshotLocked_def state_of_def)
  qed
  show ?thesis
    unfolding names using ok keys entry by (auto simp: dict_ok_def list_all_iff)
qed

end
