(* ===== verification/Check.thy ===== *)
theory Check
  imports Go_Duration Reaper Metrics
begin

text \<open>
  Health checks: \<open>check/check.go\<close>. What the network, the kernel and \<open>os/exec\<close> answer to a probe is an
  argument (\<open>probe_world\<close>): the reply to the HTTP request, the outcome of the dial, of \<open>cmd.Run\<close> and of
  the fork. The exec probe that runs beside the reap loop takes its status from the registry of the
  theory \<open>Reaper\<close>; what the other goroutines do to the registry while it waits is a list of
  registry operations. The \<open>select\<close> statements are resolved by an argument too, so that every
  choice the runtime can make is covered.

  The lemmas show which configurations \<open>New\<close> accepts, that the failure callback fires exactly when a
  streak of failures reaches the threshold, that a lost status never counts, and that a probe whose
  child is reaped before the deadline gets the verdict of its own child.
\<close>

section \<open>Configuration and state\<close>

record HTTP =
  http_URL :: string
  http_Socket :: string

record TCP =
  tcp_Host :: string
  tcp_Port :: int

record Exec =
  exec_Command :: string
  exec_Args :: "string list"

record check_config =
  cfg_HTTP :: "HTTP option"
  cfg_TCP :: "TCP option"
  cfg_Exec :: "Exec option"
  cfg_Period :: string
  cfg_Timeout :: string
  cfg_InitialDelay :: string
  cfg_Threshold :: int

record checker =
  chk_name :: string
  chk_cfg :: check_config
  period :: duration
  timeout :: duration
  initialDelay :: duration
  threshold :: int
  failures :: int
  healthy :: bool
  stopped :: bool
  stopCh_closed :: bool
  tcpAddr :: string
  has_reaper :: bool
  onFailureFn :: bool
  metricsFn :: bool
  chk_credential :: "(int \<times> int) option"
  chk_env :: "string list option"

datatype check_error =
  Invalid_period | Invalid_timeout | Not_one_type | Invalid_initial_delay | Invalid_url | Invalid_port

text \<open>
  A duration setting: absent means the default, and anything but a positive duration is refused.
\<close>

definition positive_or :: "duration \<Rightarrow> string \<Rightarrow> duration option" where
  "positive_or dflt s =
     (case ParseDuration s of
        Some d \<Rightarrow> if 0 < d then Some d else if s = [] then Some dflt else None
      | None \<Rightarrow> if s = [] then Some dflt else None)"

definition delay_of :: "check_config \<Rightarrow> duration \<Rightarrow> duration option" where
  "delay_of cfg prd =
     (if cfg_InitialDelay cfg = [] then Some prd
      else case ParseDuration (cfg_InitialDelay cfg) of
        None \<Rightarrow> None
      | Some d \<Rightarrow> if d < 0 then None else Some d)"

definition count_types :: "check_config \<Rightarrow> nat" where
  "count_types cfg =
     (if cfg_HTTP cfg \<noteq> None then 1 else 0) + (if cfg_TCP cfg \<noteq> None then 1 else 0) +
     (if cfg_Exec cfg \<noteq> None then 1 else 0)"

definition tcp_addr :: "TCP \<Rightarrow> string" where
  "tcp_addr t = (if tcp_Host t = [] then ''localhost'' else tcp_Host t) @ '':'' @ itoa (tcp_Port t)"

text \<open>\<open>url_ok\<close> tells whether \<open>http.NewRequest\<close> accepts the URL.\<close>

definition check_New ::
  "(string \<Rightarrow> bool) \<Rightarrow> string \<Rightarrow> check_config \<Rightarrow> bool \<Rightarrow> bool \<Rightarrow> check_error + checker" where
  "check_New url_ok name cfg onFailure metrics =
     (case positive_or (10 * second) (cfg_Period cfg) of
        None \<Rightarrow> Inl Invalid_period
      | Some prd \<Rightarrow>
          (case positive_or (3 * second) (cfg_Timeout cfg) of
             None \<Rightarrow> Inl Invalid_timeout
           | Some tmo \<Rightarrow>
               if count_types cfg \<noteq> 1 then Inl Not_one_type
               else case delay_of cfg prd of
                 None \<Rightarrow> Inl Invalid_initial_delay
               | Some delay \<Rightarrow>
                   let c = \<lparr>chk_name = name, chk_cfg = cfg, period = prd, timeout = tmo, initialDelay = delay,
                        threshold = (if cfg_Threshold cfg \<le> 0 then 3 else cfg_Threshold cfg),
                        failures = 0, healthy = True, stopped = False, stopCh_closed = False, tcpAddr = [],
                        has_reaper = False, onFailureFn = onFailure, metricsFn = metrics,
                        chk_credential = None, chk_env = None\<rparr>
                   in (case cfg_HTTP cfg of
                         Some h \<Rightarrow> if url_ok (http_URL h) then Inr c else Inl Invalid_url
                       | None \<Rightarrow>
                           (case cfg_TCP cfg of
                              Some t \<Rightarrow>
                                if tcp_Port t \<le> 0 \<or> 65535 < tcp_Port t then Inl Invalid_port
                                else Inr (c\<lparr>tcpAddr := tcp_addr t\<rparr>)
                            | None \<Rightarrow> Inr c))))"

definition SetReaper :: "checker \<Rightarrow> checker" where
  "SetReaper c = c\<lparr>has_reaper := True\<rparr>"

definition SetCredential :: "int \<times> int \<Rightarrow> checker \<Rightarrow> checker" where
  "SetCredential cred c = c\<lparr>chk_credential := Some cred\<rparr>"

definition SetEnv :: "string list \<Rightarrow> checker \<Rightarrow> checker" where
  "SetEnv e c = c\<lparr>chk_env := Some e\<rparr>"

definition Stop_check :: "checker \<Rightarrow> checker" where
  "Stop_check c = c\<lparr>stopped := True, stopCh_closed := True\<rparr>"

section \<open>Probes\<close>

datatype probe_error =
  No_check_type | Http_failed | Http_status int | Tcp_failed | Exec_failed
| Exec_status int | Exec_deadline | Inconclusive

text \<open>The result of a probe: \<^const>\<open>None\<close> is success.\<close>

type_synonym probe_result = "probe_error option"

datatype run_result = Run_ok | Run_ECHILD | Run_error

datatype second_select = Late_status | Timer_fired

datatype first_select = Status_arrived | Deadline "reg_op list" second_select

record probe_world =
  http_do :: "unit + int"
  tcp_dial :: bool
  cmd_run :: run_result
  fork_result :: "unit + int"
  while_waiting :: "reg_op list"
  selected :: first_select

definition checkHTTP :: "probe_world \<Rightarrow> probe_result" where
  "checkHTTP w =
     (case http_do w of
        Inl _ \<Rightarrow> Some Http_failed
      | Inr status \<Rightarrow> if status < 200 \<or> 300 \<le> status then Some (Http_status status) else None)"

definition checkTCP :: "probe_world \<Rightarrow> probe_result" where
  "checkTCP w = (if tcp_dial w then None else Some Tcp_failed)"

text \<open>
  The probe that takes its status from the registry. The result is \<^const>\<open>None\<close> when the chosen case
  of a \<open>select\<close> is not enabled: the probe is still waiting.
\<close>

definition checkExecReaped :: "probe_world \<Rightarrow> registry \<Rightarrow> (registry \<times> probe_result) option" where
  "checkExecReaped w r =
     (case Start (fork_result w) r of
        (r1, Inl _) \<Rightarrow> Some (r1, Some Exec_failed)
      | (r1, Inr (pid, status)) \<Rightarrow>
          (case run_ops (while_waiting w) r1 of
             None \<Rightarrow> None
           | Some r2 \<Rightarrow>
               (case selected w of
                  Status_arrived \<Rightarrow>
                    (case chans r2 ! status of
                       [] \<Rightarrow> None
                     | code # _ \<Rightarrow>
                         Some (Forget pid (receive status r2), if code \<noteq> 0 then Some (Exec_status code) else None))
                | Deadline ops sel \<Rightarrow>
                    (case run_ops ops r2 of
                       None \<Rightarrow> None
                     | Some r3 \<Rightarrow>
                         (case sel of
                            Late_status \<Rightarrow>
                              (case chans r3 ! status of
                                 [] \<Rightarrow> None
                               | code # _ \<Rightarrow>
                                   Some (Forget pid (receive status r3), if code = 0 then None else Some Exec_deadline))
                          | Timer_fired \<Rightarrow> Some (Forget pid r3, Some Inconclusive))))))"

definition checkExec :: "checker \<Rightarrow> probe_world \<Rightarrow> registry \<Rightarrow> (registry \<times> probe_result) option" where
  "checkExec c w r =
     (if has_reaper c \<and> Active r then checkExecReaped w r
      else Some (r, case cmd_run w of
             Run_ok \<Rightarrow> None
           | Run_ECHILD \<Rightarrow> Some Inconclusive
           | Run_error \<Rightarrow> Some Exec_failed))"

definition Execute :: "checker \<Rightarrow> probe_world \<Rightarrow> registry \<Rightarrow> (registry \<times> probe_result) option" where
  "Execute c w r =
     (if cfg_HTTP (chk_cfg c) \<noteq> None then Some (r, checkHTTP w)
      else if cfg_TCP (chk_cfg c) \<noteq> None then Some (r, checkTCP w)
      else if cfg_Exec (chk_cfg c) \<noteq> None then checkExec c w r
      else Some (r, Some No_check_type))"

section \<open>The loop\<close>

text \<open>What a checker does to the rest of the daemon: the two callbacks.\<close>

datatype check_effect = Metric string bool | Failure string

text \<open>One probe result: the new state, the metric callback, and whether the threshold was crossed.\<close>

definition observe :: "probe_result \<Rightarrow> checker \<Rightarrow> checker \<times> check_effect list \<times> bool" where
  "observe res c =
     (case res of
        Some Inconclusive \<Rightarrow> (c, [], False)
      | Some _ \<Rightarrow>
          let c' = c\<lparr>failures := failures c + 1\<rparr>;
              fx = (if metricsFn c then [Metric (chk_name c) False] else [])
          in if threshold c' \<le> failures c' \<and> healthy c' then (c'\<lparr>healthy := False\<rparr>, fx, True)
             else (c', fx, False)
      | None \<Rightarrow>
          (c\<lparr>failures := 0, healthy := True\<rparr>,
           if metricsFn c then [Metric (chk_name c) True] else [], False))"

text \<open>
  One turn of the loop in \<open>Run\<close>: the probe, and what \<open>c.stopped\<close> is when the callback is about to
  fire. The list of turns ends when \<open>stopCh\<close> is chosen.
\<close>

definition turn :: "probe_result \<times> bool \<Rightarrow> checker \<Rightarrow> checker \<times> check_effect list" where
  "turn = (\<lambda>(res, stopped_now) c.
     let (c', fx, callFailure) = observe res c
     in (c', fx @ (if callFailure \<and> onFailureFn c' \<and> \<not> stopped_now then [Failure (chk_name c')] else [])))"

fun turns :: "(probe_result \<times> bool) list \<Rightarrow> checker \<Rightarrow> checker \<times> check_effect list" where
  "turns [] c = (c, [])"
| "turns (t # ts) c = (let (c1, fx) = turn t c; (c2, fx') = turns ts c1 in (c2, fx @ fx'))"

text \<open>\<open>Run\<close>: \<^const>\<open>None\<close> when the check is stopped during the initial delay.\<close>

definition Run :: "(probe_result \<times> bool) list option \<Rightarrow> checker \<Rightarrow> checker \<times> check_effect list" where
  "Run ts c = (case ts of None \<Rightarrow> (c, []) | Some ts \<Rightarrow> turns ts c)"

definition poll_interval :: "checker \<Rightarrow> duration" where
  "poll_interval c = min (period c) second"

datatype ready_event = Ctx_done | Ticked probe_result

text \<open>\<open>WaitReady\<close> on the events of its loop; \<^const>\<open>None\<close> while it still waits, \<^const>\<open>True\<close> for ready.\<close>

fun wait_loop :: "ready_event list \<Rightarrow> bool option" where
  "wait_loop [] = None"
| "wait_loop (Ctx_done # es) = Some False"
| "wait_loop (Ticked None # es) = Some True"
| "wait_loop (Ticked (Some e) # es) = wait_loop es"

definition WaitReady :: "probe_result \<Rightarrow> ready_event list \<Rightarrow> bool option" where
  "WaitReady first es = (if first = None then Some True else wait_loop es)"


section \<open>Well-formed checkers\<close>

definition checker_ok :: "checker \<Rightarrow> bool" where
  "checker_ok c =
     (0 < period c \<and> 0 < timeout c \<and> 0 \<le> initialDelay c \<and> 1 \<le> threshold c \<and> 0 \<le> failures c \<and>
      healthy c = (failures c < threshold c) \<and> count_types (chk_cfg c) = 1 \<and>
      (\<forall>t. cfg_TCP (chk_cfg c) = Some t \<longrightarrow> 1 \<le> tcp_Port t \<and> tcp_Port t \<le> 65535 \<and> tcpAddr c = tcp_addr t))"

lemma positive_or_pos: "positive_or d s = Some v \<Longrightarrow> 0 < d \<Longrightarrow> 0 < v"
  by (auto simp: positive_or_def split: option.splits if_splits)

lemma delay_of_nonneg: "delay_of cfg p = Some d \<Longrightarrow> 0 < p \<Longrightarrow> 0 \<le> d"
  by (auto simp: delay_of_def split: option.splits if_splits)

lemma check_New_cases:
  assumes "check_New url_ok name cfg f m = Inr c"
  obtains prd tmo delay where
    "positive_or (10 * second) (cfg_Period cfg) = Some prd" "positive_or (3 * second) (cfg_Timeout cfg) = Some tmo"
    "delay_of cfg prd = Some delay" "count_types cfg = 1"
    "chk_name c = name" "chk_cfg c = cfg" "period c = prd" "timeout c = tmo" "initialDelay c = delay"
    "threshold c = (if cfg_Threshold cfg \<le> 0 then 3 else cfg_Threshold cfg)" "failures c = 0" "healthy c"
    "onFailureFn c = f" "metricsFn c = m"
    "\<And>t. cfg_TCP cfg = Some t \<Longrightarrow> 1 \<le> tcp_Port t \<and> tcp_Port t \<le> 65535 \<and> tcpAddr c = tcp_addr t"
  using assms
  by (auto simp: check_New_def Let_def count_types_def split: option.splits if_splits)

lemma check_New_ok: "check_New url_ok name cfg f m = Inr c \<Longrightarrow> checker_ok c"
proof (erule check_New_cases)
  fix prd tmo delay
  assume a: "positive_or (10 * second) (cfg_Period cfg) = Some prd" "positive_or (3 * second) (cfg_Timeout cfg) = Some tmo"
    "delay_of cfg prd = Some delay" "count_types cfg = 1" "chk_cfg c = cfg" "period c = prd" "timeout c = tmo"
    "initialDelay c = delay" "threshold c = (if cfg_Threshold cfg \<le> 0 then 3 else cfg_Threshold cfg)"
    "failures c = 0" "healthy c"
    "\<And>t. cfg_TCP cfg = Some t \<Longrightarrow> 1 \<le> tcp_Port t \<and> tcp_Port t \<le> 65535 \<and> tcpAddr c = tcp_addr t"
  have p: "0 < prd" using positive_or_pos [OF a(1)] by (simp add: second_def)
  moreover have "0 < tmo" using positive_or_pos [OF a(2)] by (simp add: second_def)
  moreover have "0 \<le> delay" using delay_of_nonneg [OF a(3) p] .
  ultimately show ?thesis using a by (auto simp: checker_ok_def)
qed

text \<open>Whether a result counts, and counts as a failure.\<close>

definition conclusive :: "probe_result \<Rightarrow> bool" where
  "conclusive res = (res \<noteq> Some Inconclusive)"

definition failed :: "probe_result \<Rightarrow> bool" where
  "failed res = (res \<noteq> None \<and> res \<noteq> Some Inconclusive)"

lemma observe_cases:
  "observe (Some Inconclusive) c = (c, [], False)"
  "observe None c = (c\<lparr>failures := 0, healthy := True\<rparr>, if metricsFn c then [Metric (chk_name c) True] else [], False)"
  "failed res \<Longrightarrow> observe res c =
     (c\<lparr>failures := failures c + 1, healthy := (healthy c \<and> \<not> threshold c \<le> failures c + 1)\<rparr>,
      if metricsFn c then [Metric (chk_name c) False] else [], threshold c \<le> failures c + 1 \<and> healthy c)"
  by (auto simp: observe_def Let_def failed_def split: option.splits probe_error.splits)

lemma result_cases: "res = Some Inconclusive \<or> res = None \<or> failed res"
  by (auto simp: failed_def)

lemma observe_ok: "checker_ok c \<Longrightarrow> checker_ok (fst (observe res c))"
  using result_cases [of res] by (auto simp: observe_cases checker_ok_def)

lemma fst_turn: "fst (turn (res, st) c) = fst (observe res c)"
  by (simp add: turn_def Let_def split: prod.splits)

lemma turns_snoc: "turns (ts @ [t]) c =
    (fst (turn t (fst (turns ts c))), snd (turns ts c) @ snd (turn t (fst (turns ts c))))"
  by (induction ts arbitrary: c) (simp_all add: Let_def case_prod_beta)

lemma turns_ok: "checker_ok c \<Longrightarrow> checker_ok (fst (turns ts c))"
proof (induction ts rule: rev_induct)
  case (snoc t ts)
  then show ?case by (cases t) (simp add: turns_snoc fst_turn observe_ok)
qed simp

lemma Execute_type: "checker_ok c \<Longrightarrow> Execute c w r \<noteq> Some (r', Some No_check_type)"
proof
  assume c: "checker_ok c" and e: "Execute c w r = Some (r', Some No_check_type)"
  have "cfg_HTTP (chk_cfg c) \<noteq> None \<or> cfg_TCP (chk_cfg c) \<noteq> None \<or> cfg_Exec (chk_cfg c) \<noteq> None"
    using c by (auto simp: checker_ok_def count_types_def split: if_splits)
  then show False using e
    by (auto simp: Execute_def checkHTTP_def checkTCP_def checkExec_def checkExecReaped_def
      split: if_splits option.splits sum.splits run_result.splits prod.splits first_select.splits second_select.splits list.splits)
qed

text \<open>
  C18. A checker that \<open>New\<close> builds is well formed and stays so through any number of probes: its period
  and timeout are positive, its threshold is at least one, it has exactly one kind of probe, so that
  \<open>Execute\<close> never reports a missing type, its TCP port is a port, and it is healthy exactly while its
  streak of failures is below the threshold; the readiness poll never waits longer than a second.
\<close>

theorem check_New_well_formed:
  assumes "check_New url_ok name cfg f m = Inr c"
  shows "checker_ok (fst (turns ts c)) \<and>
    Execute (fst (turns ts c)) w r \<noteq> Some (r', Some No_check_type) \<and>
    0 < poll_interval (fst (turns ts c)) \<and> poll_interval (fst (turns ts c)) \<le> second"
proof -
  have ok: "checker_ok (fst (turns ts c))" by (rule turns_ok [OF check_New_ok [OF assms]])
  then have "0 < poll_interval (fst (turns ts c))" by (simp add: poll_interval_def checker_ok_def second_def)
  then show ?thesis using ok Execute_type [OF ok] by (simp add: poll_interval_def)
qed

section \<open>The threshold\<close>

text \<open>The length of the streak of failures at the end of the results, lost ones left out.\<close>

definition streak :: "probe_result list \<Rightarrow> nat" where
  "streak rs = length (takeWhile failed (rev (filter conclusive rs)))"

lemma streak_snoc:
  "streak [] = 0"
  "streak (rs @ [res]) = (if failed res then Suc (streak rs) else if res = None then 0 else streak rs)"
  by (auto simp: streak_def conclusive_def failed_def)

lemma turns_constant:
  "threshold (fst (turns ts c)) = threshold c \<and> onFailureFn (fst (turns ts c)) = onFailureFn c \<and>
   metricsFn (fst (turns ts c)) = metricsFn c \<and> chk_name (fst (turns ts c)) = chk_name c"
proof (induction ts rule: rev_induct)
  case (snoc t ts)
  obtain res st where t: "t = (res, st)" by (cases t)
  show ?case using snoc result_cases [of res] by (auto simp: t turns_snoc fst_turn observe_cases)
qed simp

lemma turns_streak:
  assumes "checker_ok c" "failures c = 0"
  shows "failures (fst (turns ts c)) = int (streak (map fst ts))"
proof (induction ts rule: rev_induct)
  case Nil
  then show ?case using assms by (simp add: streak_snoc)
next
  case (snoc t ts)
  obtain res st where t: "t = (res, st)" by (cases t)
  show ?case using snoc result_cases [of res]
    by (auto simp: t turns_snoc fst_turn streak_snoc observe_cases failed_def)
qed

lemma healthy_streak:
  assumes "checker_ok c" "failures c = 0"
  shows "healthy (fst (turns ts c)) = (int (streak (map fst ts)) < threshold c)"
proof -
  define c' where "c' = fst (turns ts c)"
  have "checker_ok c'" unfolding c'_def by (rule turns_ok [OF assms(1)])
  then have "healthy c' = (failures c' < threshold c')" by (simp add: checker_ok_def)
  moreover have "threshold c' = threshold c" using turns_constant [of ts c] by (simp add: c'_def)
  moreover have "failures c' = int (streak (map fst ts))" unfolding c'_def by (rule turns_streak [OF assms])
  ultimately show ?thesis unfolding c'_def by simp
qed

text \<open>
  C19. The failure callback fires in a turn of the loop exactly when the probe of that turn fails and
  makes the streak of consecutive failures, lost results not counted, equal to the threshold, unless
  the check was stopped meanwhile; so one streak fires it once, however long it lasts. The health of
  the checker is that its streak is below the threshold.
\<close>

theorem failure_callback:
  assumes "check_New url_ok name cfg True m = Inr c"
  shows "(Failure name \<in> set (snd (turn (res, st) (fst (turns ts c))))) =
      (failed res \<and> int (streak (map fst ts @ [res])) = threshold c \<and> \<not> st) \<and>
    healthy (fst (turns ts c)) = (int (streak (map fst ts)) < threshold c)"
proof -
  have c: "checker_ok c" "failures c = 0" "onFailureFn c" "chk_name c = name"
    using check_New_ok [OF assms] assms by (auto elim: check_New_cases)
  define c' where "c' = fst (turns ts c)"
  have f: "failures c' = int (streak (map fst ts))" unfolding c'_def by (rule turns_streak [OF c(1,2)])
  have k: "threshold c' = threshold c" "onFailureFn c'" "chk_name c' = name"
    using turns_constant [of ts c] c by (simp_all add: c'_def)
  have h: "healthy c' = (failures c' < threshold c')"
    using healthy_streak [OF c(1,2), of ts] f k(1) by (simp add: c'_def)
  have "(Failure name \<in> set (snd (turn (res, st) c'))) =
      (failed res \<and> int (streak (map fst ts @ [res])) = threshold c \<and> \<not> st)"
    using result_cases [of res] k f h
    by (auto simp: turn_def Let_def observe_cases streak_snoc failed_def)
  then show ?thesis using h f k(1) unfolding c'_def by simp
qed


theorem failure_callback_witness:
  "\<exists>c. check_New (\<lambda>u. True) ''db'' \<lparr>cfg_HTTP = None, cfg_TCP = Some \<lparr>tcp_Host = [], tcp_Port = 5432\<rparr>,
       cfg_Exec = None, cfg_Period = [], cfg_Timeout = [], cfg_InitialDelay = [], cfg_Threshold = 2\<rparr> True True = Inr c \<and>
     Failure ''db'' \<in> set (snd (turn (Some Tcp_failed, False) (fst (turns [(Some Tcp_failed, False), (Some Inconclusive, False)] c)))) \<and>
     healthy (fst (turns [(Some Tcp_failed, False), (Some Inconclusive, False)] c))"
proof -
  define cfg where "cfg = \<lparr>cfg_HTTP = None, cfg_TCP = Some \<lparr>tcp_Host = [], tcp_Port = 5432\<rparr>,
       cfg_Exec = None, cfg_Period = [], cfg_Timeout = [], cfg_InitialDelay = [], cfg_Threshold = 2\<rparr>"
  have "ParseDuration [] = None" by (simp add: ParseDuration_def)
  then have "\<exists>c. check_New (\<lambda>u. True) ''db'' cfg True True = Inr c \<and> threshold c = 2"
    by (simp add: cfg_def check_New_def positive_or_def delay_of_def count_types_def Let_def)
  then obtain c where c: "check_New (\<lambda>u. True) ''db'' cfg True True = Inr c" "threshold c = 2" by blast
  have streak: "streak [Some Tcp_failed, Some Inconclusive, Some Tcp_failed] = 2"
      "streak [Some Tcp_failed, Some Inconclusive] = 1"
    by (simp_all add: streak_def conclusive_def failed_def)
  show ?thesis
    using failure_callback [OF c(1), of "Some Tcp_failed" False "[(Some Tcp_failed, False), (Some Inconclusive, False)]"]
      c streak by (intro exI [of _ c]) (simp add: cfg_def failed_def)
qed

theorem check_New_well_formed_witness:
  "\<exists>c. check_New (\<lambda>u. True) ''web'' \<lparr>cfg_HTTP = Some \<lparr>http_URL = ''http://localhost/'', http_Socket = []\<rparr>, cfg_TCP = None,
       cfg_Exec = None, cfg_Period = ''5s'', cfg_Timeout = [], cfg_InitialDelay = ''0'', cfg_Threshold = 0\<rparr> True True = Inr c \<and>
     checker_ok (fst (turns [(None, False)] c))"
proof -
  define cfg where "cfg = \<lparr>cfg_HTTP = Some \<lparr>http_URL = ''http://localhost/'', http_Socket = []\<rparr>, cfg_TCP = None,
       cfg_Exec = None, cfg_Period = ''5s'', cfg_Timeout = [], cfg_InitialDelay = ''0'', cfg_Threshold = 0\<rparr>"
  have "nat_digits 5 = ''5''" by code_simp
  then have "ParseDuration ''5s'' = Some (5 * second)"
    using ParseDuration_whole [of "''s''" 1000000000 5] by (simp add: unit_words second_def)
  moreover have "ParseDuration [] = None" "ParseDuration ''0'' = Some 0" by (simp_all add: ParseDuration_def)
  ultimately have "\<exists>c. check_New (\<lambda>u. True) ''web'' cfg True True = Inr c"
    by (simp add: cfg_def check_New_def positive_or_def delay_of_def count_types_def Let_def second_def)
  then obtain c where c: "check_New (\<lambda>u. True) ''web'' cfg True True = Inr c" by blast
  show ?thesis using check_New_well_formed [OF c, of "[(None, False)]"] c unfolding cfg_def by blast
qed

section \<open>What the status table shows\<close>

fun apply_effect :: "check_effect \<Rightarrow> metrics \<Rightarrow> metrics" where
  "apply_effect (Metric name ok) m = CheckResult name ok m"
| "apply_effect (Failure name) m = m"

lemma effects_metrics:
  assumes "metricsFn c" "map_of (checks m) (chk_name c) = Some k"
  shows "map_of (checks (fold apply_effect (snd (turn (res, st) c)) m)) (chk_name c) =
    Some (if failed res then \<lparr>chk_Failures = chk_Failures k + 1, chk_Healthy = False\<rparr>
      else if res = None then \<lparr>chk_Failures = chk_Failures k, chk_Healthy = True\<rparr> else k)"
  using assms result_cases [of res]
  by (auto simp: turn_def Let_def observe_cases CheckResult_def failed_def)

lemma status_of_turns:
  assumes "metricsFn c" "map_of (checks m) (chk_name c) = Some \<lparr>chk_Failures = 0, chk_Healthy = True\<rparr>"
  shows "map_of (checks (fold apply_effect (snd (turns ts c)) m)) (chk_name c) =
    Some \<lparr>chk_Failures = int (length (filter failed (map fst ts))), chk_Healthy = (streak (map fst ts) = 0)\<rparr>"
proof (induction ts rule: rev_induct)
  case Nil
  then show ?case using assms by (simp add: streak_snoc)
next
  case (snoc t ts)
  obtain res st where t: "t = (res, st)" by (cases t)
  have k: "metricsFn (fst (turns ts c))" "chk_name (fst (turns ts c)) = chk_name c"
    using turns_constant [of ts c] assms by simp_all
  define c' where "c' = fst (turns ts c)"
  define m' where "m' = fold apply_effect (snd (turns ts c)) m"
  have "map_of (checks m') (chk_name c') =
      Some \<lparr>chk_Failures = int (length (filter failed (map fst ts))), chk_Healthy = (streak (map fst ts) = 0)\<rparr>"
    using snoc k(2) by (simp only: c'_def m'_def)
  from effects_metrics [OF k(1) [folded c'_def] this, of res st] k(2) [folded c'_def]
  have "map_of (checks (fold apply_effect (snd (turn t c')) m')) (chk_name c) =
      Some \<lparr>chk_Failures = int (length (filter failed (map fst (ts @ [t])))), chk_Healthy = (streak (map fst (ts @ [t])) = 0)\<rparr>"
    by (simp add: t streak_snoc del: apply_effect.simps)
  then show ?case by (simp only: turns_snoc c'_def m'_def fold_append comp_apply snd_conv)
qed

text \<open>
  The status table calls a check healthy exactly when its last conclusive probe passed: a single
  failure shows as unhealthy, while the checker itself stays healthy until the streak reaches the
  threshold. The counter of the table is the number of failed probes.
\<close>

lemma status_before_threshold:
  assumes "check_New url_ok name cfg f True = Inr c"
  shows "map_of (checks (fold apply_effect (snd (turns ts c)) (RegisterCheck name New_metrics))) name =
      Some \<lparr>chk_Failures = int (length (filter failed (map fst ts))), chk_Healthy = (streak (map fst ts) = 0)\<rparr> \<and>
    healthy (fst (turns ts c)) = (int (streak (map fst ts)) < threshold c)"
proof -
  have c: "checker_ok c" "failures c = 0" "metricsFn c" "chk_name c = name"
    using check_New_ok [OF assms] assms by (auto elim: check_New_cases)
  have "map_of (checks (RegisterCheck name New_metrics)) (chk_name c) = Some \<lparr>chk_Failures = 0, chk_Healthy = True\<rparr>"
    using c(4) by (simp add: RegisterCheck_def chkRegister_def New_metrics_def)
  from status_of_turns [OF c(3) this, of ts]
  have "map_of (checks (fold apply_effect (snd (turns ts c)) (RegisterCheck name New_metrics))) name =
      Some \<lparr>chk_Failures = int (length (filter failed (map fst ts))), chk_Healthy = (streak (map fst ts) = 0)\<rparr>"
    unfolding c(4) .
  then show ?thesis using healthy_streak [OF c(1,2)] by blast
qed

lemma status_before_threshold_witness:
  "\<exists>c. check_New (\<lambda>u. True) ''db'' \<lparr>cfg_HTTP = None, cfg_TCP = Some \<lparr>tcp_Host = [], tcp_Port = 5432\<rparr>,
       cfg_Exec = None, cfg_Period = [], cfg_Timeout = [], cfg_InitialDelay = [], cfg_Threshold = 3\<rparr> True True = Inr c \<and>
     map_of (checks (fold apply_effect (snd (turns [(Some Tcp_failed, False)] c)) (RegisterCheck ''db'' New_metrics))) ''db'' =
       Some \<lparr>chk_Failures = 1, chk_Healthy = False\<rparr> \<and>
     healthy (fst (turns [(Some Tcp_failed, False)] c))"
proof -
  define cfg where "cfg = \<lparr>cfg_HTTP = None, cfg_TCP = Some \<lparr>tcp_Host = [], tcp_Port = 5432\<rparr>,
       cfg_Exec = None, cfg_Period = [], cfg_Timeout = [], cfg_InitialDelay = [], cfg_Threshold = 3\<rparr>"
  have "ParseDuration [] = None" by (simp add: ParseDuration_def)
  then have "\<exists>c. check_New (\<lambda>u. True) ''db'' cfg True True = Inr c \<and> threshold c = 3"
    by (simp add: cfg_def check_New_def positive_or_def delay_of_def count_types_def Let_def)
  then obtain c where c: "check_New (\<lambda>u. True) ''db'' cfg True True = Inr c" "threshold c = 3" by blast
  have "streak [Some Tcp_failed] = 1" by (simp add: streak_def conclusive_def failed_def)
  then show ?thesis
    using status_before_threshold [OF c(1), of "[(Some Tcp_failed, False)]"] c
    by (intro exI [of _ c]) (simp add: cfg_def failed_def)
qed

section \<open>The verdict of an exec probe\<close>

text \<open>
  C20. An exec probe that runs beside the reap loop terminates with the status of its own child as
  soon as the loop has reaped it: whatever other children were forked, reaped or forgotten before
  and meanwhile, the status case of the \<open>select\<close> is enabled, the verdict is success exactly for exit
  code 0, and the registration is gone afterwards.
\<close>

theorem exec_probe_verdict:
  assumes "run_ops ops0 (New_registry b) = Some r" "fork_result w = Inr pid" "selected w = Status_arrived"
    and "while_waiting w = xs @ Op_Deliver pid code # ys" "waiting pid xs"
    and "Op_Receive (forks ops0) \<notin> set (xs @ Op_Deliver pid code # ys)"
  shows "\<exists>r'. checkExecReaped w r = Some (r', if code = 0 then None else Some (Exec_status code)) \<and>
    map_of (waiters r') pid = None"
proof -
  have len: "length (chans r) = forks ops0" using run_matches [of ops0 b] assms(1) matchesD(1) by auto
  obtain r1 where st: "Start (Inr pid :: unit + int) r = (r1, Inr (pid, forks ops0))"
    using len by (simp add: Start_def Let_def)
  obtain r2 where r2: "run_ops (while_waiting w) r1 = Some r2" "chans r2 ! forks ops0 = [code]"
    using delivered_status [OF assms(1) st assms(5,6)] assms(4) by auto
  have "checkExecReaped w r = Some (Forget pid (receive (forks ops0) r2), if code = 0 then None else Some (Exec_status code))"
    using assms(2,3) st r2 by (simp add: checkExecReaped_def)
  then show ?thesis by (simp add: Forget_def)
qed

theorem exec_probe_verdict_witness:
  "\<exists>r r'. run_ops [Op_Activate, Op_Start (Inr 40)] (New_registry True) = Some r \<and>
     checkExecReaped \<lparr>http_do = Inl (), tcp_dial = False, cmd_run = Run_error, fork_result = Inr 41,
       while_waiting = [Op_Deliver 40 0, Op_Deliver 41 1, Op_Start (Inr 42)], selected = Status_arrived\<rparr> r =
       Some (r', Some (Exec_status 1))"
proof -
  obtain r where r: "run_ops [Op_Activate, Op_Start (Inr 40)] (New_registry True) = Some r"
    using run_matches by blast
  have f: "forks [Op_Activate, Op_Start (Inr 40)] = 1" by simp
  show ?thesis
    using exec_probe_verdict [OF r, of "\<lparr>http_do = Inl (), tcp_dial = False, cmd_run = Run_error, fork_result = Inr 41,
       while_waiting = [Op_Deliver 40 0, Op_Deliver 41 1, Op_Start (Inr 42)], selected = Status_arrived\<rparr>" 41
       "[Op_Deliver 40 0]" 1 "[Op_Start (Inr 42)]"] r f
    by (auto simp: waiting_def)
qed

end
