(* ===== verification/Control.thy ===== *)
theory Control
  imports Go_Duration
begin

text \<open>
  The control socket: \<open>control/options.go\<close>, \<open>control/client.go\<close> and \<open>control/server.go\<close>. The daemon's
  callbacks are fields of the server record and work on an abstract daemon state, so that the same
  definitions serve whatever the daemon does; a callback that is not wired is \<^const>\<open>None\<close>. The texts
  of the error replies are values of a datatype; each is sent with the prefix \<open>error: \<close>, which is all the
  client looks at. Sockets, deadlines and the scheduling of the connections are arguments or steps.

  The lemmas show that a lifecycle command that the client accepts reaches the right callback with
  the service and the options given on the command line, and that the two semaphores bound the
  connections without a leak on any path, panics included.
\<close>

section \<open>Options\<close>

definition DefaultWaitTimeout :: duration where "DefaultWaitTimeout = 60 * second"
definition MaxWaitTimeout :: duration where "MaxWaitTimeout = 5 * minute"

record ActionOptions =
  opt_Timeout :: duration
  opt_Wait :: bool

definition no_options :: ActionOptions where
  "no_options = \<lparr>opt_Timeout = 0, opt_Wait = False\<rparr>"

definition wire :: "ActionOptions \<Rightarrow> string" where
  "wire opts =
     (if \<not> opt_Wait opts then []
      else if 0 < opt_Timeout opts then ''--wait --timeout '' @ Duration_String (opt_Timeout opts)
      else ''--wait'')"

datatype ctl_error =
  Timeout_requires_duration
| Invalid_timeout_flag string
| Timeout_not_positive string
| Timeout_too_long string
| Timeout_requires_wait
| Unknown_output_format string
| Wait_not_allowed
| Unknown_action string
| Usage
| O_requires_format
| Extra_status_argument string
| Empty_command
| Not_supported string
| Requires_service string
| Unexpected_argument string string
| Signal_usage
| Unknown_command string
| Callback_error string

fun extract_wait :: "string list \<Rightarrow> string list \<Rightarrow> ActionOptions \<Rightarrow> ctl_error + string list \<times> ActionOptions" where
  "extract_wait [] positional opts =
     (if 0 < opt_Timeout opts \<and> \<not> opt_Wait opts then Inl Timeout_requires_wait else Inr (positional, opts))"
| "extract_wait (a # args) positional opts =
     (if a = ''--wait'' then extract_wait args positional (opts\<lparr>opt_Wait := True\<rparr>)
      else if a = ''--timeout'' then
        (case args of
           [] \<Rightarrow> Inl Timeout_requires_duration
         | v # args' \<Rightarrow>
             (case ParseDuration v of
                None \<Rightarrow> Inl (Invalid_timeout_flag v)
              | Some d \<Rightarrow>
                  if d \<le> 0 then Inl (Timeout_not_positive v)
                  else if MaxWaitTimeout < d then Inl (Timeout_too_long v)
                  else extract_wait args' positional (opts\<lparr>opt_Timeout := d\<rparr>)))
      else extract_wait args (positional @ [a]) opts)"

definition extractWaitFlags :: "string list \<Rightarrow> ctl_error + string list \<times> ActionOptions" where
  "extractWaitFlags args = extract_wait args [] no_options"

section \<open>Client\<close>

definition ClientCommands :: "string list" where
  "ClientCommands = [''start'', ''stop'', ''restart'', ''status'', ''signal'', ''logs'', ''reload'']"

definition serviceActions :: "string list" where
  "serviceActions = [''start'', ''stop'', ''restart'', ''status'']"

definition IsClientCommand :: "string list \<Rightarrow> bool" where
  "IsClientCommand args =
     (args \<noteq> [] \<and> (hd args \<in> set ClientCommands \<or> 2 \<le> length args \<and> args ! 1 \<in> set serviceActions))"

definition ClientCommandList :: "string list" where
  "ClientCommandList = sort ClientCommands"

text \<open>\<open>peerTrusted\<close>; the uid is -1 where the platform has no peer credentials.\<close>

definition peerTrusted :: "int \<Rightarrow> int \<Rightarrow> bool" where
  "peerTrusted uid euid = (uid = -1 \<or> uid = 0 \<or> uid = euid)"

fun extract_output :: "string list \<Rightarrow> string list \<Rightarrow> ctl_error + string list \<times> string" where
  "extract_output before (a # b # rest) =
     (if a \<noteq> ''-o'' then extract_output (before @ [a]) (b # rest)
      else if b \<noteq> ''json'' then Inl (Unknown_output_format b)
      else Inr (before @ rest, ''-o '' @ b))"
| "extract_output before rest = Inr (before @ rest, [])"

definition extractOutputFlag :: "string list \<Rightarrow> ctl_error + string list \<times> string" where
  "extractOutputFlag args = extract_output [] args"

definition waitableCommand :: "string \<Rightarrow> bool" where
  "waitableCommand cmd =
     (let action = (case cut_at (CHR '' '') cmd of Some (a, _) \<Rightarrow> a | None \<Rightarrow> cmd)
      in action = ''start'' \<or> action = ''stop'' \<or> action = ''restart'')"

definition buildPositionalCommand :: "string list \<Rightarrow> ctl_error + string" where
  "buildPositionalCommand args =
     (if length args = 1 \<and> (args ! 0 = ''status'' \<or> args ! 0 = ''reload'') then Inr (args ! 0)
      else if length args = 3 \<and> args ! 0 = ''signal'' then Inr (''signal '' @ args ! 1 @ '' '' @ args ! 2)
      else if 2 \<le> length args \<and> args ! 0 = ''logs'' then Inr (join '' '' args)
      else if length args = 2 then
        (let (action, svcName) =
           (if args ! 0 \<in> set serviceActions then (args ! 0, args ! 1) else (args ! 1, args ! 0))
         in if action \<notin> set serviceActions then Inl (Unknown_action action)
            else Inr (action @ '' '' @ svcName))
      else Inl Usage)"

definition buildClientCommand :: "string list \<Rightarrow> ctl_error + string" where
  "buildClientCommand args =
     result_bind (extractOutputFlag args) (\<lambda>(positional, flagSuffix).
     result_bind (extractWaitFlags positional) (\<lambda>(positional, waitOpts).
     result_bind (buildPositionalCommand positional) (\<lambda>cmd.
       if opt_Wait waitOpts \<and> \<not> waitableCommand cmd then Inl Wait_not_allowed
       else let cmd = (if opt_Wait waitOpts then cmd @ '' '' @ wire waitOpts else cmd)
            in Inr (if flagSuffix \<noteq> [] then cmd @ '' '' @ flagSuffix else cmd))))"

text \<open>The reply: every line goes to one of the two outputs, and an error line makes the client fail.\<close>

definition client_reply :: "string list \<Rightarrow> string list \<times> string list \<times> int" where
  "client_reply lines =
     (filter (\<lambda>l. \<not> has_prefix l ''error:'') lines, filter (\<lambda>l. has_prefix l ''error:'') lines,
      if list_ex (\<lambda>l. has_prefix l ''error:'') lines then 1 else 0)"

section \<open>Server: commands\<close>

type_synonym 's action_fn = "string \<Rightarrow> ActionOptions \<Rightarrow> 's \<Rightarrow> 's \<times> (string + string)"

record 's server =
  StartFn :: "'s action_fn option"
  StopFn :: "'s action_fn option"
  RestartFn :: "'s action_fn option"
  StatusFn :: "(string \<Rightarrow> 's \<Rightarrow> string + string) option"
  SignalFn :: "(string \<Rightarrow> string \<Rightarrow> 's \<Rightarrow> 's \<times> (string + string)) option"
  ReloadFn :: "('s \<Rightarrow> 's \<times> (string + string)) option"
  StatsFn :: "('s \<Rightarrow> string) option"
  StatsJSONFn :: "('s \<Rightarrow> string) option"
  StatusJSONFn :: "(string \<Rightarrow> 's \<Rightarrow> string + string) option"
  LogsFn :: "(string \<Rightarrow> bool \<Rightarrow> 's \<Rightarrow> string + string list) option"

datatype reply = Message string | Error ctl_error

definition reply_of :: "string + string \<Rightarrow> reply" where
  "reply_of r = (case r of Inl e \<Rightarrow> Error (Callback_error e) | Inr msg \<Rightarrow> Message msg)"

text \<open>\<open>parseStatusArgs\<close>: the service name (empty for none) and whether JSON was asked for.\<close>

fun parse_status :: "string list \<Rightarrow> string \<Rightarrow> bool \<Rightarrow> ctl_error + string \<times> bool" where
  "parse_status [] svcName json = Inr (svcName, json)"
| "parse_status (a # args) svcName json =
     (if a = ''-o'' then
        (case args of
           [] \<Rightarrow> Inl O_requires_format
         | v # args' \<Rightarrow> if v \<noteq> ''json'' then Inl (Unknown_output_format v) else parse_status args' svcName True)
      else if svcName \<noteq> [] then Inl (Extra_status_argument a)
      else parse_status args a json)"

definition parseStatusArgs :: "string list \<Rightarrow> ctl_error + string \<times> bool" where
  "parseStatusArgs args = parse_status args [] False"

definition status_command :: "'s server \<Rightarrow> string list \<Rightarrow> 's \<Rightarrow> reply" where
  "status_command cs args s =
     (case parseStatusArgs args of
        Inl e \<Rightarrow> Error e
      | Inr (svcName, json) \<Rightarrow>
          if svcName = [] then
            (if json
             then (case StatsJSONFn cs of None \<Rightarrow> Error (Not_supported ''status -o json'') | Some f \<Rightarrow> Message (f s))
             else (case StatsFn cs of None \<Rightarrow> Error (Not_supported ''status'') | Some f \<Rightarrow> Message (f s)))
          else if json
          then (case StatusJSONFn cs of
                  None \<Rightarrow> Error (Not_supported ''status -o json'') | Some f \<Rightarrow> reply_of (f svcName s))
          else (case StatusFn cs of None \<Rightarrow> Error (Not_supported ''status'') | Some f \<Rightarrow> reply_of (f svcName s)))"

definition action_fn :: "'s server \<Rightarrow> string \<Rightarrow> 's action_fn option" where
  "action_fn cs cmd =
     (if cmd = ''start'' then StartFn cs else if cmd = ''stop'' then StopFn cs else RestartFn cs)"

definition lifecycle_command :: "'s server \<Rightarrow> string \<Rightarrow> string list \<Rightarrow> 's \<Rightarrow> 's \<times> reply" where
  "lifecycle_command cs cmd args s =
     (case args of
        [] \<Rightarrow> (s, Error (Requires_service cmd))
      | name # rest \<Rightarrow>
          (case extractWaitFlags rest of
             Inl e \<Rightarrow> (s, Error e)
           | Inr (extra, opts) \<Rightarrow>
               if extra \<noteq> [] then (s, Error (Unexpected_argument cmd (hd extra)))
               else case action_fn cs cmd of
                 None \<Rightarrow> (s, Error (Not_supported cmd))
               | Some fn \<Rightarrow> let (s', r) = fn name opts s in (s', reply_of r)))"

definition handleCommand :: "'s server \<Rightarrow> string list \<Rightarrow> 's \<Rightarrow> 's \<times> reply" where
  "handleCommand cs parts s =
     (case parts of
        [] \<Rightarrow> (s, Error Empty_command)
      | cmd # args \<Rightarrow>
          if cmd = ''status'' then (s, status_command cs args s)
          else if cmd = ''start'' \<or> cmd = ''stop'' \<or> cmd = ''restart'' then lifecycle_command cs cmd args s
          else if cmd = ''signal'' then
            (case args of
               name # sig # _ \<Rightarrow>
                 (case SignalFn cs of
                    None \<Rightarrow> (s, Error (Not_supported ''signal''))
                  | Some fn \<Rightarrow> let (s', r) = fn name sig s in (s', reply_of r))
             | _ \<Rightarrow> (s, Error Signal_usage))
          else if cmd = ''reload'' then
            (case ReloadFn cs of
               None \<Rightarrow> (s, Error (Not_supported ''reload''))
             | Some fn \<Rightarrow> let (s', r) = fn s in (s', reply_of r))
          else (s, Error (Unknown_command cmd)))"

text \<open>\<open>errtext\<close> renders the message of an error.\<close>

definition render :: "(ctl_error \<Rightarrow> string) \<Rightarrow> reply \<Rightarrow> string" where
  "render errtext r = (case r of Message msg \<Rightarrow> msg | Error e \<Rightarrow> ''error: '' @ errtext e)"


section \<open>Server: connections\<close>

record socket_config =
  sock_Path :: string
  sock_Mode :: int

definition DefaultSocketPath :: string where "DefaultSocketPath = ''/run/gopherd.sock''"
definition DefaultSocketMode :: int where "DefaultSocketMode = 384"

definition NewServer :: "socket_config \<Rightarrow> socket_config" where
  "NewServer cfg =
     \<lparr>sock_Path = (if sock_Path cfg = [] then DefaultSocketPath else sock_Path cfg),
      sock_Mode = (if sock_Mode cfg = 0 then DefaultSocketMode else sock_Mode cfg)\<rparr>"

datatype node_kind = Node_symlink | Node_socket | Node_other

datatype listen_result = Listening | Listen_in_use | Listen_failed

datatype start_error =
  Symlink_at_path | Path_held | Listen_error | Post_lstat_error | Not_a_socket

text \<open>
  What the file system answers while \<open>Start\<close> runs: the node found at the path, whether removing it
  works, the bind, and the node found afterwards. The result tells, beside success or the error, whether
  the node found first was removed.
\<close>

record start_world =
  node_before :: "node_kind option"
  remove_ok :: bool
  listen :: listen_result
  node_after :: "node_kind option"

definition server_Start :: "start_world \<Rightarrow> bool \<times> (start_error + unit)" where
  "server_Start w =
     (if node_before w = Some Node_symlink then (False, Inl Symlink_at_path)
      else if node_before w \<noteq> None \<and> \<not> remove_ok w then (False, Inl Path_held)
      else
        (node_before w \<noteq> None,
         case listen w of
           Listen_in_use \<Rightarrow> Inl Path_held
         | Listen_failed \<Rightarrow> Inl Listen_error
         | Listening \<Rightarrow>
             (case node_after w of
                None \<Rightarrow> Inl Post_lstat_error
              | Some k \<Rightarrow> if k = Node_socket then Inr () else Inl Not_a_socket)))"

text \<open>What \<open>handleConn\<close> does with the first line of a connection (\<^const>\<open>None\<close> when none arrives in time).\<close>

datatype conn_action = Drop | Denied | Stream_logs "string list" | Command "string list"

definition classify :: "string option \<Rightarrow> int \<Rightarrow> int \<Rightarrow> conn_action" where
  "classify text uid euid =
     (case text of
        None \<Rightarrow> Drop
      | Some l \<Rightarrow>
          let line = trim_space l
          in if line = [] then Drop
             else if uid \<noteq> -1 \<and> uid \<noteq> 0 \<and> uid \<noteq> euid then Denied
             else let parts = split_fields line
                  in if hd parts = ''logs'' then Stream_logs parts else Command parts)"

text \<open>
  The streaming handler. The arguments are how many of the recent lines reach the client before a
  write fails, and the events of the streaming loop; the result is what was written and whether the
  handler has returned.
\<close>

datatype stream_event = Line_arrived string bool | Channel_closed | Idle_timeout | Server_done

fun stream_loop :: "stream_event list \<Rightarrow> string list \<times> bool" where
  "stream_loop [] = ([], False)"
| "stream_loop (Line_arrived line ok # es) =
     (if \<not> ok then ([], True) else let (out, fin) = stream_loop es in (line # out, fin))"
| "stream_loop (Channel_closed # es) = ([], True)"
| "stream_loop (Idle_timeout # es) = ([], True)"
| "stream_loop (Server_done # es) = ([], True)"

definition handleLogs ::
  "'s server \<Rightarrow> string list \<Rightarrow> nat \<Rightarrow> stream_event list \<Rightarrow> 's \<Rightarrow> ctl_error + string list \<times> bool" where
  "handleLogs cs parts writable es s =
     (if length parts < 2 then Inl (Requires_service ''logs'')
      else let name = parts ! 1; follow = (3 \<le> length parts \<and> parts ! 2 = ''-f'')
           in case LogsFn cs of
             None \<Rightarrow> Inl (Not_supported ''logs'')
           | Some f \<Rightarrow>
               (case f name follow s of
                  Inl e \<Rightarrow> Inl (Callback_error e)
                | Inr recent \<Rightarrow>
                    if writable < length recent then Inr (take writable recent, True)
                    else if \<not> follow then Inr (recent, True)
                    else let (out, fin) = stream_loop es in Inr (recent @ out, fin)))"

subsection \<open>Slots\<close>

definition maxConns :: nat where "maxConns = 64"
definition maxStreaming :: nat where "maxStreaming = 16"

text \<open>
  Where a connection is: it holds a command slot, it has given it back and asks for a streaming slot,
  or it holds a streaming slot.
\<close>

datatype phase = In_command | Asks_stream | In_stream

record slots =
  cmdSem :: nat
  streamSem :: nat
  conns :: "(nat \<times> phase) list"
  srv_closed :: bool

definition no_conns :: slots where
  "no_conns = \<lparr>cmdSem = 0, streamSem = 0, conns = [], srv_closed = False\<rparr>"

text \<open>
  The steps of \<open>acceptLoop\<close> and of the handlers. A handler gives its slot back when it returns and when
  a callback panics alike, since the release is deferred.
\<close>

inductive slot_step :: "slots \<Rightarrow> slots \<Rightarrow> bool" where
  accept: "\<not> srv_closed s \<Longrightarrow> cmdSem s < maxConns \<Longrightarrow> i \<notin> fst ` set (conns s) \<Longrightarrow>
    slot_step s (s\<lparr>cmdSem := cmdSem s + 1, conns := (i, In_command) # conns s\<rparr>)"
| at_capacity: "\<not> srv_closed s \<Longrightarrow> cmdSem s = maxConns \<Longrightarrow> slot_step s s"
| finish: "map_of (conns s) i = Some In_command \<Longrightarrow>
    slot_step s (s\<lparr>cmdSem := cmdSem s - 1, conns := AList.delete i (conns s)\<rparr>)"
| release: "map_of (conns s) i = Some In_command \<Longrightarrow>
    slot_step s (s\<lparr>cmdSem := cmdSem s - 1, conns := AList.update i Asks_stream (conns s)\<rparr>)"
| acquire: "map_of (conns s) i = Some Asks_stream \<Longrightarrow> streamSem s < maxStreaming \<Longrightarrow>
    slot_step s (s\<lparr>streamSem := streamSem s + 1, conns := AList.update i In_stream (conns s)\<rparr>)"
| refuse: "map_of (conns s) i = Some Asks_stream \<Longrightarrow> streamSem s = maxStreaming \<Longrightarrow>
    slot_step s (s\<lparr>conns := AList.delete i (conns s)\<rparr>)"
| stream_end: "map_of (conns s) i = Some In_stream \<Longrightarrow>
    slot_step s (s\<lparr>streamSem := streamSem s - 1, conns := AList.delete i (conns s)\<rparr>)"
| stop: "\<not> srv_closed s \<Longrightarrow> slot_step s (s\<lparr>srv_closed := True\<rparr>)"

inductive_cases slot_stepE: "slot_step s s'"

definition in_phase :: "phase \<Rightarrow> slots \<Rightarrow> nat" where
  "in_phase p s = length (filter (\<lambda>x. snd x = p) (conns s))"

definition slots_ok :: "slots \<Rightarrow> bool" where
  "slots_ok s =
     (dict_ok (conns s) \<and> cmdSem s = in_phase In_command s \<and> streamSem s = in_phase In_stream s \<and>
      cmdSem s \<le> maxConns \<and> streamSem s \<le> maxStreaming)"

lemma count_pos: "map_of d i = Some p \<Longrightarrow> 0 < length (filter (\<lambda>x. snd x = p) d)"
  by (force simp: filter_empty_conv dest: map_of_SomeD)

lemma count_delete:
  "dict_ok d \<Longrightarrow> map_of d i = Some p \<Longrightarrow>
     length (filter (\<lambda>x. snd x = q) (AList.delete i d))
       = length (filter (\<lambda>x. snd x = q) d) - (if p = q then 1 else 0)"
proof (induction d)
  case (Cons x d)
  have out: "AList.delete i d = d" if "fst x = i"
    using Cons(2) that by (intro AList.delete_id) (auto simp: dict_ok_def)
  have in_d: "0 < length (filter (\<lambda>x. snd x = p) d)" if "fst x \<noteq> i"
    using Cons(3) that count_pos [of d i p] by (cases x) auto
  show ?case
  proof (cases "fst x = i")
    case True
    then show ?thesis using Cons(3) out by (cases x) (simp add: AList.delete_eq)
  next
    case False
    have "length (filter (\<lambda>x. snd x = q) (AList.delete i d))
        = length (filter (\<lambda>x. snd x = q) d) - (if p = q then 1 else 0)"
      using Cons(2,3) False by (intro Cons(1)) (cases x; auto simp: dict_ok_def)+
    then show ?thesis using False in_d by (auto simp: AList.delete_eq Suc_diff_Suc)
  qed
qed simp

lemma count_update:
  "dict_ok d \<Longrightarrow> map_of d i = Some p \<Longrightarrow>
     length (filter (\<lambda>x. snd x = q) (AList.update i p' d))
       = length (filter (\<lambda>x. snd x = q) d) - (if p = q then 1 else 0) + (if p' = q then 1 else 0)"
proof (induction d)
  case (Cons x d)
  have in_d: "0 < length (filter (\<lambda>x. snd x = p) d)" if "fst x \<noteq> i"
    using Cons(3) that count_pos [of d i p] by (cases x) auto
  show ?case
  proof (cases "fst x = i")
    case True
    then show ?thesis using Cons(3) by (cases x) simp
  next
    case False
    have "length (filter (\<lambda>x. snd x = q) (AList.update i p' d))
        = length (filter (\<lambda>x. snd x = q) d) - (if p = q then 1 else 0) + (if p' = q then 1 else 0)"
      using Cons(2,3) False by (intro Cons(1)) (cases x; auto simp: dict_ok_def)+
    then show ?thesis using False in_d by (cases x) (auto simp: Suc_diff_Suc)
  qed
qed simp

lemma slots_ok_step: "slot_step s s' \<Longrightarrow> slots_ok s \<Longrightarrow> slots_ok s'"
proof (induction rule: slot_step.induct)
  case (accept s i)
  then show ?case by (auto simp: slots_ok_def in_phase_def dict_ok_def)
next
  case (finish s i)
  then show ?case by (auto simp: slots_ok_def in_phase_def count_delete)
next
  case (release s i)
  then show ?case by (auto simp: slots_ok_def in_phase_def count_update)
next
  case (acquire s i)
  then show ?case by (auto simp: slots_ok_def in_phase_def count_update)
next
  case (refuse s i)
  then show ?case by (auto simp: slots_ok_def in_phase_def count_delete)
next
  case (stream_end s i)
  then show ?case by (auto simp: slots_ok_def in_phase_def count_delete)
qed (auto simp: slots_ok_def in_phase_def)

lemma slots_reachable: "slot_step\<^sup>*\<^sup>* no_conns s \<Longrightarrow> slots_ok s"
proof (induction rule: rtranclp_induct)
  case base
  then show ?case by (simp add: slots_ok_def no_conns_def in_phase_def)
qed (rule slots_ok_step)


text \<open>How many steps a connection has left at most.\<close>

fun steps_left :: "phase \<Rightarrow> nat" where
  "steps_left In_command = 3" | "steps_left Asks_stream = 2" | "steps_left In_stream = 1"

definition weight :: "slots \<Rightarrow> nat" where
  "weight s = sum_list (map (steps_left \<circ> snd) (conns s))"

lemma weight_delete:
  "dict_ok d \<Longrightarrow> map_of d i = Some p \<Longrightarrow>
     sum_list (map (steps_left \<circ> snd) (AList.delete i d)) + steps_left p = sum_list (map (steps_left \<circ> snd) d)"
proof (induction d)
  case (Cons x d)
  have "AList.delete i d = d" if "fst x = i"
    using Cons(2) that by (intro AList.delete_id) (auto simp: dict_ok_def)
  then show ?case using Cons by (cases x) (auto simp: AList.delete_eq dict_ok_def)
qed simp

lemma weight_update:
  "dict_ok d \<Longrightarrow> map_of d i = Some p \<Longrightarrow>
     sum_list (map (steps_left \<circ> snd) (AList.update i q d)) + steps_left p
       = sum_list (map (steps_left \<circ> snd) d) + steps_left q"
proof (induction d)
  case (Cons x d)
  then show ?case by (cases x) (auto simp: dict_ok_def)
qed simp

lemma closed_step:
  assumes "slot_step s s'" "srv_closed s" "slots_ok s"
  shows "weight s' < weight s \<and> srv_closed s'"
  using assms
proof (cases rule: slot_step.cases)
  case (finish i)
  then show ?thesis using assms weight_delete [of "conns s" i In_command] by (simp add: weight_def slots_ok_def)
next
  case (release i)
  then show ?thesis using assms weight_update [of "conns s" i In_command Asks_stream]
    by (simp add: weight_def slots_ok_def)
next
  case (acquire i)
  then show ?thesis using assms weight_update [of "conns s" i Asks_stream In_stream]
    by (simp add: weight_def slots_ok_def)
next
  case (refuse i)
  then show ?thesis using assms weight_delete [of "conns s" i Asks_stream] by (simp add: weight_def slots_ok_def)
next
  case (stream_end i)
  then show ?thesis using assms weight_delete [of "conns s" i In_stream] by (simp add: weight_def slots_ok_def)
qed auto

lemma closed_steps:
  "(slot_step ^^ n) s s' \<Longrightarrow> srv_closed s \<Longrightarrow> slots_ok s \<Longrightarrow> n + weight s' \<le> weight s"
proof (induction n arbitrary: s')
  case (Suc n)
  then obtain t where t: "(slot_step ^^ n) s t" "slot_step t s'" by auto
  have ok: "slots_ok t \<and> srv_closed t"
  proof -
    have "(slot_step ^^ n) s t \<Longrightarrow> slots_ok t \<and> srv_closed t" for t
    proof (induction n arbitrary: t)
      case (Suc n)
      then obtain u where "(slot_step ^^ n) s u" "slot_step u t" by auto
      then show ?case using Suc(1) slots_ok_step closed_step by blast
    qed (use Suc(3,4) in simp)
    then show ?thesis using t(1) .
  qed
  have "n + weight t \<le> weight s" using Suc(1) [OF t(1)] Suc(3,4) by simp
  moreover have "weight s' < weight t" using closed_step [OF t(2)] ok by blast
  ultimately show ?case by simp
qed simp

lemma weight_bound: "weight s \<le> 3 * length (conns s)"
proof -
  have "steps_left p \<le> 3" for p by (cases p) auto
  then have "sum_list (map (steps_left \<circ> snd) d) \<le> 3 * length d" for d :: "(nat \<times> phase) list"
    by (induction d) (auto intro: add_mono)
  then show ?thesis by (simp add: weight_def)
qed

lemma conn_can_step:
  assumes "slots_ok s" "conns s \<noteq> []"
  shows "\<exists>s'. slot_step s s'"
proof -
  obtain i p d where c: "conns s = (i, p) # d" using assms(2) by (cases "conns s") auto
  then have i: "map_of (conns s) i = Some p" by simp
  consider "p = In_command" | "p = In_stream" | "p = Asks_stream" "streamSem s < maxStreaming"
    | "p = Asks_stream" "streamSem s = maxStreaming"
    using assms(1) by (cases p) (auto simp: slots_ok_def le_less)
  then show ?thesis using i by cases (blast intro: slot_step.intros)+
qed

text \<open>
  C22. At every moment the command semaphore counts the connections that run a command and the
  streaming semaphore those that follow a log: at most 64 and 16, with no slot lost on any path, so
  that log followers, however many, leave the command slots alone.
\<close>

theorem slots_bounded:
  assumes "slot_step\<^sup>*\<^sup>* no_conns s"
  shows "cmdSem s = in_phase In_command s \<and> cmdSem s \<le> 64 \<and>
    streamSem s = in_phase In_stream s \<and> streamSem s \<le> 16 \<and>
    (in_phase In_command s < 64 \<and> \<not> srv_closed s \<longrightarrow>
       (\<exists>s'. slot_step s s' \<and> in_phase In_command s' = in_phase In_command s + 1))"
proof -
  have ok: "slots_ok s" by (rule slots_reachable [OF assms])
  have "\<exists>s'. slot_step s s' \<and> in_phase In_command s' = in_phase In_command s + 1"
    if c: "in_phase In_command s < 64" "\<not> srv_closed s"
  proof -
    obtain i where "i \<notin> fst ` set (conns s)" using ex_new_if_finite [of "fst ` set (conns s)"] by (auto simp: infinite_UNIV_nat)
    then have "slot_step s (s\<lparr>cmdSem := cmdSem s + 1, conns := (i, In_command) # conns s\<rparr>)"
      using c ok by (intro accept) (auto simp: slots_ok_def maxConns_def)
    then show ?thesis by (intro exI [of _ "s\<lparr>cmdSem := cmdSem s + 1, conns := (i, In_command) # conns s\<rparr>"])
      (simp add: in_phase_def)
  qed
  then show ?thesis using ok by (auto simp: slots_ok_def maxConns_def maxStreaming_def)
qed

theorem slots_bounded_witness:
  "slot_step\<^sup>*\<^sup>* no_conns (no_conns\<lparr>cmdSem := 1, conns := [(0, In_command)]\<rparr>) \<and>
   cmdSem (no_conns\<lparr>cmdSem := 1, conns := [(0, In_command)]\<rparr>) = in_phase In_command (no_conns\<lparr>cmdSem := 1, conns := [(0, In_command)]\<rparr>) \<and>
   (\<exists>s'. slot_step (no_conns\<lparr>cmdSem := 1, conns := [(0, In_command)]\<rparr>) s' \<and> in_phase In_command s' = 2)"
proof -
  have "slot_step no_conns (no_conns\<lparr>cmdSem := cmdSem no_conns + 1, conns := (0, In_command) # conns no_conns\<rparr>)"
    by (rule accept) (simp_all add: no_conns_def maxConns_def)
  then have r: "slot_step\<^sup>*\<^sup>* no_conns (no_conns\<lparr>cmdSem := 1, conns := [(0, In_command)]\<rparr>)"
    by (simp add: no_conns_def)
  then show ?thesis using slots_bounded [OF r] by (simp add: in_phase_def no_conns_def numeral_2_eq_2)
qed



section \<open>From the command line to the callback\<close>

lemma ascii_plain: "ascii_text c \<Longrightarrow> plain c"
  using ascii_text_not_space(1) [of c]
  by (auto simp: ascii_text_def plain_def)

lemma digits_plain: "list_all is_digit s \<Longrightarrow> list_all plain s"
  by (auto simp: list_all_iff plain_def space1_def is_digit_def less_eq_char_def)

lemma solid_digits: "solid (nat_digits n)"
  using nat_digits_correct [of n] by (intro solid_plain digits_plain) simp

lemma solid_fraction: "solid (fst (fmtFrac v p))"
proof -
  obtain ds w where f: "frac_digits p v [] = (ds, w)" by (cases "frac_digits p v []")
  have "list_all is_digit ds" using frac_digits_value [OF f] by simp
  then have "list_all plain (fst (fmtFrac v p))"
    using digits_plain f by (auto simp: fmtFrac_def plain_def space1_def)
  then show ?thesis by (rule solid_plain)
qed

lemma solid_micro: "solid micro_sign"
proof -
  have "split_fields_from w (CHR 0xC2 # CHR 0xB5 # s) = split_fields_from (w @ [CHR 0xC2, CHR 0xB5]) s" for w s
    by (cases s rule: remdups_adj.cases) (simp_all add: space1_def space2_def space3_def)
  then show ?thesis by (simp add: solid_def micro_sign_def)
qed

lemma solid_units: "solid ''h''" "solid ''m''" "solid ''s''" "solid ''ns''" "solid ''ms''"
  by (rule solid_plain, simp add: plain_def space1_def)+

lemma solid_Duration:
  assumes "0 \<le> d"
  shows "solid (Duration_String d)"
proof -
  have unit: "solid (fmt_unit v p u)" if "solid u" for v p u
    using solid_fraction [of v p] solid_digits that
    by (auto simp: fmt_unit_def Let_def case_prod_beta intro!: solid_append)
  have clock: "solid (fmt_clock v)" for v
    using solid_fraction [of v 9] solid_digits solid_units
    by (auto simp: fmt_clock_def Let_def case_prod_beta intro!: solid_append simp del: append_assoc)
  have "solid ''0s''" by (rule solid_plain) (simp add: plain_def space1_def)
  then have "solid (duration_body v)" for v
    using unit clock solid_units solid_append [OF solid_micro solid_units(3)] by (simp add: duration_body_def)
  then show ?thesis using assms by (simp add: Duration_String_def)
qed

lemma last_Duration: "last (Duration_String d) = CHR ''s'' \<and> Duration_String d \<noteq> []"
proof -
  have "last (fmt_unit v p (u @ ''s'')) = CHR ''s'' \<and> fmt_unit v p (u @ ''s'') \<noteq> []" for v p u
    by (simp add: fmt_unit_def Let_def case_prod_beta)
  note u = this [of _ _ "''n''"] this [of _ _ micro_sign] this [of _ _ "''m''"]
  have "last (fmt_clock v) = CHR ''s'' \<and> fmt_clock v \<noteq> []" for v by (simp add: fmt_clock_def Let_def case_prod_beta)
  with u show ?thesis by (simp add: Duration_String_def duration_body_def)
qed

text \<open>The flags of the command line for some options, the duration in any spelling.\<close>

definition flags :: "ActionOptions \<Rightarrow> string \<Rightarrow> string list" where
  "flags opts text =
     (if \<not> opt_Wait opts then [] else if 0 < opt_Timeout opts then [''--wait'', ''--timeout'', text] else [''--wait''])"

definition options_ok :: "ActionOptions \<Rightarrow> string \<Rightarrow> bool" where
  "options_ok opts text =
     (0 \<le> opt_Timeout opts \<and> opt_Timeout opts \<le> MaxWaitTimeout \<and>
      (opt_Wait opts \<or> opt_Timeout opts = 0) \<and>
      (0 < opt_Timeout opts \<longrightarrow> ParseDuration text = Some (opt_Timeout opts)))"

definition service_word :: "string \<Rightarrow> bool" where
  "service_word name =
     (name \<noteq> [] \<and> list_all ascii_text name \<and> name \<notin> {''--wait'', ''--timeout'', ''-o''} \<and> name \<notin> set ClientCommands)"

lemma extract_wait_words:
  "list_all (\<lambda>a. a \<noteq> ''--wait'' \<and> a \<noteq> ''--timeout'') ws \<Longrightarrow>
     extract_wait (ws @ args) pos opts = extract_wait args (pos @ ws) opts"
  by (induction ws arbitrary: pos) auto

lemma extract_wait_flags:
  assumes "options_ok opts text"
  shows "extract_wait (flags opts text) pos no_options = Inr (pos, opts)"
  using assms
  by (cases opts) (auto simp: flags_def options_ok_def no_options_def)

lemma extract_output_words:
  "list_all (\<lambda>a. a \<noteq> ''-o'') ws \<Longrightarrow> extract_output before ws = Inr (before @ ws, [])"
  by (induction before ws rule: extract_output.induct) auto

lemma flags_no_output: "options_ok opts text \<Longrightarrow> list_all (\<lambda>a. a \<noteq> ''-o'') (flags opts text)"
proof -
  have "ParseDuration ''-o'' = None"
    by (simp add: ParseDuration_def parse_groups.simps parse_group_def number_char_def is_digit_def less_eq_char_def)
  then show "options_ok opts text \<Longrightarrow> list_all (\<lambda>a. a \<noteq> ''-o'') (flags opts text)"
    by (auto simp: flags_def options_ok_def)
qed

definition client_line :: "string \<Rightarrow> string \<Rightarrow> ActionOptions \<Rightarrow> string" where
  "client_line cmd name opts = join '' '' ([cmd, name] @ flags opts (Duration_String (opt_Timeout opts)))"

lemma buildClientCommand_line:
  assumes cmd: "cmd \<in> {''start'', ''stop'', ''restart''}" and name: "service_word name"
    and opts: "options_ok opts text"
    and args: "args \<in> {[cmd, name] @ flags opts text, [name, cmd] @ flags opts text}"
  shows "buildClientCommand args = Inr (client_line cmd name opts)"
proof -
  obtain ws where ws: "ws \<in> {[cmd, name], [name, cmd]}" "args = ws @ flags opts text" using args by auto
  have n: "name \<noteq> ''--wait''" "name \<noteq> ''--timeout''" "name \<noteq> ''-o''" "name \<notin> set ClientCommands"
    using name by (auto simp: service_word_def)
  have "extractOutputFlag args = Inr (args, [])"
    unfolding extractOutputFlag_def
    using extract_output_words [of args "[]"] flags_no_output [OF opts] ws n cmd by auto
  moreover have "extractWaitFlags args = Inr (ws, opts)"
    unfolding extractWaitFlags_def ws(2)
    using ws(1) n cmd extract_wait_flags [OF opts, of ws] by (subst extract_wait_words) auto
  moreover have "buildPositionalCommand ws = Inr (cmd @ '' '' @ name)"
  proof -
    have nl: "name \<noteq> ''logs''" "name \<notin> set serviceActions"
      using n(4) unfolding ClientCommands_def serviceActions_def by simp_all
    have cl: "cmd \<noteq> ''logs''" "cmd \<in> set serviceActions"
      using cmd unfolding serviceActions_def by auto
    show ?thesis using ws(1) nl cl by (elim insertE emptyE) (simp_all add: buildPositionalCommand_def)
  qed
  moreover have "waitableCommand (cmd @ '' '' @ name)"
    using cmd by (auto simp: waitableCommand_def)
  moreover have "client_line cmd name opts = (if opt_Wait opts then cmd @ '' '' @ name @ '' '' @ wire opts else cmd @ '' '' @ name)"
    by (simp add: client_line_def flags_def wire_def)
  ultimately show ?thesis by (simp add: buildClientCommand_def)
qed

lemma client_line_fields:
  assumes cmd: "cmd \<in> {''start'', ''stop'', ''restart''}" and name: "service_word name" and opts: "options_ok opts text"
  shows "split_fields (client_line cmd name opts) = [cmd, name] @ flags opts (Duration_String (opt_Timeout opts))"
    "trim_space (client_line cmd name opts) = client_line cmd name opts"
proof -
  have c: "list_all ascii_text cmd" "cmd \<noteq> []" using cmd by (auto simp: ascii_text_def space1_def)
  have n: "list_all ascii_text name" "name \<noteq> []" using name by (auto simp: service_word_def)
  have solid: "solid w" if "list_all ascii_text w" for w
    using that by (intro solid_plain) (auto simp: list_all_iff intro: ascii_plain)
  have w: "list_all ascii_text ''--wait''" "list_all ascii_text ''--timeout''" by (simp_all add: ascii_text_def space1_def)
  have d: "solid (Duration_String (opt_Timeout opts))" using opts by (intro solid_Duration) (simp add: options_ok_def)
  show "split_fields (client_line cmd name opts) = [cmd, name] @ flags opts (Duration_String (opt_Timeout opts))"
    unfolding client_line_def
    by (rule split_fields_join_solid) (use c n w d last_Duration in \<open>auto simp: flags_def intro: solid\<close>)
  have s: "ascii_text (CHR ''s'')" "ascii_text (CHR ''t'')" by (simp_all add: ascii_text_def space1_def)
  have "hd (client_line cmd name opts) = hd cmd" using c(2) by (simp add: client_line_def flags_def)
  moreover have "ascii_text (last (client_line cmd name opts))"
    using n s last_Duration [of "opt_Timeout opts"] by (auto simp: client_line_def flags_def list_all_iff)
  moreover have "client_line cmd name opts \<noteq> []" using c(2) by (simp add: client_line_def flags_def)
  ultimately show "trim_space (client_line cmd name opts) = client_line cmd name opts"
    using c by (intro trim_space_ascii) (auto simp: list_all_iff)
qed

text \<open>
  C21. A lifecycle command goes through: for a service whose name is a word of ASCII characters and no
  command or flag, in either order of action and service, with or without \<open>--wait\<close> and \<open>--timeout\<close>, the
  client builds a line that a server which trusts the peer takes for a command, and handling
  that line calls the callback of that action with that service and with the very options of the
  command line, the timeout included whatever way it was spelt.
\<close>

theorem command_reaches_callback:
  assumes "cmd \<in> {''start'', ''stop'', ''restart''}" "service_word name" "options_ok opts text"
    and "args \<in> {[cmd, name] @ flags opts text, [name, cmd] @ flags opts text}"
    and "action_fn cs cmd = Some fn" "fn name opts s = (s', r)" "uid \<in> {-1, 0, euid}"
  shows "\<exists>line parts. buildClientCommand args = Inr line \<and> classify (Some line) uid euid = Command parts \<and>
    handleCommand cs parts s = (s', reply_of r)"
proof -
  define parts where "parts = [cmd, name] @ flags opts (Duration_String (opt_Timeout opts))"
  note f = client_line_fields [OF assms(1-3)]
  have "client_line cmd name opts \<noteq> []" using assms(1) by (auto simp: client_line_def)
  then have cl: "classify (Some (client_line cmd name opts)) uid euid = Command parts"
    using assms(1,7) f by (auto simp: classify_def Let_def parts_def)
  have "- (2 ^ 63) < opt_Timeout opts" "opt_Timeout opts < 2 ^ 63"
    using assms(3) by (auto simp: options_ok_def MaxWaitTimeout_def minute_def)
  then have "options_ok opts (Duration_String (opt_Timeout opts))"
    using assms(3) ParseDuration_String by (simp add: options_ok_def)
  then have "extractWaitFlags (flags opts (Duration_String (opt_Timeout opts))) = Inr ([], opts)"
    unfolding extractWaitFlags_def by (rule extract_wait_flags)
  then have "handleCommand cs parts s = (s', reply_of r)"
    using assms(1,5,6) by (auto simp: handleCommand_def lifecycle_command_def parts_def)
  then show ?thesis using buildClientCommand_line [OF assms(1-4)] cl by blast
qed


definition recording_server :: "(string \<times> ActionOptions) list server" where
  "recording_server = \<lparr>StartFn = None, StopFn = None, RestartFn = Some (\<lambda>n opts s. ((n, opts) # s, Inr ''ok'')),
     StatusFn = None, SignalFn = None, ReloadFn = None, StatsFn = None, StatsJSONFn = None, StatusJSONFn = None,
     LogsFn = None\<rparr>"

theorem command_reaches_callback_witness:
  "\<exists>line parts. buildClientCommand [''haproxy'', ''restart'', ''--wait'', ''--timeout'', ''15s''] = Inr line \<and>
     classify (Some line) 0 1000 = Command parts \<and>
     handleCommand recording_server parts [] = ([(''haproxy'', \<lparr>opt_Timeout = 15 * second, opt_Wait = True\<rparr>)], Message ''ok'')"
proof -
  define opts where "opts = \<lparr>opt_Timeout = 15 * second, opt_Wait = True\<rparr>"
  have "nat_digits 15 = ''15''" by code_simp
  then have "ParseDuration ''15s'' = Some (15 * second)"
    using ParseDuration_whole [of "''s''" 1000000000 15] by (simp add: unit_words second_def)
  then have o: "options_ok opts ''15s''"
    by (simp add: options_ok_def opts_def MaxWaitTimeout_def second_def minute_def)
  have n: "service_word ''haproxy''" by (simp add: service_word_def ascii_text_def space1_def ClientCommands_def)
  have "[''haproxy'', ''restart'', ''--wait'', ''--timeout'', ''15s'']
      \<in> {[''restart'', ''haproxy''] @ flags opts ''15s'', [''haproxy'', ''restart''] @ flags opts ''15s''}"
    by (simp add: flags_def opts_def second_def)
  from command_reaches_callback [OF _ n o this, of recording_server
      "\<lambda>n opts s. ((n, opts) # s, Inr ''ok'')" "[]" "[(''haproxy'', opts)]" "Inr ''ok''" 0 1000]
  show ?thesis by (simp add: recording_server_def action_fn_def opts_def reply_of_def)
qed

end
