(* ===== verification/Sanitize.thy ===== *)
theory Sanitize
  imports Go_Prelude "HOL-Library.Sublist"
begin

text \<open>
  The filter that log lines pass before they reach a file, syslog or an operator's terminal:
  \<open>sanitizeSeq\<close> and \<open>ansiSeqLen\<close> of \<open>internal/logger/target.go\<close>. The scans over an escape sequence
  return its length; they are recursions over the rest of the text with the position counted along.
  The lemmas show that no escape sequence survives, but for colours where these are kept, and that no
  line break is lost or made.
\<close>

section \<open>Definitions\<close>

definition ESC :: char where "ESC = CHR 0x1B"
definition BEL :: char where "BEL = CHR 0x07"

text \<open>The bytes that pass unchanged.\<close>

definition printable :: "char \<Rightarrow> bool" where
  "printable b = (CHR 0x20 \<le> b \<or> b = newline \<or> b = tab)"

definition sgr_param :: "char \<Rightarrow> bool" where
  "sgr_param b = (is_digit b \<or> b = CHR '';'' \<or> b = CHR '':'')"

fun csi :: "nat \<Rightarrow> bool \<Rightarrow> string \<Rightarrow> nat \<times> bool" where
  "csi i sgr [] = (i, False)"
| "csi i sgr (b # p) =
     (if CHR 0x40 \<le> b \<and> b \<le> CHR 0x7E then (i + 1, sgr \<and> b = CHR ''m'')
      else if sgr_param b then csi (i + 1) sgr p
      else if b < CHR 0x20 then (i, False)
      else csi (i + 1) False p)"

fun osc :: "nat \<Rightarrow> string \<Rightarrow> nat" where
  "osc i [] = i"
| "osc i (b # p) =
     (if b = BEL then i + 1
      else if b = ESC then (if p \<noteq> [] \<and> hd p = CHR 0x5C then i + 2 else i)
      else if b < CHR 0x20 \<and> b \<noteq> tab then i
      else osc (i + 1) p)"

fun intermediates :: "nat \<Rightarrow> string \<Rightarrow> nat" where
  "intermediates i [] = i"
| "intermediates i (b # p) =
     (if CHR 0x20 \<le> b \<and> b \<le> CHR 0x2F then intermediates (i + 1) p
      else if CHR 0x30 \<le> b \<and> b \<le> CHR 0x7E then i + 1
      else i)"

text \<open>The text starts with ESC. The result is the length of the sequence and whether it is a colour.\<close>

definition ansiSeqLen :: "string \<Rightarrow> nat \<times> bool" where
  "ansiSeqLen p =
     (if length p < 2 then (length p, False)
      else if p ! 1 = CHR ''['' then csi 2 True (drop 2 p)
      else if p ! 1 = CHR '']'' then (osc 2 (drop 2 p), False)
      else (intermediates 1 (tl p), False))"

lemma csi_ge: "i \<le> fst (csi i sgr p) \<and> fst (csi i sgr p) \<le> i + length p"
proof (induction p arbitrary: i sgr)
  case (Cons b p)
  show ?case using Cons [of "i + 1" sgr] Cons [of "i + 1" False] by auto
qed simp

lemma osc_ge: "i \<le> osc i p \<and> osc i p \<le> i + length p"
proof (induction p arbitrary: i)
  case (Cons b p)
  show ?case using Cons [of "i + 1"] by (cases p) auto
qed simp

lemma intermediates_ge: "i \<le> intermediates i p \<and> intermediates i p \<le> i + length p"
proof (induction p arbitrary: i)
  case (Cons b p)
  show ?case using Cons [of "i + 1"] by auto
qed simp

lemma ansiSeqLen_pos: "p \<noteq> [] \<Longrightarrow> 0 < fst (ansiSeqLen p)"
  using csi_ge [of 2 True "drop 2 p"] osc_ge [of 2 "drop 2 p"] intermediates_ge [of 1 "tl p"]
  by (auto simp: ansiSeqLen_def)

function strip_from :: "bool \<Rightarrow> string \<Rightarrow> string" where
  "strip_from keepSGR p =
     (if p = [] then []
      else if printable (hd p) then hd p # strip_from keepSGR (tl p)
      else if hd p = ESC then
        (if keepSGR \<and> snd (ansiSeqLen p) then take (fst (ansiSeqLen p)) p else []) @
        strip_from keepSGR (drop (fst (ansiSeqLen p)) p)
      else strip_from keepSGR (tl p))"
  by pat_completeness auto

termination
  by (relation "measure (length \<circ> snd)") (auto simp: ansiSeqLen_pos)

declare strip_from.simps [simp del]

text \<open>\<open>sanitizeSeq\<close>: nothing is copied up to the first byte that does not pass.\<close>

definition sanitizeSeq :: "string \<Rightarrow> bool \<Rightarrow> string" where
  "sanitizeSeq p keepSGR =
     (if list_all printable p then p
      else takeWhile printable p @ strip_from keepSGR (dropWhile printable p))"

definition sanitize :: "string \<Rightarrow> string" where
  "sanitize p = sanitizeSeq p False"

definition sanitizeKeepColors :: "string \<Rightarrow> string" where
  "sanitizeKeepColors p = sanitizeSeq p True"

section \<open>Safety\<close>

lemma printable_ESC [simp]: "\<not> printable ESC"
  by (simp add: printable_def ESC_def control_chars less_eq_char_def)

text \<open>The fast path and the copied prefix do not matter.\<close>

lemma strip_from_Cons:
  "strip_from k [] = []"
  "printable b \<Longrightarrow> strip_from k (b # p) = b # strip_from k p"
  by (subst strip_from.simps, simp)+

lemma strip_from_printable: "list_all printable p \<Longrightarrow> strip_from k (p @ q) = p @ strip_from k q"
  by (induction p) (simp_all add: strip_from_Cons)

lemma sanitizeSeq_strip: "sanitizeSeq p k = strip_from k p"
proof -
  have t: "list_all printable (takeWhile printable p)" by (auto simp: list_all_iff dest: set_takeWhileD)
  have "strip_from k p = takeWhile printable p @ strip_from k (dropWhile printable p)"
    using strip_from_printable [OF t, of k "dropWhile printable p"] by simp
  moreover have "strip_from k p = p" if "list_all printable p"
    using strip_from_printable [OF that, of k "[]"] by (simp add: strip_from_Cons)
  ultimately show ?thesis by (simp add: sanitizeSeq_def)
qed

text \<open>Texts in which ESC occurs only at the start of a colour sequence.\<close>

inductive coloured :: "string \<Rightarrow> bool" where
  Nil: "coloured []"
| byte: "printable b \<Longrightarrow> coloured p \<Longrightarrow> coloured (b # p)"
| colour: "list_all sgr_param params \<Longrightarrow> coloured p \<Longrightarrow> coloured ([ESC, CHR ''[''] @ params @ CHR ''m'' # p)"

lemma csi_sgr:
  "snd (csi i sgr p) \<Longrightarrow> sgr \<and> (\<exists>params rest. p = params @ CHR ''m'' # rest \<and> list_all sgr_param params \<and>
     fst (csi i sgr p) = i + length params + 1)"
proof (induction i sgr p rule: csi.induct)
  case (2 i sgr b p)
  consider "CHR 0x40 \<le> b \<and> b \<le> CHR 0x7E" | "\<not> (CHR 0x40 \<le> b \<and> b \<le> CHR 0x7E)" "sgr_param b"
    | "\<not> (CHR 0x40 \<le> b \<and> b \<le> CHR 0x7E)" "\<not> sgr_param b" by blast
  then show ?case
  proof cases
    case 1
    then have "sgr" "b = CHR ''m''" using 2(3) by (auto split: if_splits)
    then show ?thesis using 1 by (intro conjI exI [of _ "[]"] exI [of _ p]) auto
  next
    case 2
    then have "snd (csi (i + 1) sgr p)" using \<open>snd (csi i sgr (b # p))\<close> by (simp split: if_splits)
    then obtain params rest where "sgr" "p = params @ CHR ''m'' # rest" "list_all sgr_param params"
        "fst (csi (i + 1) sgr p) = i + 1 + length params + 1"
      using "2.IH"(1) 2 by auto
    then show ?thesis using 2 by (intro conjI exI [of _ "b # params"] exI [of _ rest]) auto
  next
    case 3
    then show ?thesis using 2 by (auto split: if_splits)
  qed
qed simp

lemma ansiSeqLen_sgr:
  assumes "p \<noteq> []" "hd p = ESC" "snd (ansiSeqLen p)"
  shows "\<exists>params. take (fst (ansiSeqLen p)) p = [ESC, CHR ''[''] @ params @ ''m'' \<and> list_all sgr_param params"
proof -
  have l: "2 \<le> length p" "p ! 1 = CHR ''[''" "snd (csi 2 True (drop 2 p))" "fst (ansiSeqLen p) = fst (csi 2 True (drop 2 p))"
    using assms by (auto simp: ansiSeqLen_def split: if_splits)
  then obtain a b q where p: "p = a # b # q" by (cases p; cases "tl p") auto
  have q: "drop 2 p = q" "a = ESC" "b = CHR ''[''" using p l assms(2) by auto
  obtain params rest where r: "q = params @ CHR ''m'' # rest" "list_all sgr_param params"
      "fst (csi 2 True q) = 2 + length params + 1"
    using csi_sgr [OF l(3)] unfolding q by auto
  show ?thesis using r l(4) p q by (intro exI [of _ params]) (simp add: numeral_2_eq_2)
qed

lemma coloured_append: "coloured p \<Longrightarrow> coloured q \<Longrightarrow> coloured (p @ q)"
proof (induction rule: coloured.induct)
  case (colour params p)
  have "coloured ([ESC, CHR ''[''] @ params @ CHR ''m'' # (p @ q))" using colour by (intro coloured.colour) auto
  then show ?case by simp
qed (auto intro: coloured.intros)

lemma strip_coloured: "coloured (strip_from k p)"
proof (induction k p rule: strip_from.induct)
  case (1 k p)
  show ?case
  proof (cases "p = [] \<or> printable (hd p) \<or> hd p \<noteq> ESC \<or> \<not> (k \<and> snd (ansiSeqLen p))")
    case True
    then show ?thesis using 1 by (subst strip_from.simps) (auto intro: coloured.intros)
  next
    case False
    then obtain params where t: "take (fst (ansiSeqLen p)) p = [ESC, CHR ''[''] @ params @ ''m''" "list_all sgr_param params"
      using ansiSeqLen_sgr by blast
    have "coloured ([ESC, CHR ''[''] @ params @ [CHR ''m''])" using t(2) by (intro coloured.intros)
    moreover have "coloured (strip_from k (drop (fst (ansiSeqLen p)) p))" using 1(2) False by blast
    ultimately have "coloured (take (fst (ansiSeqLen p)) p @ strip_from k (drop (fst (ansiSeqLen p)) p))"
      unfolding t(1) by (rule coloured_append)
    then show ?thesis using False by (subst strip_from.simps) simp
  qed
qed

lemma strip_all_printable: "list_all printable (strip_from False p)"
proof (induction "False" p rule: strip_from.induct)
  case (1 p)
  then show ?case by (subst strip_from.simps) auto
qed

text \<open>No line break is inside a sequence.\<close>

lemma csi_no_newline: "newline \<notin> set (take (fst (csi i sgr p) - i) p)"
proof (induction i sgr p rule: csi.induct)
  case (2 i sgr b p)
  have n: "b \<noteq> newline" if "CHR 0x40 \<le> b \<or> sgr_param b \<or> \<not> b < CHR 0x20"
    using that by (auto simp: newline_def sgr_param_def is_digit_def less_eq_char_def less_char_def)
  have s: "fst (csi (Suc i) s p) - i = Suc (fst (csi (Suc i) s p) - Suc i)" for s
    using csi_ge [of "Suc i" s p] by linarith
  show ?case using 2 n by (auto simp: s)
qed simp

lemma osc_no_newline: "newline \<notin> set (take (osc i p - i) p)"
proof (induction i p rule: osc.induct)
  case (2 i b p)
  have n: "b \<noteq> newline" if "b = BEL \<or> b = ESC \<or> \<not> (b < CHR 0x20 \<and> b \<noteq> tab)"
    using that by (auto simp: control_chars BEL_def ESC_def less_char_def)
  have s: "osc (Suc i) p - i = Suc (osc (Suc i) p - Suc i)" using osc_ge [of "Suc i" p] by linarith
  have h: "newline \<notin> set (take 1 p)" if "p \<noteq> []" "hd p = CHR 0x5C" using that by (cases p) (auto simp: newline_def)
  consider "b = BEL \<or> b = ESC \<or> b < CHR 0x20 \<and> b \<noteq> tab" | "b \<noteq> BEL" "b \<noteq> ESC" "\<not> (b < CHR 0x20 \<and> b \<noteq> tab)" by blast
  then show ?case
  proof cases
    case 1
    then have "osc i (b # p) - i = 0 \<or> osc i (b # p) - i = 1 \<and> b \<noteq> newline \<or>
        osc i (b # p) - i = 2 \<and> b \<noteq> newline \<and> p \<noteq> [] \<and> hd p = CHR 0x5C"
      using n by auto
    moreover have "set (take 2 (b # p)) = insert b (set (take 1 p))" by (simp add: numeral_2_eq_2)
    ultimately show ?thesis using h by auto
  next
    case 2
    then show ?thesis using "2.IH" n by (simp add: s)
  qed
qed simp

lemma intermediates_no_newline: "newline \<notin> set (take (intermediates i p - i) p)"
proof (induction i p rule: intermediates.induct)
  case (2 i b p)
  have n: "b \<noteq> newline" if "CHR 0x20 \<le> b" using that by (auto simp: newline_def less_eq_char_def)
  have g: "CHR 0x20 \<le> b" if "CHR 0x30 \<le> b" using that by (simp add: less_eq_char_def)
  have s: "intermediates (Suc i) p - i = Suc (intermediates (Suc i) p - Suc i)"
    using intermediates_ge [of "Suc i" p] by linarith
  show ?case using 2 n g by (auto simp: s)
qed simp

lemma ansiSeqLen_no_newline:
  assumes "p \<noteq> []" "hd p = ESC"
  shows "newline \<notin> set (take (fst (ansiSeqLen p)) p)"
proof -
  obtain q where p: "p = ESC # q" using assms by (cases p) auto
  have e: "newline \<noteq> ESC" by (simp add: newline_def ESC_def)
  show ?thesis
  proof (cases "length p < 2")
    case True
    then show ?thesis using p e by (cases q) (auto simp: ansiSeqLen_def)
  next
    case False
    then obtain b r where q: "q = b # r" using p by (cases q) auto
    have b: "newline \<noteq> CHR ''[''" "newline \<noteq> CHR '']''" by (simp_all add: newline_def)
    have t2: "set (take n p) = {ESC, b} \<union> set (take (n - 2) r)" if "2 \<le> n" for n
      using that p q by (cases n; cases "n - 1") auto
    have t1: "set (take n p) = {ESC} \<union> set (take (n - 1) q)" if "1 \<le> n" for n
      using that p by (cases n) auto
    consider "b = CHR ''[''" | "b = CHR '']''" | "b \<noteq> CHR ''[''" "b \<noteq> CHR '']''" by blast
    then show ?thesis
    proof cases
      case 1
      then have "fst (ansiSeqLen p) = fst (csi 2 True r)" using p q by (simp add: ansiSeqLen_def)
      then show ?thesis using csi_no_newline [of 2 True r] csi_ge [of 2 True r] t2 e b 1 by simp
    next
      case 2
      then have "fst (ansiSeqLen p) = osc 2 r" using p q by (simp add: ansiSeqLen_def)
      then show ?thesis using osc_no_newline [of 2 r] osc_ge [of 2 r] t2 e b 2 by simp
    next
      case 3
      then have "fst (ansiSeqLen p) = intermediates 1 q" using p q by (simp add: ansiSeqLen_def)
      then show ?thesis using intermediates_no_newline [of 1 q] intermediates_ge [of 1 q] t1 e by simp
    qed
  qed
qed

lemma strip_newlines: "filter (\<lambda>b. b = newline) (strip_from k p) = filter (\<lambda>b. b = newline) p"
proof (induction k p rule: strip_from.induct)
  case (1 k p)
  show ?case
  proof (cases "p = [] \<or> printable (hd p) \<or> hd p \<noteq> ESC")
    case True
    moreover have "hd p \<noteq> newline" if "\<not> printable (hd p)" using that by (auto simp: printable_def)
    ultimately show ?thesis using 1(1,3) by (cases p) (subst strip_from.simps, auto)+
  next
    case False
    define n where "n = fst (ansiSeqLen p)"
    have none: "filter (\<lambda>b. b = newline) (take n p) = []"
      using ansiSeqLen_no_newline [of p] False by (auto simp: n_def filter_empty_conv)
    have "filter (\<lambda>b. b = newline) (strip_from k p)
        = filter (\<lambda>b. b = newline) (strip_from k (drop n p))"
      using False none by (subst strip_from.simps) (simp add: n_def)
    also have "\<dots> = filter (\<lambda>b. b = newline) (drop n p)" using 1(2) False unfolding n_def by blast
    also have "\<dots> = filter (\<lambda>b. b = newline) (take n p @ drop n p)" using none by (simp only: filter_append append_Nil)
    finally show ?thesis by simp
  qed
qed

lemma strip_subseq: "subseq (strip_from k p) p"
proof (induction k p rule: strip_from.induct)
  case (1 k p)
  show ?case
  proof (cases "p = [] \<or> printable (hd p) \<or> hd p \<noteq> ESC")
    case True
    then show ?thesis using 1(1,3) by (cases p) (subst strip_from.simps, auto)+
  next
    case False
    define n where "n = fst (ansiSeqLen p)"
    have "subseq (if k \<and> snd (ansiSeqLen p) then take n p else []) (take n p)" by simp
    moreover have "subseq (strip_from k (drop n p)) (drop n p)" using 1(2) False unfolding n_def by blast
    ultimately have "subseq ((if k \<and> snd (ansiSeqLen p) then take n p else []) @ strip_from k (drop n p)) (take n p @ drop n p)"
      by (rule list_emb_append_mono)
    then show ?thesis using False by (subst strip_from.simps) (auto simp: n_def)
  qed
qed


end
