(* ===== verification/Prefix_Writer.thy ===== *)
theory Prefix_Writer
  imports Sanitize
begin

text \<open>
  The line-buffered writer between a service's output and its readers:
  \<open>internal/logger/writer.go\<close>. A destination is the list of the writes it received. A queued line
  of a subscriber is the index of the slot of \<open>bufs\<close> it aliases, so that reuse of a slot is visible.
  The clock is an argument: \<open>now k i\<close> is the timestamp text of the \<open>i\<close>-th part of the prefix of the
  \<open>k\<close>-th write. The reuse of backing arrays by their capacity has no effect on the bytes and is left out.

  The lemmas show that the chunked writer cuts its input exactly like a byte-at-a-time definition
  does, however the input is cut into writes; that \<open>Recent\<close> is the tail of what was written; and
  that a subscriber never sees a slot reused under it.
\<close>

section \<open>Definitions\<close>

definition defaultRingSize :: nat where "defaultRingSize = 200"
definition maxBufSize :: nat where "maxBufSize = 2 ^ 20"
definition subChanCap :: nat where "subChanCap = 256"
definition subBufRingSize :: nat where "subBufRingSize = 520"
definition timestampLen :: nat where "timestampLen = 25"

record subscription =
  out :: "nat list"
  bufs :: "string list"
  bufIdx :: nat

record PrefixWriter =
  dest :: "string list"
  pw_name :: string
  buf :: string
  extra :: "string list list"
  ring :: "string list"
  subs :: "subscription list"
  parts :: "string list"
  ringPos :: nat
  prefixEstLen :: nat
  ringFull :: bool

definition parsePrefixParts :: "string \<Rightarrow> string list" where
  "parsePrefixParts fmt =
     (if fmt = ''none'' \<or> fmt = [] then []
      else filter (\<lambda>tok. tok = ''timestamp'' \<or> tok = ''service'') (split_fields fmt))"

fun estimatePrefixLen :: "string list \<Rightarrow> string \<Rightarrow> nat" where
  "estimatePrefixLen [] name = 0"
| "estimatePrefixLen (p # ps) name =
     (if p = ''timestamp'' then timestampLen else if p = ''service'' then length name + 3 else 0) +
     estimatePrefixLen ps name"

definition NewPrefixWriter :: "string \<Rightarrow> string \<Rightarrow> PrefixWriter" where
  "NewPrefixWriter name fmt =
     \<lparr>dest = [], pw_name = name, buf = [], extra = [], ring = replicate defaultRingSize [], subs = [],
      parts = parsePrefixParts fmt, ringPos = 0,
      prefixEstLen = estimatePrefixLen (parsePrefixParts fmt) name, ringFull = False\<rparr>"

definition AddTarget :: "string list \<Rightarrow> PrefixWriter \<Rightarrow> PrefixWriter" where
  "AddTarget w pw = pw\<lparr>extra := extra pw @ [w]\<rparr>"

definition ClearTargets :: "PrefixWriter \<Rightarrow> PrefixWriter" where
  "ClearTargets pw = pw\<lparr>extra := []\<rparr>"

definition new_subscription :: subscription where
  "new_subscription = \<lparr>out = [], bufs = replicate subBufRingSize [], bufIdx = 0\<rparr>"

definition Subscribe :: "PrefixWriter \<Rightarrow> PrefixWriter" where
  "Subscribe pw = pw\<lparr>subs := subs pw @ [new_subscription]\<rparr>"

text \<open>The closure that \<open>Subscribe\<close> returns, for the subscription at position \<open>i\<close>.\<close>

definition unsub :: "nat \<Rightarrow> PrefixWriter \<Rightarrow> PrefixWriter" where
  "unsub i pw = pw\<lparr>subs := take i (subs pw) @ drop (Suc i) (subs pw)\<rparr>"

definition Recent :: "PrefixWriter \<Rightarrow> string list" where
  "Recent pw =
     (if \<not> ringFull pw then take (ringPos pw) (ring pw)
      else drop (ringPos pw) (ring pw) @ take (ringPos pw) (ring pw))"

fun prefix_parts :: "(nat \<Rightarrow> string) \<Rightarrow> string \<Rightarrow> nat \<Rightarrow> string list \<Rightarrow> string" where
  "prefix_parts now name i [] = []"
| "prefix_parts now name i (p # ps) =
     (if p = ''timestamp'' then now i @ '' ''
      else if p = ''service'' then ''['' @ name @ ''] ''
      else []) @ prefix_parts now name (Suc i) ps"

definition pw_prefix :: "(nat \<Rightarrow> string) \<Rightarrow> PrefixWriter \<Rightarrow> string \<Rightarrow> string" where
  "pw_prefix now pw line =
     (if parts pw = [] then line else prefix_parts now (pw_name pw) 0 (parts pw) @ line)"

text \<open>The fan-out of a line to one subscriber: a full channel drops the line and keeps the slot.\<close>

definition fan_out :: "string \<Rightarrow> subscription \<Rightarrow> subscription" where
  "fan_out slot s =
     (let s' = s\<lparr>bufs := (bufs s)[bufIdx s := slot]\<rparr>
      in if length (out s) < subChanCap
         then s'\<lparr>out := out s @ [bufIdx s],
                 bufIdx := if subBufRingSize \<le> bufIdx s + 1 then 0 else bufIdx s + 1\<rparr>
         else s')"

text \<open>What the drain loop does with one line.\<close>

definition emit :: "(nat \<Rightarrow> nat \<Rightarrow> string) \<Rightarrow> string \<Rightarrow> PrefixWriter \<Rightarrow> PrefixWriter" where
  "emit now line pw =
     (let prefixed = pw_prefix (now (length (dest pw))) pw line;
          slot = sanitizeKeepColors prefixed;
          wrap = defaultRingSize \<le> ringPos pw + 1
      in pw\<lparr>dest := dest pw @ [prefixed],
            extra := map (\<lambda>w. w @ [prefixed]) (extra pw),
            ring := (ring pw)[ringPos pw := slot],
            ringPos := if wrap then 0 else ringPos pw + 1,
            ringFull := wrap \<or> ringFull pw,
            subs := map (fan_out slot) (subs pw)\<rparr>)"

lemma buf_emit [simp]: "buf (emit now line pw) = buf pw"
  by (simp add: emit_def Let_def)

lemma buf_parametric: "emit now line (pw\<lparr>buf := b\<rparr>) = (emit now line pw)\<lparr>buf := b\<rparr>"
  by (simp add: emit_def Let_def pw_prefix_def)

lemma cut_at_shorter: "cut_at d s = Some (a, b) \<Longrightarrow> length b < length s"
  by (drule cut_at_Some) auto

function drain_lines :: "(nat \<Rightarrow> nat \<Rightarrow> string) \<Rightarrow> PrefixWriter \<Rightarrow> PrefixWriter" where
  "drain_lines now pw =
     (case cut_at newline (buf pw) of
        None \<Rightarrow> pw
      | Some (l, rest) \<Rightarrow> drain_lines now (emit now (l @ [newline]) (pw\<lparr>buf := rest\<rparr>)))"
  by pat_completeness auto

termination
  by (relation "measure (\<lambda>(now, pw). length (buf pw))") (auto dest: cut_at_shorter)

declare drain_lines.simps [simp del]

text \<open>One round of the outer loop up to the drain: what is left of the input, and the filled buffer.\<close>

definition fill :: "string \<Rightarrow> PrefixWriter \<Rightarrow> string \<times> PrefixWriter" where
  "fill p pw =
     (if maxBufSize \<le> length (buf pw) then (p, pw\<lparr>buf := buf pw @ [newline]\<rparr>)
      else
        let room = min (maxBufSize - length (buf pw)) (length p);
            n = (case cut_at newline (take room p) of Some (l, rest) \<Rightarrow> length l + 1 | None \<Rightarrow> room);
            b = buf pw @ take n p
        in (drop n p,
            pw\<lparr>buf := if maxBufSize \<le> length b \<and> newline \<notin> set b then b @ [newline] else b\<rparr>))"

lemma drain_leaves: "newline \<notin> set (buf (drain_lines now pw)) \<and> (\<exists>l. buf pw = l @ buf (drain_lines now pw))"
proof (induction now pw rule: drain_lines.induct)
  case (1 now pw)
  show ?case
  proof (cases "cut_at newline (buf pw)")
    case None
    then have "drain_lines now pw = pw" by (subst drain_lines.simps) simp
    then show ?thesis using None by (simp add: cut_at_None)
  next
    case (Some x)
    then obtain l rest where x: "cut_at newline (buf pw) = Some (l, rest)" by (cases x) auto
    then have d: "drain_lines now pw = drain_lines now (emit now (l @ [newline]) (pw\<lparr>buf := rest\<rparr>))"
      by (subst drain_lines.simps) simp
    have "newline \<notin> set (buf (drain_lines now pw)) \<and> (\<exists>k. rest = k @ buf (drain_lines now pw))"
      using 1 [OF x refl] unfolding d by simp
    then obtain k where k: "newline \<notin> set (buf (drain_lines now pw))" "rest = k @ buf (drain_lines now pw)" by blast
    have "buf pw = (l @ newline # k) @ buf (drain_lines now pw)" using cut_at_Some [OF x] k(2) by simp
    then show ?thesis using k(1) by blast
  qed
qed

lemma fill_progress:
  assumes "p \<noteq> []"
  shows "length (fst (fill p pw)) < length p \<or>
    maxBufSize \<le> length (buf pw) \<and> fst (fill p pw) = p \<and> buf (drain_lines now (snd (fill p pw))) = []"
proof (cases "maxBufSize \<le> length (buf pw)")
  case True
  obtain l where "buf pw @ [newline] = l @ buf (drain_lines now (snd (fill p pw)))"
      "newline \<notin> set (buf (drain_lines now (snd (fill p pw))))"
    using drain_leaves [of now "snd (fill p pw)"] True by (auto simp: fill_def)
  then have "buf (drain_lines now (snd (fill p pw))) = []"
    by (cases "buf (drain_lines now (snd (fill p pw)))" rule: rev_cases) auto
  then show ?thesis using True by (simp add: fill_def)
next
  case False
  then show ?thesis using assms by (auto simp: fill_def Let_def split: option.split)
qed

function Write :: "(nat \<Rightarrow> nat \<Rightarrow> string) \<Rightarrow> string \<Rightarrow> PrefixWriter \<Rightarrow> PrefixWriter" where
  "Write now p pw =
     (if p = [] then pw
      else Write now (fst (fill p pw)) (drain_lines now (snd (fill p pw))))"
  by pat_completeness auto

termination
proof (relation "measure (\<lambda>(now, p, pw). 2 * length p + (if maxBufSize \<le> length (buf pw) then 1 else 0))", goal_cases)
  case (2 now p pw)
  then show ?case using fill_progress [of p pw now] by (auto simp: maxBufSize_def)
qed simp

declare Write.simps [simp del]

definition Flush :: "(nat \<Rightarrow> nat \<Rightarrow> string) \<Rightarrow> PrefixWriter \<Rightarrow> PrefixWriter" where
  "Flush now pw =
     (if buf pw = [] then pw
      else let prefixed = pw_prefix (now (length (dest pw))) pw (buf pw)
           in pw\<lparr>dest := dest pw @ [prefixed], extra := map (\<lambda>w. w @ [prefixed]) (extra pw), buf := []\<rparr>)"

section \<open>Cutting into lines\<close>

text \<open>The reference: one byte at a time, a line ends at a newline or when the buffer is full.\<close>

fun cut_lines :: "string \<Rightarrow> string \<Rightarrow> string list \<times> string" where
  "cut_lines b [] = ([], b)"
| "cut_lines b (c # p) =
     (if c = newline then apfst ((#) (b @ [c])) (cut_lines [] p)
      else if maxBufSize \<le> length b + 1 then apfst ((#) (b @ [c, newline])) (cut_lines [] p)
      else cut_lines (b @ [c]) p)"

definition buf_ok :: "string \<Rightarrow> bool" where
  "buf_ok b = (newline \<notin> set b \<and> length b < maxBufSize)"

lemma buf_ok_Nil [simp]: "buf_ok []"
  by (simp add: buf_ok_def maxBufSize_def)

lemma cut_lines_buf_ok: "buf_ok b \<Longrightarrow> buf_ok (snd (cut_lines b p))"
  by (induction b p rule: cut_lines.induct) (auto simp: buf_ok_def maxBufSize_def)

lemma cut_lines_append:
  "cut_lines b (p @ q) =
     apfst ((@) (fst (cut_lines b p))) (cut_lines (snd (cut_lines b p)) q)"
  by (induction b p rule: cut_lines.induct) (auto simp: apfst_def map_prod_def split: prod.splits)

lemma cut_lines_none:
  "newline \<notin> set p \<Longrightarrow> length b + length p < maxBufSize \<Longrightarrow> cut_lines b p = ([], b @ p)"
  by (induction p arbitrary: b) auto

lemma cut_lines_newline:
  assumes "newline \<notin> set p" "length b + length p < maxBufSize"
  shows "cut_lines b (p @ [newline]) = ([b @ p @ [newline]], [])"
  by (subst cut_lines_append) (simp add: cut_lines_none [OF assms])

lemma cut_lines_full:
  assumes "newline \<notin> set p" "length b + length p = maxBufSize" "length b < maxBufSize"
  shows "cut_lines b p = ([b @ p @ [newline]], [])"
proof -
  obtain q c where p: "p = q @ [c]" using assms by (cases p rule: rev_cases) auto
  have q: "cut_lines b q = ([], b @ q)" using assms p by (intro cut_lines_none) auto
  have "c \<noteq> newline" using assms(1) p by auto
  then show ?thesis using assms p by (simp add: cut_lines_append q)
qed

lemma cut_lines_parts: "concat (fst (cut_lines b p)) @ snd (cut_lines b p) = b @ p \<or> maxBufSize \<le> length b + length p"
proof (induction b p rule: cut_lines.induct)
  case (2 b c p)
  then show ?case by (auto simp: not_le)
qed simp

text \<open>The lines of a text written out, with the buffer that stays.\<close>

definition feed :: "(nat \<Rightarrow> nat \<Rightarrow> string) \<Rightarrow> string \<Rightarrow> PrefixWriter \<Rightarrow> PrefixWriter" where
  "feed now p pw =
     (fold (emit now) (fst (cut_lines (buf pw) p)) pw)\<lparr>buf := snd (cut_lines (buf pw) p)\<rparr>"

lemma fold_emit_buf: "fold (emit now) ls (pw\<lparr>buf := b\<rparr>) = (fold (emit now) ls pw)\<lparr>buf := b\<rparr>"
  by (induction ls arbitrary: pw) (simp_all add: buf_parametric)

lemma buf_update_twice [simp]: "pw\<lparr>buf := a\<rparr>\<lparr>buf := b\<rparr> = pw\<lparr>buf := b\<rparr>"
  by simp

lemma feed_append: "feed now (p @ q) pw = feed now q (feed now p pw)"
  by (simp add: feed_def cut_lines_append fold_emit_buf apfst_def map_prod_def split: prod.split)

lemma feed_Nil [simp]: "feed now [] pw = pw"
  by (simp add: feed_def)

lemma drain_id: "newline \<notin> set (buf pw) \<Longrightarrow> drain_lines now pw = pw"
  by (subst drain_lines.simps) (simp add: cut_at_None [THEN iffD2])

lemma drain_line:
  assumes "newline \<notin> set l"
  shows "drain_lines now (pw\<lparr>buf := l @ [newline]\<rparr>) = emit now (l @ [newline]) (pw\<lparr>buf := []\<rparr>)"
proof -
  have "drain_lines now (pw\<lparr>buf := l @ [newline]\<rparr>) = drain_lines now (emit now (l @ [newline]) (pw\<lparr>buf := []\<rparr>))"
    by (subst drain_lines.simps) (simp add: cut_at_append [OF assms, of "[]"])
  then show ?thesis by (simp add: drain_id)
qed

lemma round_feeds:
  assumes "buf_ok (buf pw)" "p \<noteq> []"
  shows "\<exists>n. 0 < n \<and> fst (fill p pw) = drop n p \<and> drain_lines now (snd (fill p pw)) = feed now (take n p) pw"
proof -
  define room where "room = min (maxBufSize - length (buf pw)) (length p)"
  have ok: "newline \<notin> set (buf pw)" "length (buf pw) < maxBufSize" using assms(1) by (auto simp: buf_ok_def)
  have r: "0 < room" using ok assms(2) by (simp add: room_def)
  show ?thesis
  proof (cases "cut_at newline (take room p)")
    case (Some x)
    then obtain l rest where x: "cut_at newline (take room p) = Some (l, rest)" by (cases x) auto
    define n where "n = length l + 1"
    have l: "take room p = l @ newline # rest" "newline \<notin> set l" using cut_at_Some [OF x] by auto
    have "length (take room p) = n + length rest" using l(1) by (simp add: n_def)
    then have n: "n \<le> room" "length (buf pw) + length l < maxBufSize" using ok(2) by (auto simp: n_def room_def)
    have "take n p = take n (take room p)" using n(1) by (simp add: min_absorb1)
    then have t: "take n p = l @ [newline]" by (simp add: l(1) n_def)
    have "fill p pw = (drop n p, pw\<lparr>buf := (buf pw @ l) @ [newline]\<rparr>)"
      using ok x t by (simp add: fill_def Let_def n_def flip: room_def)
    moreover have "feed now (take n p) pw = emit now ((buf pw @ l) @ [newline]) (pw\<lparr>buf := []\<rparr>)"
      using cut_lines_newline [OF l(2) n(2)] by (simp add: feed_def t buf_parametric)
    ultimately show ?thesis using drain_line [of "buf pw @ l" now pw] ok(1) l(2)
      by (intro exI [of _ n]) (simp add: n_def)
  next
    case None
    then have nn: "newline \<notin> set (take room p)" by (simp add: cut_at_None)
    have fill: "fill p pw = (drop room p, pw\<lparr>buf := if maxBufSize \<le> length (buf pw @ take room p)
        then (buf pw @ take room p) @ [newline] else buf pw @ take room p\<rparr>)"
      using ok None nn by (simp add: fill_def Let_def flip: room_def)
    show ?thesis
    proof (cases "maxBufSize \<le> length (buf pw @ take room p)")
      case True
      then have "length (buf pw) + length (take room p) = maxBufSize" using ok by (auto simp: room_def)
      then have "feed now (take room p) pw = emit now ((buf pw @ take room p) @ [newline]) (pw\<lparr>buf := []\<rparr>)"
        using cut_lines_full [OF nn _ ok(2)] by (simp add: feed_def buf_parametric)
      then show ?thesis using True r ok(1) nn fill
        by (intro exI [of _ room]) (simp add: drain_line del: append_assoc)
    next
      case False
      then have "feed now (take room p) pw = pw\<lparr>buf := buf pw @ take room p\<rparr>"
        using cut_lines_none [OF nn, of "buf pw"] by (simp add: feed_def)
      then show ?thesis using False r ok(1) nn fill by (intro exI [of _ room]) (simp add: drain_id)
    qed
  qed
qed

lemma feed_buf_ok: "buf_ok (buf pw) \<Longrightarrow> buf_ok (buf (feed now p pw))"
  by (simp add: feed_def cut_lines_buf_ok)

lemma Write_feed: "buf_ok (buf pw) \<Longrightarrow> Write now p pw = feed now p pw"
proof (induction now p pw rule: Write.induct)
  case (1 now p pw)
  show ?case
  proof (cases "p = []")
    case True
    then show ?thesis by (subst Write.simps) simp
  next
    case False
    obtain n where n: "fst (fill p pw) = drop n p" "drain_lines now (snd (fill p pw)) = feed now (take n p) pw"
      using round_feeds [OF "1.prems" False] by blast
    have "Write now p pw = Write now (fst (fill p pw)) (drain_lines now (snd (fill p pw)))"
      using False by (subst Write.simps) simp
    also have "\<dots> = feed now (drop n p) (feed now (take n p) pw)"
      using "1.IH" [OF False] feed_buf_ok [OF "1.prems"] by (simp add: n)
    also have "\<dots> = feed now p pw" by (simp flip: feed_append)
    finally show ?thesis .
  qed
qed

lemma Writes_feed: "buf_ok (buf pw) \<Longrightarrow> fold (Write now) ps pw = feed now (concat ps) pw"
  by (induction ps arbitrary: pw) (simp_all add: Write_feed feed_buf_ok feed_append)

text \<open>
  C25. The chunked writer is the byte-at-a-time writer: whatever the input, and wherever it is cut
  into writes, the lines that go out and the bytes that stay are those of \<^term>\<open>cut_lines\<close> on
  the whole input, and the buffer never holds a line break or reaches its limit.
\<close>

theorem Write_is_bytewise:
  assumes "buf_ok (buf pw)"
  shows "fold (Write now) ps pw =
      (fold (emit now) (fst (cut_lines (buf pw) (concat ps))) pw)\<lparr>buf := snd (cut_lines (buf pw) (concat ps))\<rparr> \<and>
    buf_ok (buf (fold (Write now) ps pw))"
  using Writes_feed [OF assms, of now ps] feed_buf_ok [OF assms, of now "concat ps"] by (simp add: feed_def)

theorem Write_is_bytewise_witness:
  "buf_ok (buf (NewPrefixWriter ''web'' ''service'')) \<and>
   fold (Write (\<lambda>k i. ''t'')) [''a'', ''b'' @ [newline] @ ''c''] (NewPrefixWriter ''web'' ''service'') =
     (fold (emit (\<lambda>k i. ''t'')) (fst (cut_lines [] (''ab'' @ [newline] @ ''c''))) (NewPrefixWriter ''web'' ''service''))
       \<lparr>buf := snd (cut_lines [] (''ab'' @ [newline] @ ''c''))\<rparr>"
  using Write_is_bytewise [of "NewPrefixWriter ''web'' ''service''" "\<lambda>k i. ''t''" "[''a'', ''b'' @ [newline] @ ''c'']"]
  by (simp add: NewPrefixWriter_def del: cut_lines.simps)

section \<open>The ring\<close>

definition ring_holds :: "PrefixWriter \<Rightarrow> string list \<Rightarrow> bool" where
  "ring_holds pw log =
     (length (ring pw) = defaultRingSize \<and> ringPos pw < defaultRingSize \<and>
      Recent pw = drop (length log - defaultRingSize) log \<and>
      (if ringFull pw then defaultRingSize \<le> length log else length log = ringPos pw))"

lemma drop_snoc_last: "n \<le> length xs \<Longrightarrow> 0 < n \<Longrightarrow> drop (Suc (length xs) - n) (xs @ [x]) = tl (drop (length xs - n) xs) @ [x]"
  by (simp add: Suc_diff_le drop_Suc tl_drop)

lemma ring_holds_emit:
  assumes "ring_holds pw log"
  shows "ring_holds (emit now line pw)
    (log @ [sanitizeKeepColors (pw_prefix (now (length (dest pw))) pw line)])"
proof -
  define slot where "slot = sanitizeKeepColors (pw_prefix (now (length (dest pw))) pw line)"
  define p where "p = ringPos pw"
  define r where "r = ring pw"
  have a: "length r = defaultRingSize" "p < defaultRingSize" using assms by (auto simp: ring_holds_def p_def r_def)
  have up: "take p (r[p := slot]) = take p r" "drop (Suc p) (r[p := slot]) = drop (Suc p) r"
    "take (Suc p) (r[p := slot]) = take p r @ [slot]" using a by (simp_all add: take_Suc_conv_app_nth)
  have e: "ring (emit now line pw) = r[p := slot]"
      "ringPos (emit now line pw) = (if Suc p = defaultRingSize then 0 else Suc p)"
      "ringFull (emit now line pw) = (Suc p = defaultRingSize \<or> ringFull pw)"
    using a(2) by (auto simp: emit_def Let_def slot_def p_def r_def)
  have tld: "tl (drop p r @ take p r) = drop (Suc p) r @ take p r" using a by (simp add: drop_Suc tl_drop tl_append2)
  have recent: "Recent (emit now line pw) =
      (if ringFull pw then tl (Recent pw) @ [slot] else Recent pw @ [slot])"
    using a up tld by (auto simp: Recent_def e simp flip: p_def r_def)
  have "Recent (emit now line pw) = drop (Suc (length log) - defaultRingSize) (log @ [slot])"
  proof (cases "ringFull pw")
    case True
    then show ?thesis using assms drop_snoc_last [of defaultRingSize log slot]
      by (simp add: recent ring_holds_def defaultRingSize_def)
  next
    case False
    then show ?thesis using assms by (simp add: recent ring_holds_def)
  qed
  then show ?thesis using a assms by (auto simp: ring_holds_def e p_def split: if_splits simp flip: slot_def)
qed

text \<open>The specification of a writer: a log of prefixed lines.\<close>

definition render :: "(nat \<Rightarrow> nat \<Rightarrow> string) \<Rightarrow> string \<Rightarrow> string list \<Rightarrow> string \<Rightarrow> string list \<Rightarrow> string list" where
  "render now name ps line log =
     log @ [(if ps = [] then [] else prefix_parts (now (length log)) name 0 ps) @ line]"

definition logs :: "string \<Rightarrow> string list \<Rightarrow> PrefixWriter \<Rightarrow> string list \<Rightarrow> bool" where
  "logs name ps pw log =
     (pw_name pw = name \<and> parts pw = ps \<and> dest pw = log \<and> ring_holds pw (map sanitizeKeepColors log))"

interpretation writer_log: simulation "emit now" "render now name ps" "logs name ps" for now name ps
proof
  fix pw log line
  assume l: "logs name ps pw log"
  then have "ring_holds (emit now line pw)
      (map sanitizeKeepColors log @ [sanitizeKeepColors (pw_prefix (now (length log)) pw line)])"
    using ring_holds_emit [of pw "map sanitizeKeepColors log" now line] by (simp add: logs_def)
  moreover have "pw_name (emit now line pw) = name" "parts (emit now line pw) = ps"
      "dest (emit now line pw) = log @ [pw_prefix (now (length log)) pw line]"
    using l by (simp_all add: logs_def emit_def Let_def)
  ultimately show "logs name ps (emit now line pw) (render now name ps line log)"
    using l by (auto simp: logs_def render_def pw_prefix_def)
qed

lemma logs_New: "logs name (parsePrefixParts fmt) (NewPrefixWriter name fmt) []"
  by (simp add: logs_def NewPrefixWriter_def ring_holds_def Recent_def defaultRingSize_def)

lemma logs_buf: "logs name ps (pw\<lparr>buf := b\<rparr>) log = logs name ps pw log"
  by (simp add: logs_def ring_holds_def Recent_def)

lemma length_render: "length (fold (render now name ps) ls log) = length log + length ls"
  by (induction ls arbitrary: log) (simp_all add: render_def)

lemma cut_lines_bounded:
  "length b < maxBufSize \<Longrightarrow> list_all (\<lambda>l. length l \<le> maxBufSize + 1) (fst (cut_lines b p))"
  by (induction b p rule: cut_lines.induct) (auto simp: maxBufSize_def)

text \<open>
  C26. A new writer implements a log: after any writes, its destination has received the lines of
  the input in order, each with its prefix and none longer than the limit, and \<open>Recent\<close> is the last
  200 of them made safe for a terminal.
\<close>

theorem writer_refines_log:
  fixes now name fmt ps
  defines "pw \<equiv> fold (Write now) ps (NewPrefixWriter name fmt)"
    and "ls \<equiv> fst (cut_lines [] (concat ps))"
  shows "dest pw = fold (render now name (parsePrefixParts fmt)) ls [] \<and>
    list_all (\<lambda>l. length l \<le> maxBufSize + 1) ls \<and>
    Recent pw = map sanitizeKeepColors (drop (length ls - defaultRingSize) (dest pw)) \<and>
    length (Recent pw) = min (length ls) defaultRingSize"
proof -
  have "pw = feed now (concat ps) (NewPrefixWriter name fmt)"
    unfolding pw_def by (rule Writes_feed) (simp add: NewPrefixWriter_def)
  then have "pw = (fold (emit now) ls (NewPrefixWriter name fmt))\<lparr>buf := snd (cut_lines [] (concat ps))\<rparr>"
    by (simp add: feed_def ls_def NewPrefixWriter_def)
  moreover have "logs name (parsePrefixParts fmt) (fold (emit now) ls (NewPrefixWriter name fmt))
      (fold (render now name (parsePrefixParts fmt)) ls [])"
    by (rule writer_log.simulates_run [OF logs_New])
  ultimately have l: "logs name (parsePrefixParts fmt) pw (fold (render now name (parsePrefixParts fmt)) ls [])"
    by (simp add: logs_buf)
  have "0 < maxBufSize" by (simp add: maxBufSize_def)
  then have "list_all (\<lambda>l. length l \<le> maxBufSize + 1) ls" unfolding ls_def by (intro cut_lines_bounded) simp
  then show ?thesis using l by (auto simp: logs_def ring_holds_def length_render drop_map)
qed

section \<open>Slots of subscribers\<close>

text \<open>
  A subscriber's view: the slots it took off the channel and has not finished with, at most
  \<open>maxHeld\<close> of them (one in the pipe goroutine, 256 in the merged channel, one in the handler of
  the logs command), and the lines that were sent, in order.
\<close>

definition maxHeld :: nat where "maxHeld = 258"

record reader =
  sub :: subscription
  held :: "nat list"
  sent :: "string list"

inductive reader_step :: "reader \<Rightarrow> reader \<Rightarrow> bool" where
  line: "reader_step r (r\<lparr>sub := fan_out l (sub r),
     sent := if length (out (sub r)) < subChanCap then sent r @ [l] else sent r\<rparr>)"
| receive: "out (sub r) = i # os \<Longrightarrow> length (held r) < maxHeld \<Longrightarrow>
     reader_step r (r\<lparr>sub := (sub r)\<lparr>out := os\<rparr>, held := held r @ [i]\<rparr>)"
| release: "held r = i # hs \<Longrightarrow> reader_step r (r\<lparr>held := hs, sent := tl (sent r)\<rparr>)"

definition new_reader :: reader where
  "new_reader = \<lparr>sub = new_subscription, held = [], sent = []\<rparr>"

definition slots_from :: "nat \<Rightarrow> nat \<Rightarrow> nat list" where
  "slots_from i n = map (\<lambda>j. (i + j) mod subBufRingSize) [0..<n]"

lemma length_slots_from [simp]: "length (slots_from i n) = n"
  by (simp add: slots_from_def)

lemma slots_from_Suc: "slots_from i (Suc n) = slots_from i n @ [(i + n) mod subBufRingSize]"
  by (simp add: slots_from_def)

lemma slots_from_tl: "tl (slots_from i (Suc n)) = slots_from (Suc i) n"
  by (simp add: slots_from_def map_upt_Suc del: upt_Suc)

lemma fresh_slot: "n < subBufRingSize \<Longrightarrow> (i + n) mod subBufRingSize \<notin> set (slots_from i n)"
proof
  assume n: "n < subBufRingSize" and "(i + n) mod subBufRingSize \<in> set (slots_from i n)"
  then obtain j where j: "j < n" "(i + n) mod subBufRingSize = (i + j) mod subBufRingSize" by (auto simp: slots_from_def)
  then have "(i + j + (n - j)) mod subBufRingSize = (i + j) mod subBufRingSize" by simp
  then have "subBufRingSize dvd n - j" using mod_eq_dvd_iff_nat [of "i + j" "i + n" subBufRingSize] j by simp
  then show False using n j(1) by (auto dest!: dvd_imp_le)
qed

definition reader_ok :: "reader \<Rightarrow> bool" where
  "reader_ok r =
     (length (bufs (sub r)) = subBufRingSize \<and> length (out (sub r)) \<le> subChanCap \<and> length (held r) \<le> maxHeld \<and>
      (\<exists>i. held r @ out (sub r) = slots_from i (length (sent r)) \<and>
        bufIdx (sub r) = (i + length (sent r)) mod subBufRingSize) \<and>
      map (\<lambda>j. bufs (sub r) ! j) (held r @ out (sub r)) = sent r)"

lemma next_slot: "(if subBufRingSize \<le> k mod subBufRingSize + 1 then 0 else k mod subBufRingSize + 1) = Suc k mod subBufRingSize"
  by (auto simp: mod_Suc subBufRingSize_def)

lemma reader_ok_line:
  assumes "reader_ok r"
  shows "reader_ok (r\<lparr>sub := fan_out l (sub r),
     sent := if length (out (sub r)) < subChanCap then sent r @ [l] else sent r\<rparr>)"
proof -
  define n b where "n = length (sent r)" and "b = bufIdx (sub r)"
  obtain i where i: "held r @ out (sub r) = slots_from i n" "b = (i + n) mod subBufRingSize"
    using assms unfolding reader_ok_def n_def b_def by blast
  have len: "length (bufs (sub r)) = subBufRingSize" "length (out (sub r)) \<le> subChanCap" "length (held r) \<le> maxHeld"
    "map (\<lambda>j. bufs (sub r) ! j) (held r @ out (sub r)) = sent r"
    using assms by (auto simp: reader_ok_def)
  have "n = length (held r) + length (out (sub r))" using arg_cong [OF i(1), of length] by simp
  then have n: "n < subBufRingSize" using len by (simp add: subBufRingSize_def subChanCap_def maxHeld_def)
  have fresh: "b \<notin> set (held r @ out (sub r))" unfolding i by (rule fresh_slot [OF n])
  have b: "b < subBufRingSize" unfolding i(2) by (simp add: subBufRingSize_def)
  have kept: "map (\<lambda>j. (bufs (sub r))[b := l] ! j) (held r @ out (sub r)) = sent r"
    unfolding len(4) [symmetric] using fresh by (intro map_cong refl nth_list_update_neq) auto
  have app: "held r @ out (sub r) @ [b] = slots_from i (Suc n)" using i by (simp add: slots_from_Suc)
  have new: "map (\<lambda>j. (bufs (sub r))[b := l] ! j) (slots_from i (Suc n)) = sent r @ [l]"
    using kept b len(1) by (simp flip: app)
  show ?thesis
  proof (cases "length (out (sub r)) < subChanCap")
    case True
    have "(if subBufRingSize \<le> b + 1 then 0 else b + 1) = (i + Suc n) mod subBufRingSize"
      unfolding i(2) by (simp only: next_slot add_Suc_right)
    then show ?thesis using True len b new app
      by (auto simp: reader_ok_def fan_out_def Let_def n_def [symmetric] b_def [symmetric] intro!: exI [of _ i])
  next
    case False
    then show ?thesis using len kept i
      by (auto simp: reader_ok_def fan_out_def Let_def n_def [symmetric] b_def [symmetric] intro!: exI [of _ i])
  qed
qed

lemma reader_ok_step: "reader_step r r' \<Longrightarrow> reader_ok r \<Longrightarrow> reader_ok r'"
proof (induction rule: reader_step.induct)
  case (line r l)
  then show ?case by (rule reader_ok_line)
next
  case (receive r i os)
  then show ?case by (auto simp: reader_ok_def)
next
  case (release r i hs)
  then obtain k where k: "i # hs @ out (sub r) = slots_from k (length (sent r))"
      "bufIdx (sub r) = (k + length (sent r)) mod subBufRingSize"
    by (auto simp: reader_ok_def)
  have "length (sent r) = Suc (length hs + length (out (sub r)))" using arg_cong [OF k(1), of length] by simp
  then obtain n where n: "length (sent r) = Suc n" by blast
  have "hs @ out (sub r) = slots_from (Suc k) n" using arg_cong [OF k(1), of tl] n by (simp add: slots_from_tl)
  moreover have "map (\<lambda>j. bufs (sub r) ! j) (i # hs @ out (sub r)) = sent r"
    using release by (simp add: reader_ok_def)
  then have "map (\<lambda>j. bufs (sub r) ! j) (hs @ out (sub r)) = tl (sent r)" by (metis list.map_sel(2) list.sel(3) list.distinct(1))
  ultimately show ?case using release k(2) n unfolding reader_ok_def by (auto intro!: exI [of _ "Suc k"])
qed

lemma reader_ok_new: "reader_ok new_reader"
  by (auto simp: reader_ok_def new_reader_def new_subscription_def slots_from_def subBufRingSize_def intro!: exI [of _ 0])

text \<open>
  C27. No torn lines: in every run of a subscription, lines sent or dropped, received and released
  in any order, each slot that is queued or held still has the bytes that were sent in it, although
  the writer reuses the slots round and round.
\<close>

theorem subscriber_slots_intact:
  assumes "reader_step\<^sup>*\<^sup>* new_reader r"
  shows "map (\<lambda>j. bufs (sub r) ! j) (held r @ out (sub r)) = sent r \<and> length (out (sub r)) \<le> subChanCap"
proof -
  have "reader_ok r" using assms by (induction rule: rtranclp_induct) (auto intro: reader_ok_new reader_ok_step)
  then show ?thesis by (simp add: reader_ok_def)
qed

theorem subscriber_slots_intact_witness:
  "let s = fan_out ''b'' (fan_out ''a'' new_subscription)
   in map (\<lambda>j. bufs s ! j) (out s) = [''a'', ''b'']"
proof -
  define r1 where "r1 = new_reader\<lparr>sub := fan_out ''a'' (sub new_reader),
    sent := if length (out (sub new_reader)) < subChanCap then sent new_reader @ [''a''] else sent new_reader\<rparr>"
  define r2 where "r2 = r1\<lparr>sub := fan_out ''b'' (sub r1),
    sent := if length (out (sub r1)) < subChanCap then sent r1 @ [''b''] else sent r1\<rparr>"
  have "reader_step new_reader r1" "reader_step r1 r2" unfolding r1_def r2_def by (rule reader_step.line)+
  then have "reader_step\<^sup>*\<^sup>* new_reader r2" by (meson rtranclp.simps)
  from subscriber_slots_intact [OF this] show ?thesis
    by (simp add: r1_def r2_def new_reader_def new_subscription_def subChanCap_def fan_out_def Let_def)
qed

end
