(* ===== verification/Go_Path.thy ===== *)
theory Go_Path
  imports Go_Prelude
begin

text \<open>
  Slash-separated paths as package \<open>path/filepath\<close> treats them: \<open>Clean\<close>, \<open>Join\<close>, \<open>Dir\<close>, \<open>Base\<close> and
  \<open>IsAbs\<close>. A cleaned path is the list of its components and whether it is rooted.
\<close>

section \<open>Definitions\<close>

definition IsAbs :: "string \<Rightarrow> bool" where
  "IsAbs path = has_prefix path ''/''"

definition clean_step :: "bool \<Rightarrow> string \<Rightarrow> string list \<Rightarrow> string list" where
  "clean_step rooted c st =
     (if c = [] \<or> c = ''.'' then st
      else if c = ''..'' then
        (if st = [] then (if rooted then [] else [c]) else if last st = ''..'' then st @ [c] else butlast st)
      else st @ [c])"

definition clean_components :: "string \<Rightarrow> string list" where
  "clean_components path = fold (clean_step (IsAbs path)) (split_on (CHR ''/'') path) []"

text \<open>The text of a rooted path with the given components.\<close>

definition path_of :: "string list \<Rightarrow> string" where
  "path_of cs = (if cs = [] then ''/'' else concat (map (\<lambda>c. CHR ''/'' # c) cs))"

definition filepath_Clean :: "string \<Rightarrow> string" where
  "filepath_Clean path =
     (if IsAbs path then path_of (clean_components path)
      else if clean_components path = [] then ''.''
      else join ''/'' (clean_components path))"

definition filepath_Join :: "string \<Rightarrow> string \<Rightarrow> string" where
  "filepath_Join a b =
     (if a = [] then (if b = [] then [] else filepath_Clean b)
      else if b = [] then filepath_Clean a
      else filepath_Clean (a @ ''/'' @ b))"

text \<open>The directory part: the text up to the last slash, cleaned.\<close>

definition dir_prefix :: "string \<Rightarrow> string" where
  "dir_prefix path = rev (dropWhile (\<lambda>c. c \<noteq> CHR ''/'') (rev path))"

definition filepath_Dir :: "string \<Rightarrow> string" where
  "filepath_Dir path = filepath_Clean (dir_prefix path)"

text \<open>The last element, without trailing slashes.\<close>

definition filepath_Base :: "string \<Rightarrow> string" where
  "filepath_Base path =
     (let p = rev (dropWhile (\<lambda>c. c = CHR ''/'') (rev path))
      in if path = [] then ''.'' else if p = [] then ''/'' else rev (takeWhile (\<lambda>c. c \<noteq> CHR ''/'') (rev p)))"

section \<open>Components\<close>

definition name_ok :: "string \<Rightarrow> bool" where
  "name_ok c = (c \<noteq> [] \<and> c \<noteq> ''.'' \<and> c \<noteq> ''..'' \<and> CHR ''/'' \<notin> set c)"

lemma clean_step_ok: "list_all name_ok st \<Longrightarrow> CHR ''/'' \<notin> set c \<Longrightarrow> list_all name_ok (clean_step True c st)"
  by (cases st rule: rev_cases) (auto simp: clean_step_def name_ok_def list_all_iff)

lemma fold_clean_ok:
  "list_all name_ok st \<Longrightarrow> (\<And>c. c \<in> set cs \<Longrightarrow> CHR ''/'' \<notin> set c) \<Longrightarrow> list_all name_ok (fold (clean_step True) cs st)"
  by (induction cs arbitrary: st) (auto simp: clean_step_ok)

lemma clean_components_ok: "IsAbs p \<Longrightarrow> list_all name_ok (clean_components p)"
  unfolding clean_components_def by simp (rule fold_clean_ok, auto dest: split_on_parts)

lemma fold_clean_names: "list_all name_ok cs \<Longrightarrow> fold (clean_step True) cs st = st @ cs"
  by (induction cs arbitrary: st) (auto simp: clean_step_def name_ok_def)

lemma split_on_path: "list_all name_ok cs \<Longrightarrow> cs \<noteq> [] \<Longrightarrow>
  split_on (CHR ''/'') (concat (map (\<lambda>c. CHR ''/'' # c) cs)) = [] # cs"
proof (induction cs)
  case (Cons c cs)
  have c: "CHR ''/'' \<notin> set c" using Cons.prems by (simp add: name_ok_def)
  have "split_on (CHR ''/'') (c @ concat (map (\<lambda>c. CHR ''/'' # c) cs)) = c # cs"
  proof (cases cs)
    case Nil
    then show ?thesis using c by (simp add: split_on_no_sep)
  next
    case (Cons a as)
    then have "split_on (CHR ''/'') (concat (map (\<lambda>c. CHR ''/'' # c) cs)) = [] # cs"
      using Cons.IH Cons.prems by simp
    then have "split_on (CHR ''/'') (a @ concat (map (\<lambda>c. CHR ''/'' # c) as)) = cs" using Cons by simp
    then show ?thesis using split_on_append_sep [OF c] Cons by simp
  qed
  then show ?case by simp
qed simp

lemma IsAbs_path_of: "IsAbs (path_of cs)"
  by (cases cs) (auto simp: path_of_def IsAbs_def has_prefix_iff)

lemma clean_components_path_of: "list_all name_ok cs \<Longrightarrow> clean_components (path_of cs) = cs"
proof (cases "cs = []")
  case True
  then show ?thesis by (simp add: clean_components_def path_of_def clean_step_def)
next
  case False
  assume "list_all name_ok cs"
  then show ?thesis using split_on_path [of cs] fold_clean_names [of cs "[]"] False IsAbs_path_of [of cs]
    by (simp add: clean_components_def path_of_def clean_step_def)
qed

section \<open>Lengths\<close>

definition text_size :: "string list \<Rightarrow> nat" where
  "text_size cs = sum_list (map (\<lambda>c. Suc (length c)) cs)"

lemma text_size_simps [simp]:
  "text_size [] = 0" "text_size (c # cs) = Suc (length c) + text_size cs" "text_size (cs @ ds) = text_size cs + text_size ds"
  by (simp_all add: text_size_def)

lemma text_size_butlast: "text_size (butlast cs) \<le> text_size cs"
  by (cases cs rule: rev_cases) auto

lemma clean_step_size: "text_size (clean_step r c st) \<le> text_size st + (if c = [] then 0 else Suc (length c))"
  using text_size_butlast [of st] by (auto simp: clean_step_def)

lemma fold_clean_size:
  "text_size (fold (clean_step r) cs st) \<le> text_size st + text_size (filter (\<lambda>c. c \<noteq> []) cs)"
proof (induction cs arbitrary: st)
  case (Cons c cs)
  show ?case using Cons [of "clean_step r c st"] clean_step_size [of r c st] by auto
qed simp

lemma split_on_size: "text_size (split_on d s) = Suc (length s)"
  by (induction s rule: split_on.induct) (auto split: list.splits)

lemma text_size_filter: "text_size (filter (\<lambda>c. c \<noteq> []) cs) + length (filter (\<lambda>c. c = []) cs) = text_size cs"
  by (induction cs) auto

lemma length_join: "length (join ''/'' cs) = text_size cs - 1"
  by (induction "''/''" cs rule: join.induct) auto

lemma length_path_of: "length (path_of cs) = max 1 (text_size cs)"
proof -
  have "length (concat (map (\<lambda>c. CHR ''/'' # c) cs)) = text_size cs" by (induction cs) auto
  then show ?thesis by (cases cs) (auto simp: path_of_def)
qed

definition empties :: "string \<Rightarrow> nat" where
  "empties p = length (filter (\<lambda>c. c = []) (split_on (CHR ''/'') p))"

lemma components_size: "text_size (clean_components p) + empties p \<le> Suc (length p)"
  using fold_clean_size [of "IsAbs p" "split_on (CHR ''/'') p" "[]"] text_size_filter [of "split_on (CHR ''/'') p"]
    split_on_size [of "CHR ''/''" p]
  by (simp add: clean_components_def empties_def)

lemma split_on_snoc: "split_on d (s @ [d]) = split_on d s @ [[]]"
  by (induction s) (auto split: list.splits)

lemma empties_abs: "IsAbs p \<Longrightarrow> 0 < empties p"
  by (auto simp: IsAbs_def has_prefix_iff empties_def)

lemma empties_snoc: "empties (p @ ''/'') = Suc (empties p)"
  by (simp add: empties_def split_on_snoc)

lemma Clean_length: "p \<noteq> [] \<Longrightarrow> length (filepath_Clean p) \<le> length p"
  using components_size [of p] empties_abs [of p]
  by (cases "IsAbs p") (auto simp: filepath_Clean_def length_path_of length_join Suc_le_eq)

lemma Clean_slash_length:
  assumes "q \<noteq> []"
  shows "length (filepath_Clean (q @ ''/'')) < length (q @ ''/'')"
proof -
  have "IsAbs (q @ ''/'') \<longleftrightarrow> IsAbs q" using assms by (cases q) (auto simp: IsAbs_def has_prefix_def)
  then show ?thesis using components_size [of "q @ ''/''"] empties_snoc [of q] empties_abs [of q] assms
    by (cases "IsAbs q") (auto simp: filepath_Clean_def length_path_of length_join)
qed

lemma dir_prefix_cases:
  obtains "dir_prefix p = []" | q r where "dir_prefix p = q @ ''/''" "p = q @ ''/'' @ r"
proof (cases "dropWhile (\<lambda>c. c \<noteq> CHR ''/'') (rev p)")
  case Nil
  then show thesis using that(1) by (simp add: dir_prefix_def)
next
  case (Cons c t)
  then have c: "c = CHR ''/''" using hd_dropWhile [of "\<lambda>c. c \<noteq> CHR ''/''" "rev p"] by auto
  define w where "w = takeWhile (\<lambda>c. c \<noteq> CHR ''/'') (rev p)"
  have "rev p = w @ c # t" using Cons takeWhile_dropWhile_id [of "\<lambda>c. c \<noteq> CHR ''/''" "rev p"] by (simp add: w_def)
  then have "rev (rev p) = rev t @ [c] @ rev w" by simp
  then have "p = rev t @ ''/'' @ rev w" using c by simp
  moreover have "dir_prefix p = rev t @ ''/''" using Cons c by (simp add: dir_prefix_def)
  ultimately show thesis using that(2) by blast
qed

lemma Dir_shorter:
  assumes "p \<notin> {[], ''/'', ''.''}"
  shows "filepath_Dir p = ''.'' \<or> length (filepath_Dir p) < length p"
proof (cases rule: dir_prefix_cases [of p])
  case 1
  then show ?thesis by (simp add: filepath_Dir_def filepath_Clean_def IsAbs_def has_prefix_def clean_components_def clean_step_def)
next
  case (2 q r)
  then have l: "length (filepath_Dir p) \<le> length (q @ ''/'')" using Clean_length [of "q @ ''/''"] by (simp add: filepath_Dir_def)
  show ?thesis
  proof (cases "r = []")
    case True
    then have "q \<noteq> []" using assms 2 by auto
    then show ?thesis using Clean_slash_length [of q] True 2 by (simp add: filepath_Dir_def)
  next
    case False
    then show ?thesis using l 2 by (cases r) auto
  qed
qed

end
