(* ===== verification/Log_Target.thy ===== *)
theory Log_Target
  imports Sanitize Go_Float Go_Path
begin

text \<open>
  Log targets: the size-rotated file writer of \<open>internal/logger/rotate.go\<close> and the targets of
  \<open>internal/logger/target.go\<close>.

  The directory of a log file is a map from its leaves to contents: the active file, the rotated
  files \<open>path.i\<close> and the compressed ones \<open>path.i.gz\<close>. What the operating system answers is the
  argument \<open>os\<close>: which renames and removals succeed, how many bytes a write takes, what an open and a
  stat of a leaf give. \<open>gzip\<close>, \<open>strconv.Quote\<close> and the syslog dialer are arguments too.
\<close>

section \<open>Sizes\<close>

datatype size_error = Missing_number | Bad_number | Unknown_unit string | Not_positive | Too_large

fun number_len :: "bool \<Rightarrow> string \<Rightarrow> nat" where
  "number_len sawDot [] = 0"
| "number_len sawDot (c # s) =
     (if is_digit c then Suc (number_len sawDot s)
      else if c = CHR ''.'' \<and> \<not> sawDot then Suc (number_len True s)
      else 0)"

definition unit_factor :: "string \<Rightarrow> nat option" where
  "unit_factor u = map_of
     [('''', 1), (''B'', 1), (''KB'', 1000), (''KiB'', 1024), (''MB'', 1000000), (''MiB'', 1048576),
      (''GB'', 1000000000), (''GiB'', 1073741824)] u"

definition parseByteSize :: "string \<Rightarrow> size_error + int" where
  "parseByteSize s0 =
     (let s = trim_space s0; stop = number_len False s; u = trim_space (drop stop s)
      in if s = [] then Inr 0
         else if stop = 0 then Inl Missing_number
         else case parse_decimal (take stop s) of
           None \<Rightarrow> Inl Bad_number
         | Some x \<Rightarrow>
             (case round64 x of
                Finite num \<Rightarrow>
                  (case unit_factor u of
                     None \<Rightarrow> Inl (Unknown_unit u)
                   | Some mul \<Rightarrow>
                       (case fmul (Finite num) (Finite (of_nat mul)) of
                          Finite v \<Rightarrow> if v \<le> 0 then Inl Not_positive
                            else if 2 ^ 63 \<le> v then Inl Too_large
                            else Inr (truncate v)
                        | _ \<Rightarrow> Inl Too_large))
              | _ \<Rightarrow> Inl Bad_number))"

section \<open>Paths\<close>

datatype lstat_result = Lstat_error | Symlink | Directory | Other_file

datatype path_error = Ancestor_missing string | Ancestor_symlink string | Ancestor_not_dir string

text \<open>The ancestors of the path with the given components, from the root down.\<close>

fun check_ancestors :: "(string \<Rightarrow> lstat_result) \<Rightarrow> string list \<Rightarrow> string list \<Rightarrow> path_error option" where
  "check_ancestors lstat cur [] = None"
| "check_ancestors lstat cur (c # cs) =
     (let here = path_of (cur @ [c])
      in case lstat here of
           Lstat_error \<Rightarrow> Some (Ancestor_missing here)
         | Symlink \<Rightarrow> Some (Ancestor_symlink here)
         | Other_file \<Rightarrow> Some (Ancestor_not_dir here)
         | Directory \<Rightarrow> check_ancestors lstat (cur @ [c]) cs)"

definition checkAncestorsNotSymlinked :: "(string \<Rightarrow> lstat_result) \<Rightarrow> string \<Rightarrow> path_error option" where
  "checkAncestorsNotSymlinked lstat path = check_ancestors lstat [] (butlast (clean_components path))"

section \<open>The rotating writer\<close>

datatype leaf = Active | Plain nat | Gz nat

definition leaf_name :: "string \<Rightarrow> leaf \<Rightarrow> string" where
  "leaf_name path l =
     (case l of Active \<Rightarrow> path | Plain i \<Rightarrow> path @ ''.'' @ itoa (int i) | Gz i \<Rightarrow> path @ ''.'' @ itoa (int i) @ ''.gz'')"

type_synonym dir = "leaf \<rightharpoonup> string"

datatype leaf_open = Open_error | Stat_error | Opened (regular: bool) (owner: nat) (perm: int)

datatype leaf_error = Leaf_open_error | Leaf_stat_error | Not_regular | Bad_owner nat | World_accessible int

record os =
  lstat :: "string \<Rightarrow> lstat_result"
  remove_ok :: "leaf \<Rightarrow> bool"
  rename_ok :: "leaf \<Rightarrow> bool"
  gzip_ok :: bool
  open_leaf :: leaf_open
  euid :: nat
  takes :: "nat \<Rightarrow> nat"

record rotatingFileWriter =
  is_open :: bool
  path :: string
  fsize :: int
  maxSize :: int
  maxFiles :: int
  compress :: bool

datatype rotate_error = Rotate_ancestor path_error | Rename_failed | Reopen_failed leaf_error

definition openLogLeaf :: "os \<Rightarrow> leaf_error option" where
  "openLogLeaf os =
     (case open_leaf os of
        Open_error \<Rightarrow> Some Leaf_open_error
      | Stat_error \<Rightarrow> Some Leaf_stat_error
      | Opened reg uid mode \<Rightarrow>
          if \<not> reg then Some Not_regular
          else if uid \<noteq> 0 \<and> uid \<noteq> euid os then Some (Bad_owner uid)
          else if and mode 6 \<noteq> 0 then Some (World_accessible mode)
          else None)"

definition remove :: "os \<Rightarrow> leaf \<Rightarrow> dir \<Rightarrow> dir" where
  "remove os l d = (if remove_ok os l then d(l := None) else d)"

text \<open>A rename that the code tries only when the source exists.\<close>

definition shift_one :: "os \<Rightarrow> leaf \<Rightarrow> leaf \<Rightarrow> dir \<Rightarrow> dir" where
  "shift_one os src dst d =
     (case d src of
        None \<Rightarrow> d
      | Some c \<Rightarrow> if rename_ok os src then d(src := None, dst \<mapsto> c) else d)"

text \<open>The slots \<open>n\<close>, \<open>n - 1\<close>, ..., 1 move up by one, the compressed file first.\<close>

fun shift_slots :: "os \<Rightarrow> nat \<Rightarrow> dir \<Rightarrow> dir" where
  "shift_slots os 0 d = d"
| "shift_slots os (Suc i) d =
     shift_slots os i (shift_one os (Plain (Suc i)) (Plain (Suc i + 1)) (shift_one os (Gz (Suc i)) (Gz (Suc i + 1)) d))"

definition gzipFile :: "os \<Rightarrow> (string \<Rightarrow> string) \<Rightarrow> leaf \<Rightarrow> leaf \<Rightarrow> dir \<Rightarrow> dir option" where
  "gzipFile os gzip src dst d =
     (case d src of
        None \<Rightarrow> None
      | Some c \<Rightarrow> if d dst \<noteq> None \<or> \<not> gzip_ok os then None else Some (d(dst \<mapsto> gzip c)))"

text \<open>The oldest slot is dropped in both namings, then the others are shifted.\<close>

definition rotate_slots :: "os \<Rightarrow> rotatingFileWriter \<Rightarrow> dir \<Rightarrow> dir" where
  "rotate_slots os fw d =
     shift_slots os (nat (maxFiles fw - 1))
       (remove os (Gz (nat (maxFiles fw))) (remove os (Plain (nat (maxFiles fw))) d))"

definition rotate_away :: "os \<Rightarrow> (string \<Rightarrow> string) \<Rightarrow> rotatingFileWriter \<Rightarrow> dir \<Rightarrow> dir option" where
  "rotate_away os gzip fw d =
     (let d1 = rotate_slots os fw d
      in case d1 Active of
           None \<Rightarrow> None
         | Some c \<Rightarrow>
             if \<not> rename_ok os Active then None
             else let d2 = d1(Active := None, Plain 1 \<mapsto> c)
                  in Some (if compress fw then
                             (case gzipFile os gzip (Plain 1) (Gz 1) d2 of
                                None \<Rightarrow> d2
                              | Some d3 \<Rightarrow> remove os (Plain 1) d3)
                           else d2))"

text \<open>
  \<open>rotate\<close>: the error, the writer and the directory. When the rename fails the removals and shifts
  have been done, and the writer is closed.
\<close>

definition fw_rotate ::
  "os \<Rightarrow> (string \<Rightarrow> string) \<Rightarrow> rotatingFileWriter \<Rightarrow> dir \<Rightarrow> rotate_error option \<times> rotatingFileWriter \<times> dir" where
  "fw_rotate os gzip fw d =
     (case checkAncestorsNotSymlinked (lstat os) (path fw) of
        Some e \<Rightarrow> (Some (Rotate_ancestor e), fw, d)
      | None \<Rightarrow>
          (let closed = fw\<lparr>is_open := False\<rparr>
           in case rotate_away os gzip fw d of
                None \<Rightarrow> (Some Rename_failed, closed, rotate_slots os fw d)
              | Some d' \<Rightarrow>
                  (case openLogLeaf os of
                     Some e \<Rightarrow> (Some (Reopen_failed e), closed, if open_leaf os = Open_error then d' else d'(Active \<mapsto> []))
                   | None \<Rightarrow> (None, closed\<lparr>is_open := True, fsize := 0\<rparr>, d'(Active \<mapsto> [])))))"

datatype write_result = Wrote nat | Not_open | Write_error

definition fw_Write ::
  "os \<Rightarrow> (string \<Rightarrow> string) \<Rightarrow> string \<Rightarrow> rotatingFileWriter \<times> dir \<Rightarrow> write_result \<times> rotatingFileWriter \<times> dir" where
  "fw_Write os gzip p = (\<lambda>(fw0, d0).
     let clean = sanitize p;
         (fw, d) = (if 0 < maxSize fw0 \<and> 0 < fsize fw0 \<and> maxSize fw0 < fsize fw0 + int (length clean)
                    then snd (fw_rotate os gzip fw0 d0) else (fw0, d0));
         n = min (takes os (length clean)) (length clean)
     in if \<not> is_open fw then (Not_open, fw, d)
        else (if n < length clean then Write_error else Wrote (length p),
              fw\<lparr>fsize := fsize fw + int n\<rparr>, d(Active \<mapsto> (case d Active of None \<Rightarrow> [] | Some c \<Rightarrow> c) @ take n clean)))"

definition fw_Close :: "rotatingFileWriter \<Rightarrow> rotatingFileWriter" where
  "fw_Close fw = fw\<lparr>is_open := False\<rparr>"

section \<open>Targets\<close>

definition defaultMaxFiles :: int where "defaultMaxFiles = 5"

record TargetConfig =
  Labels :: "(string \<times> string) list"
  tc_Type :: string
  Location :: string
  MaxSize :: string
  tc_Services :: "string list"
  MaxFiles :: int
  Compress :: bool

datatype target_error =
    No_path | Path_not_absolute string | Path_error path_error | Bad_max_size size_error | Leaf_error leaf_error
  | Syslog_error | Unsupported_type string

text \<open>\<open>size\<close> is the size that the stat of the opened leaf reports.\<close>

definition openFile :: "os \<Rightarrow> int \<Rightarrow> string \<Rightarrow> TargetConfig \<Rightarrow> target_error + rotatingFileWriter" where
  "openFile os size0 location cfg =
     (let p0 = trim_prefix location ''file://''; p = filepath_Clean p0
      in if p0 = [] then Inl No_path
         else if \<not> IsAbs p0 then Inl (Path_not_absolute p0)
         else case checkAncestorsNotSymlinked (lstat os) p of
           Some e \<Rightarrow> Inl (Path_error e)
         | None \<Rightarrow>
             (case parseByteSize (MaxSize cfg) of
                Inl e \<Rightarrow> Inl (Bad_max_size e)
              | Inr size_limit \<Rightarrow>
                  (case openLogLeaf os of
                     Some e \<Rightarrow> Inl (Leaf_error e)
                   | None \<Rightarrow> Inr \<lparr>is_open = True, path = p, fsize = size0, maxSize = size_limit,
                       maxFiles = (if 0 < size_limit \<and> MaxFiles cfg \<le> 0 then defaultMaxFiles else MaxFiles cfg),
                       compress = Compress cfg\<rparr>)))"

definition logfmtValue :: "(string \<Rightarrow> string) \<Rightarrow> string \<Rightarrow> string" where
  "logfmtValue quote v =
     (if v = [] then [CHR 0x22, CHR 0x22]
      else if list_ex (\<lambda>c. c \<in> {CHR '' '', tab, CHR 0x22, CHR ''=''}) v then quote v
      else v)"

definition newLabelWriter :: "(string \<Rightarrow> string) \<Rightarrow> (string \<times> string) list \<Rightarrow> string" where
  "newLabelWriter quote labels =
     concat (map (\<lambda>k. k @ ''='' @ logfmtValue quote (the (map_of labels k)) @ '' '') (sort (map fst labels)))"

datatype writer = File_writer rotatingFileWriter | Syslog_writer string string

record log_target =
  lt_name :: string
  lt_services :: "string list"
  lt_writer :: writer
  lt_prefix :: string

text \<open>\<open>url\<close> is the scheme and host that \<open>url.Parse\<close> gives, \<open>dial\<close> whether the syslog server answers.\<close>

definition openSyslog :: "(string \<Rightarrow> (string \<times> string) option) \<Rightarrow> (string \<Rightarrow> string \<Rightarrow> bool) \<Rightarrow> string \<Rightarrow> target_error + writer" where
  "openSyslog url dial location =
     (case url location of
        None \<Rightarrow> Inl Syslog_error
      | Some (network, addr) \<Rightarrow>
          if network = [] \<or> addr = [] then Inl Syslog_error
          else if \<not> dial network addr then Inl Syslog_error
          else Inr (Syslog_writer network addr))"

definition NewTarget ::
  "os \<Rightarrow> int \<Rightarrow> (string \<Rightarrow> (string \<times> string) option) \<Rightarrow> (string \<Rightarrow> string \<Rightarrow> bool) \<Rightarrow> (string \<Rightarrow> string) \<Rightarrow>
   string \<Rightarrow> TargetConfig \<Rightarrow> target_error + log_target" where
  "NewTarget os size0 url dial quote name cfg =
     result_bind
       (if tc_Type cfg = ''syslog'' then openSyslog url dial (Location cfg)
        else if tc_Type cfg = ''file'' then result_bind (openFile os size0 (Location cfg) cfg) (\<lambda>w. Inr (File_writer w))
        else Inl (Unsupported_type (tc_Type cfg)))
       (\<lambda>w. Inr \<lparr>lt_name = name, lt_services = remdups (tc_Services cfg), lt_writer = w,
          lt_prefix = newLabelWriter quote (Labels cfg)\<rparr>)"

definition AppliesTo :: "log_target \<Rightarrow> string \<Rightarrow> bool" where
  "AppliesTo lt serviceName = (lt_services lt = [] \<or> serviceName \<in> set (lt_services lt))"

text \<open>The bytes that a line of a target's writer becomes on its way out.\<close>

definition target_line :: "log_target \<Rightarrow> string \<Rightarrow> string" where
  "target_line lt p = sanitize (lt_prefix lt @ p)"

section \<open>Rotation keeps the history\<close>

text \<open>The answers of an operating system on which nothing fails.\<close>

definition healthy :: "os \<Rightarrow> rotatingFileWriter \<Rightarrow> bool" where
  "healthy os fw =
     (checkAncestorsNotSymlinked (lstat os) (path fw) = None \<and> remove_ok os = (\<lambda>l. True) \<and>
      rename_ok os = (\<lambda>l. True) \<and> gzip_ok os \<and> openLogLeaf os = None \<and> takes os = (\<lambda>n. n))"

text \<open>The content of the \<open>i\<close>-th youngest file, whether compressed or not.\<close>

definition generation :: "(string \<Rightarrow> string) \<Rightarrow> dir \<Rightarrow> nat \<Rightarrow> string option" where
  "generation gunzip d i =
     (if i = 0 then d Active
      else case d (Gz i) of Some z \<Rightarrow> Some (gunzip z) | None \<Rightarrow> d (Plain i))"

definition shifted :: "nat \<Rightarrow> dir \<Rightarrow> dir" where
  "shifted n d l =
     (case l of
        Active \<Rightarrow> d Active
      | Plain i \<Rightarrow> if i = 1 then None else if 1 < i \<and> i \<le> Suc n then d (Plain (i - 1)) else d l
      | Gz i \<Rightarrow> if i = 1 then None else if 1 < i \<and> i \<le> Suc n then d (Gz (i - 1)) else d l)"

lemma shift_slots_shifted:
  assumes "rename_ok os = (\<lambda>l. True)"
  shows "d (Plain (Suc n)) = None \<Longrightarrow> d (Gz (Suc n)) = None \<Longrightarrow> shift_slots os n d = shifted n d"
proof (induction n arbitrary: d)
  case 0
  then show ?case by (auto simp: shifted_def fun_eq_iff split: leaf.split)
next
  case (Suc n)
  define d1 where "d1 = shift_one os (Plain (Suc n)) (Plain (Suc n + 1)) (shift_one os (Gz (Suc n)) (Gz (Suc n + 1)) d)"
  have d1: "d1 = d(Gz (Suc n) := None, Gz (n + 2) := d (Gz (Suc n)), Plain (Suc n) := None, Plain (n + 2) := d (Plain (Suc n)))"
    using assms Suc.prems by (auto simp: d1_def shift_one_def fun_eq_iff split: option.splits)
  have "d1 (Plain (Suc n)) = None" "d1 (Gz (Suc n)) = None" unfolding d1 by simp_all
  then have "shift_slots os n d1 = shifted n d1" by (rule Suc.IH)
  then have "shift_slots os (Suc n) d = shifted n d1" by (simp add: d1_def)
  also have "\<dots> = shifted (Suc n) d" using Suc.prems by (auto simp: shifted_def d1 fun_eq_iff split: leaf.split)
  finally show ?case .
qed

lemma rotate_slots_healthy:
  assumes "healthy os fw" "1 \<le> maxFiles fw"
  shows "rotate_slots os fw d = shifted (nat (maxFiles fw - 1))
    (d(Plain (nat (maxFiles fw)) := None, Gz (nat (maxFiles fw)) := None))"
proof -
  have "Suc (nat (maxFiles fw - 1)) = nat (maxFiles fw)" using assms(2) by simp
  then show ?thesis using assms shift_slots_shifted
    by (simp add: rotate_slots_def remove_def healthy_def)
qed

lemma rotate_healthy:
  assumes "healthy os fw" "1 \<le> maxFiles fw" "d Active = Some c" "\<And>s. gunzip (gzip s) = s"
  shows "\<exists>d'. fw_rotate os gzip fw d = (None, fw\<lparr>is_open := True, fsize := 0\<rparr>, d') \<and> d' Active = Some [] \<and>
    (\<forall>i. generation gunzip d' (Suc i) = generation gunzip d (if i < nat (maxFiles fw) then i else Suc i))"
proof -
  define m where "m = nat (maxFiles fw)"
  define d1 where "d1 = shifted (m - 1) (d(Plain m := None, Gz m := None))"
  have m: "0 < m" "nat (maxFiles fw - 1) = m - 1" using assms(2) by (auto simp: m_def)
  have r: "rotate_slots os fw d = d1" using rotate_slots_healthy [OF assms(1,2), of d] m by (simp add: d1_def flip: m_def)
  have a: "d1 Active = Some c" "d1 (Gz 1) = None" using assms(3) by (auto simp: d1_def shifted_def)
  define d2 where "d2 = (if compress fw then d1(Active := None, Gz 1 \<mapsto> gzip c, Plain 1 := None)
    else d1(Active := None, Plain 1 \<mapsto> c))"
  have "rotate_away os gzip fw d = Some d2"
    using assms(1) a by (auto simp: rotate_away_def r Let_def gzipFile_def healthy_def remove_def d2_def)
  then have "fw_rotate os gzip fw d = (None, fw\<lparr>is_open := True, fsize := 0\<rparr>, d2(Active \<mapsto> []))"
    using assms(1) by (simp add: fw_rotate_def healthy_def)
  moreover have "generation gunzip (d2(Active \<mapsto> [])) (Suc i) = generation gunzip d (if i < m then i else Suc i)" for i
  proof (cases "i = 0")
    case True
    then show ?thesis using m(1) assms(3,4) a(2) by (auto simp: generation_def d2_def)
  next
    case False
    then show ?thesis using m(1) by (auto simp: generation_def d2_def d1_def shifted_def split: option.splits)
  qed
  ultimately show ?thesis by (auto simp: m_def)
qed

text \<open>
  C28. No line and no rotated file but the oldest is lost: on a file system where nothing fails, a
  write either appends the sanitised line to the active file or first moves every kept file up by one
  generation, compressed or not, and starts a new one; the size counter is the length of the active
  file, and the file passes its limit only by a single line that is longer.
\<close>

theorem fw_Write_keeps_history:
  assumes "healthy os fw" "1 \<le> maxFiles fw" "is_open fw" "d Active = Some c" "fsize fw = int (length c)"
    and "\<And>s. gunzip (gzip s) = s"
  shows "\<exists>fw' d' c'. fw_Write os gzip p (fw, d) = (Wrote (length p), fw', d') \<and> is_open fw' \<and>
    d' Active = Some c' \<and> fsize fw' = int (length c') \<and>
    (c' = c @ sanitize p \<and> (\<forall>i. generation gunzip d' (Suc i) = generation gunzip d (Suc i)) \<or>
     c' = sanitize p \<and> (\<forall>i. generation gunzip d' (Suc i) = generation gunzip d (if i < nat (maxFiles fw) then i else Suc i))) \<and>
    (0 < maxSize fw \<longrightarrow> fsize fw' \<le> maxSize fw \<or> c' = sanitize p)"
proof (cases "0 < maxSize fw \<and> 0 < fsize fw \<and> maxSize fw < fsize fw + int (length (sanitize p))")
  case True
  obtain d1 where d1: "fw_rotate os gzip fw d = (None, fw\<lparr>is_open := True, fsize := 0\<rparr>, d1)" "d1 Active = Some []"
      "\<And>i. generation gunzip d1 (Suc i) = generation gunzip d (if i < nat (maxFiles fw) then i else Suc i)"
    using rotate_healthy [of os fw d c gunzip gzip] assms(1,2,4,6) by blast
  have "fw_Write os gzip p (fw, d) =
      (Wrote (length p), fw\<lparr>is_open := True, fsize := int (length (sanitize p))\<rparr>, d1(Active \<mapsto> sanitize p))"
    using True assms(1) d1(1,2) by (simp add: fw_Write_def Let_def healthy_def)
  moreover have "generation gunzip (d1(Active \<mapsto> sanitize p)) (Suc i) = generation gunzip d1 (Suc i)" for i
    by (simp add: generation_def split: option.split)
  ultimately show ?thesis using d1(3) by auto
next
  case False
  then have "fw_Write os gzip p (fw, d) =
      (Wrote (length p), fw\<lparr>fsize := int (length (c @ sanitize p))\<rparr>, d(Active \<mapsto> c @ sanitize p))"
    using assms by (auto simp: fw_Write_def Let_def healthy_def)
  moreover have "generation gunzip (d(Active \<mapsto> c @ sanitize p)) (Suc i) = generation gunzip d (Suc i)" for i
    by (simp add: generation_def split: option.split)
  ultimately show ?thesis using False assms(3,5) by auto
qed

definition calm_os :: os where
  "calm_os = \<lparr>lstat = (\<lambda>s. Directory), remove_ok = (\<lambda>l. True), rename_ok = (\<lambda>l. True), gzip_ok = True,
    open_leaf = Opened True 0 416, euid = 0, takes = (\<lambda>n. n)\<rparr>"

definition small_writer :: rotatingFileWriter where
  "small_writer = \<lparr>is_open = True, path = ''/log'', fsize = 2, maxSize = 3, maxFiles = 2, compress = True\<rparr>"

theorem fw_Write_keeps_history_witness:
  "\<exists>fw' d'. fw_Write calm_os rev ''cd'' (small_writer, [Active \<mapsto> ''ab'']) = (Wrote 2, fw', d') \<and>
     d' Active = Some ''cd'' \<and> generation rev d' 1 = Some ''ab''"
proof -
  have "and (416 :: int) 6 = 0" by (simp add: and_int_unfold)
  then have h: "healthy calm_os small_writer"
    by (simp add: healthy_def calm_os_def small_writer_def checkAncestorsNotSymlinked_def clean_components_def
      clean_step_def openLogLeaf_def)
  have c: "sanitize ''cd'' = ''cd''"
    by (simp add: sanitize_def sanitizeSeq_def printable_def less_eq_char_def)
  obtain fw' d' c' where w: "fw_Write calm_os rev ''cd'' (small_writer, [Active \<mapsto> ''ab'']) = (Wrote (length ''cd''), fw', d')"
      "d' Active = Some c'" "fsize fw' = int (length c')" "fsize fw' \<le> 3 \<or> c' = ''cd''"
      "c' = ''abcd'' \<or> c' = ''cd'' \<and> (\<forall>i. generation rev d' (Suc i) = generation rev [Active \<mapsto> ''ab''] (if i < 2 then i else Suc i))"
    using fw_Write_keeps_history [OF h, of "[Active \<mapsto> ''ab'']" "''ab''" rev rev "''cd''"]
    by (auto simp: small_writer_def c)
  then have g: "c' = ''cd''" "\<forall>i. generation rev d' (Suc i) = generation rev [Active \<mapsto> ''ab''] (if i < 2 then i else Suc i)"
    by auto
  then show ?thesis using w(1,2) spec [OF g(2), of 0] by (simp add: generation_def)
qed

text \<open>
  C30. After a failed rename of the active file the writer is closed: the write reports that the file
  is not open and leaves the content of the active file as it was, so the line it was rotating for is
  lost.
\<close>

theorem failed_rename_loses_line:
  assumes "checkAncestorsNotSymlinked (lstat os) (path fw) = None" "\<not> rename_ok os Active"
    and "0 < maxSize fw" "0 < fsize fw" "maxSize fw < fsize fw + int (length (sanitize p))"
  shows "fw_Write os gzip p (fw, d) = (Not_open, fw\<lparr>is_open := False\<rparr>, rotate_slots os fw d) \<and>
    rotate_slots os fw d Active = d Active"
proof -
  have "rotate_away os gzip fw d = None" using assms(2) by (simp add: rotate_away_def Let_def split: option.split)
  moreover have "shift_slots os n d Active = d Active" for n d
    by (induction n arbitrary: d) (auto simp: shift_one_def split: option.split)
  ultimately show ?thesis using assms by (simp add: fw_Write_def Let_def fw_rotate_def rotate_slots_def remove_def)
qed

theorem failed_rename_loses_line_witness:
  "fst (fw_Write (calm_os\<lparr>rename_ok := (\<lambda>l. l \<noteq> Active)\<rparr>) rev ''cd'' (small_writer, [Active \<mapsto> ''ab''])) = Not_open"
  using failed_rename_loses_line [of "calm_os\<lparr>rename_ok := (\<lambda>l. l \<noteq> Active)\<rparr>" small_writer "''cd''" rev "[Active \<mapsto> ''ab'']"]
  by (simp add: calm_os_def small_writer_def checkAncestorsNotSymlinked_def clean_components_def clean_step_def
    sanitize_def sanitizeSeq_def printable_def less_eq_char_def)

section \<open>Opening a log file\<close>

lemma check_ancestors_None:
  "check_ancestors st cur cs = None \<longleftrightarrow>
     (\<forall>k. k < length cs \<longrightarrow> st (path_of (cur @ take (Suc k) cs)) = Directory)"
proof (induction st cur cs rule: check_ancestors.induct)
  case (2 st cur c cs)
  have "(\<forall>k. k < length (c # cs) \<longrightarrow> st (path_of (cur @ take (Suc k) (c # cs))) = Directory) \<longleftrightarrow>
      st (path_of (cur @ [c])) = Directory \<and>
      (\<forall>k. k < length cs \<longrightarrow> st (path_of ((cur @ [c]) @ take (Suc k) cs)) = Directory)"
    by (auto simp: less_Suc_eq_0_disj)
  then show ?case using 2 by (auto simp: Let_def split: lstat_result.split)
qed simp

lemma truncate_nonneg: "0 \<le> v \<Longrightarrow> 0 \<le> Go_Float.truncate v"
  by (simp add: Go_Float.truncate_def)

lemma parseByteSize_nonneg: "parseByteSize s = Inr n \<Longrightarrow> 0 \<le> n"
  by (auto simp: parseByteSize_def Let_def truncate_nonneg split: if_splits option.splits float64.splits)

text \<open>
  C29. A file target is opened only at an absolute path without dot segments, every ancestor of which
  is a real directory and no symbolic link, on a regular file of root or of the daemon that others can
  neither read nor write; and a writer that rotates keeps at least one rotated file.
\<close>

theorem openFile_safe:
  assumes "openFile os size0 location cfg = Inr fw"
  shows "\<exists>cs uid mode. path fw = path_of cs \<and> list_all name_ok cs \<and>
    (\<forall>k. 0 < k \<and> k < length cs \<longrightarrow> lstat os (path_of (take k cs)) = Directory) \<and>
    open_leaf os = Opened True uid mode \<and> (uid = 0 \<or> uid = euid os) \<and> and mode 6 = 0 \<and>
    0 \<le> maxSize fw \<and> (0 < maxSize fw \<longrightarrow> 1 \<le> maxFiles fw)"
proof -
  define p where "p = trim_prefix location ''file://''"
  define cs where "cs = clean_components p"
  have a: "IsAbs p" using assms by (auto simp: openFile_def Let_def p_def split: if_splits)
  then have ok: "list_all name_ok cs" unfolding cs_def by (rule clean_components_ok)
  have r: "checkAncestorsNotSymlinked (lstat os) (path_of cs) = None" "openLogLeaf os = None"
      "parseByteSize (MaxSize cfg) = Inr (maxSize fw)" "path fw = path_of cs"
      "maxFiles fw = (if 0 < maxSize fw \<and> MaxFiles cfg \<le> 0 then defaultMaxFiles else MaxFiles cfg)"
    using assms a by (auto simp: openFile_def Let_def cs_def p_def filepath_Clean_def split: if_splits option.splits sum.splits)
  have anc: "lstat os (path_of (take k cs)) = Directory" if k: "0 < k" "k < length cs" for k
  proof -
    have "check_ancestors (lstat os) [] (butlast cs) = None"
      using r(1) ok by (simp add: checkAncestorsNotSymlinked_def clean_components_path_of)
    then have "\<forall>j. j < length (butlast cs) \<longrightarrow> lstat os (path_of ([] @ take (Suc j) (butlast cs))) = Directory"
      by (rule check_ancestors_None [THEN iffD1])
    then have "lstat os (path_of ([] @ take (Suc (k - 1)) (butlast cs))) = Directory" using k by (elim allE [of _ "k - 1"]) auto
    then show ?thesis using k by (simp add: take_butlast)
  qed
  obtain uid mode where "open_leaf os = Opened True uid mode" "uid = 0 \<or> uid = euid os" "and mode 6 = 0"
    using r(2) by (auto simp: openLogLeaf_def split: leaf_open.splits if_splits)
  moreover have "0 < maxSize fw \<longrightarrow> 1 \<le> maxFiles fw" using r(5) by (auto simp: defaultMaxFiles_def)
  ultimately show ?thesis using anc ok r(3,4) parseByteSize_nonneg by blast
qed

theorem openFile_safe_witness:
  "\<exists>fw cs. openFile calm_os 0 ''file:///var/log'' \<lparr>Labels = [], tc_Type = ''file'', Location = [], MaxSize = [],
      tc_Services = [], MaxFiles = 0, Compress = False\<rparr> = Inr fw \<and> path fw = path_of cs \<and> list_all name_ok cs"
proof -
  have "and (416 :: int) 6 = 0" by (simp add: and_int_unfold)
  then have "checkAncestorsNotSymlinked (lstat calm_os) p = None" "openLogLeaf calm_os = None" "parseByteSize [] = Inr 0" for p
    by (auto simp: calm_os_def openLogLeaf_def checkAncestorsNotSymlinked_def check_ancestors_None parseByteSize_def
      trim_space_def Let_def)
  then obtain fw where o: "openFile calm_os 0 ''file:///var/log'' \<lparr>Labels = [], tc_Type = ''file'', Location = [],
      MaxSize = [], tc_Services = [], MaxFiles = 0, Compress = False\<rparr> = Inr fw"
    by (simp add: openFile_def Let_def trim_prefix_def has_prefix_def IsAbs_def)
  from openFile_safe [OF o] o show ?thesis by blast
qed

text \<open>A fraction of a byte is positive but truncates to 0, the value that turns rotation off.\<close>

lemma parseByteSize_fraction: "parseByteSize ''0.5'' = Inr 0"
proof -
  have "parse_decimal ''0.5'' = Some (1 / 2)" by code_simp
  moreover have "trim_space ''0.5'' = ''0.5''" "number_len False ''0.5'' = 3" "trim_space [] = []" by code_simp+
  moreover have "\<lfloor>1 / 2 :: rat\<rfloor> = 0" by (rule floor_unique) simp_all
  ultimately show ?thesis
    unfolding parseByteSize_def by (simp add: Let_def unit_factor_def round64_half Go_Float.truncate_def del: number_len.simps)
qed

end
