(* ===== verification/Resource_Limits.thy ===== *)
theory Resource_Limits
  imports Go_Float Go_Path
begin

text \<open>
  The memory and the CPUs a container may use, and the expressions of the templates over them:
  \<open>internal/cgroup\<close>, \<open>internal/memory\<close> and \<open>internal/cpu\<close>. A cgroup file system is a function from
  a path below its root to the content of the file there. The answers are cached by the code after the
  first call; the definitions are the computation of that first call. The regular expressions of the
  two expression languages are written out as scanners; no choice of theirs needs to be taken back.

  The lemmas show that no content of the cgroup files makes the daemon report more than the machine
  has or fewer than one CPU, and that a percentage never gives more than the whole.
\<close>

section \<open>Control groups\<close>

definition maxCgroupFileSize :: nat where "maxCgroupFileSize = 65536"

text \<open>\<open>strings.SplitN(line, ":", 3)\<close> with three parts.\<close>

definition split3 :: "string \<Rightarrow> (string \<times> string \<times> string) option" where
  "split3 line =
     (case cut_at (CHR '':'') line of
        None \<Rightarrow> None
      | Some (a, r) \<Rightarrow> (case cut_at (CHR '':'') r of None \<Rightarrow> None | Some (b, c) \<Rightarrow> Some (a, b, c)))"

definition self_path_line :: "string \<Rightarrow> string \<Rightarrow> string option" where
  "self_path_line pre line =
     (if pre = ''0::'' then (if has_prefix line ''0::'' then Some (drop 3 line) else None)
      else case split3 line of
        None \<Rightarrow> None
      | Some (n, ctrls, path) \<Rightarrow> if pre \<in> set (split_on (CHR '','') ctrls) then Some path else None)"

fun first_some :: "('a \<Rightarrow> 'b option) \<Rightarrow> 'a list \<Rightarrow> 'b option" where
  "first_some f [] = None"
| "first_some f (x # xs) = (case f x of Some y \<Rightarrow> Some y | None \<Rightarrow> first_some f xs)"

definition SelfPath :: "string option \<Rightarrow> string \<Rightarrow> string" where
  "SelfPath proc pre =
     (case proc of
        None \<Rightarrow> []
      | Some content \<Rightarrow>
          (case first_some (self_path_line pre) (split_on newline (trim_space (take maxCgroupFileSize content))) of
             None \<Rightarrow> []
           | Some path \<Rightarrow> path))"

type_synonym cgroup_root = "string \<Rightarrow> string option"

definition ReadRootFile :: "cgroup_root \<Rightarrow> string \<Rightarrow> string option" where
  "ReadRootFile fs name =
     (let name' = trim_prefix name ''/''
      in if name' = [] then None else map_option (take maxCgroupFileSize) (fs name'))"

definition level_limit :: "cgroup_root \<Rightarrow> string \<Rightarrow> (string \<Rightarrow> int) \<Rightarrow> string \<Rightarrow> int" where
  "level_limit fs filename parse rel =
     (case ReadRootFile fs (filepath_Join rel filename) of None \<Rightarrow> 0 | Some content \<Rightarrow> parse content)"

definition top_level :: "string \<Rightarrow> bool" where
  "top_level rel = (rel = ''/'' \<or> rel = ''.'' \<or> rel = [])"

function WalkUpLimit :: "cgroup_root \<Rightarrow> string \<Rightarrow> string \<Rightarrow> (string \<Rightarrow> int) \<Rightarrow> int" where
  "WalkUpLimit fs rel filename parse =
     (let v = level_limit fs filename parse rel
      in if 0 < v then v
         else if top_level rel then 0
         else WalkUpLimit fs (filepath_Dir rel) filename parse)"
  by pat_completeness auto

termination
proof (relation "measure (\<lambda>(fs, rel, filename, parse). if top_level rel then 0 else Suc (length rel))", goal_cases)
  case (2 fs rel filename parse x)
  then show ?case using Dir_shorter [of rel] by (auto simp: top_level_def)
qed simp

declare WalkUpLimit.simps [simp del]

text \<open>The limit found for a mount: none when it cannot be opened. An empty group is the root group.\<close>

definition mount_limit :: "cgroup_root option \<Rightarrow> string \<Rightarrow> string \<Rightarrow> (string \<Rightarrow> int) \<Rightarrow> int" where
  "mount_limit fs cgPath filename parse =
     (case fs of
        None \<Rightarrow> 0
      | Some r \<Rightarrow> WalkUpLimit r (if cgPath = [] then ''/'' else cgPath) filename parse)"

section \<open>Memory\<close>

definition cgroupV1NoLimit :: int where "cgroupV1NoLimit = 9223372036854771712"

definition parseV2Limit :: "string \<Rightarrow> int" where
  "parseV2Limit content =
     (let s = trim_space content
      in if s = ''max'' \<or> s = [] then 0
         else case parse_int s of None \<Rightarrow> 0 | Some b \<Rightarrow> if b \<le> 0 then 0 else b div 1048576)"

definition parseV1Limit :: "string \<Rightarrow> int" where
  "parseV1Limit content =
     (case parse_int (trim_space content) of
        None \<Rightarrow> 0
      | Some b \<Rightarrow> if b \<le> 0 then 0 else if cgroupV1NoLimit \<le> b then 0 else b div 1048576)"

datatype mem_error = No_meminfo | Bad_meminfo | No_MemTotal

fun mem_total :: "string list \<Rightarrow> mem_error + int" where
  "mem_total [] = Inl No_MemTotal"
| "mem_total (l # ls) =
     (if \<not> has_prefix l ''MemTotal:'' then mem_total ls
      else if length (split_fields l) < 2 then mem_total ls
      else case parse_int (split_fields l ! 1) of
        None \<Rightarrow> Inl Bad_meminfo
      | Some kb \<Rightarrow> Inr (go_quot (wrap64 (kb + 512)) 1024))"

text \<open>
  \<open>bufio.Scanner\<close> drops one carriage return at the end of a line. Its limit on the length of a line,
  64 KiB, is left out: the kernel writes short lines to this file.
\<close>

definition drop_cr :: "string \<Rightarrow> string" where
  "drop_cr l = (if l \<noteq> [] \<and> last l = carriage_return then butlast l else l)"

definition systemMemMiB :: "string option \<Rightarrow> mem_error + int" where
  "systemMemMiB meminfo =
     (case meminfo of None \<Rightarrow> Inl No_meminfo | Some content \<Rightarrow> mem_total (map drop_cr (split_on newline content)))"

record cgroup_mounts =
  proc_cgroup :: "string option"
  v2_root :: "cgroup_root option"
  v1_memory :: "cgroup_root option"
  v1_cpu :: "cgroup_root option"
  v1_cpuacct :: "cgroup_root option"
  v1_cpuset :: "cgroup_root option"

definition cgroupV2MemMiB :: "cgroup_mounts \<Rightarrow> int" where
  "cgroupV2MemMiB m = mount_limit (v2_root m) (SelfPath (proc_cgroup m) ''0::'') ''memory.max'' parseV2Limit"

definition cgroupV1MemMiB :: "cgroup_mounts \<Rightarrow> int" where
  "cgroupV1MemMiB m = mount_limit (v1_memory m) (SelfPath (proc_cgroup m) ''memory'') ''memory.limit_in_bytes'' parseV1Limit"

definition cgroupMemMiB :: "cgroup_mounts \<Rightarrow> int" where
  "cgroupMemMiB m = (if 0 < cgroupV2MemMiB m then cgroupV2MemMiB m else cgroupV1MemMiB m)"

definition memory_available :: "string option \<Rightarrow> cgroup_mounts \<Rightarrow> mem_error + int" where
  "memory_available meminfo m =
     result_bind (systemMemMiB meminfo) (\<lambda>sys.
       let cg = cgroupMemMiB m in Inr (if 0 < cg \<and> cg < sys then cg else sys))"

section \<open>CPUs\<close>

definition parseCPUMax :: "string \<Rightarrow> int" where
  "parseCPUMax content =
     (case split_fields (trim_space content) of
        [q, p] \<Rightarrow>
          if q = ''max'' then 0
          else (case parse_int q of
                  None \<Rightarrow> 0
                | Some quota \<Rightarrow>
                    if quota \<le> 0 then 0
                    else (case parse_int p of
                            None \<Rightarrow> 0
                          | Some period \<Rightarrow>
                              if period \<le> 0 then 0 else go_quot (wrap64 (quota + period - 1)) period))
      | _ \<Rightarrow> 0)"

definition parseV1Int :: "string \<Rightarrow> int" where
  "parseV1Int content = (case parse_int (trim_space content) of None \<Rightarrow> 0 | Some v \<Rightarrow> if v \<le> 0 then 0 else v)"

definition v1CFSFromRoot :: "cgroup_root \<Rightarrow> string \<Rightarrow> int" where
  "v1CFSFromRoot fs cgPath =
     (let quota = WalkUpLimit fs cgPath ''cpu.cfs_quota_us'' parseV1Int;
          period = WalkUpLimit fs cgPath ''cpu.cfs_period_us'' parseV1Int
      in if quota \<le> 0 then 0 else if period \<le> 0 then 0
         else go_quot (wrap64 (quota + period - 1)) period)"

fun cpu_parts :: "int \<Rightarrow> int \<Rightarrow> string list \<Rightarrow> int" where
  "cpu_parts maxCPUCount count [] = count"
| "cpu_parts maxCPUCount count (p # ps) =
     (let part = trim_space p
      in if part = [] then cpu_parts maxCPUCount count ps
         else
           let next = (case cut_at (CHR ''-'') part of
                         Some (lo, hi) \<Rightarrow>
                           (case (parse_int lo, parse_int hi) of
                              (Some loN, Some hiN) \<Rightarrow> if hiN < loN then None else Some (wrap64 (count + (wrap64 (wrap64 (hiN - loN) + 1))))
                            | _ \<Rightarrow> None)
                       | None \<Rightarrow> (case parse_int part of None \<Rightarrow> None | Some n \<Rightarrow> Some (wrap64 (count + 1))))
           in case next of
                None \<Rightarrow> cpu_parts maxCPUCount count ps
              | Some c \<Rightarrow> if maxCPUCount \<le> c then maxCPUCount else cpu_parts maxCPUCount c ps)"

text \<open>\<open>maxCPUCount\<close> is 64 times the number of CPUs of the machine.\<close>

definition parseCPUList :: "int \<Rightarrow> string \<Rightarrow> int" where
  "parseCPUList numCPU content =
     (let s = trim_space content
      in if s = [] then 0 else cpu_parts (numCPU * 64) 0 (split_on (CHR '','') s))"

definition cgroupV2CFSCPUs :: "cgroup_mounts \<Rightarrow> int" where
  "cgroupV2CFSCPUs m = mount_limit (v2_root m) (SelfPath (proc_cgroup m) ''0::'') ''cpu.max'' parseCPUMax"

definition cgroupV1CFSCPUs :: "cgroup_mounts \<Rightarrow> int" where
  "cgroupV1CFSCPUs m =
     (let cgPath = SelfPath (proc_cgroup m) ''cpu'';
          from = (\<lambda>r. case r of None \<Rightarrow> 0 | Some fs \<Rightarrow> v1CFSFromRoot fs (if cgPath = [] then ''/'' else cgPath))
      in if 0 < from (v1_cpu m) then from (v1_cpu m)
         else if 0 < from (v1_cpuacct m) then from (v1_cpuacct m)
         else 0)"

definition cgroupCFSCPUs :: "cgroup_mounts \<Rightarrow> int" where
  "cgroupCFSCPUs m = (if 0 < cgroupV2CFSCPUs m then cgroupV2CFSCPUs m else cgroupV1CFSCPUs m)"

definition cgroupCpusetCPUs :: "int \<Rightarrow> cgroup_mounts \<Rightarrow> int" where
  "cgroupCpusetCPUs numCPU m =
     (let v2 = mount_limit (v2_root m) (SelfPath (proc_cgroup m) ''0::'') ''cpuset.cpus.effective'' (parseCPUList numCPU)
      in if 0 < v2 then v2
         else mount_limit (v1_cpuset m) (SelfPath (proc_cgroup m) ''cpuset'') ''cpuset.cpus'' (parseCPUList numCPU))"

definition cpu_available :: "int \<Rightarrow> cgroup_mounts \<Rightarrow> int" where
  "cpu_available numCPU m =
     (let best0 = numCPU;
          best1 = (if 0 < cgroupCFSCPUs m \<and> cgroupCFSCPUs m < best0 then cgroupCFSCPUs m else best0);
          best2 = (if 0 < cgroupCpusetCPUs numCPU m \<and> cgroupCpusetCPUs numCPU m < best1 then cgroupCpusetCPUs numCPU m else best1)
      in if best2 < 1 then 1 else best2)"

section \<open>Expressions\<close>

definition re_space :: "char \<Rightarrow> bool" where
  "re_space c = (c = CHR '' '' \<or> c = tab \<or> c = newline \<or> c = CHR 0x0C \<or> c = carriage_return)"

definition skip_ws :: "string \<Rightarrow> string" where
  "skip_ws s = dropWhile re_space s"

text \<open>Digits, with a fraction when a dot and another digit follow.\<close>

definition re_number :: "string \<Rightarrow> (string \<times> string) option" where
  "re_number s =
     (let w = takeWhile is_digit s; r = dropWhile is_digit s
      in if w = [] then None
         else if r \<noteq> [] \<and> hd r = CHR ''.'' \<and> takeWhile is_digit (tl r) \<noteq> []
         then Some (w @ ''.'' @ takeWhile is_digit (tl r), dropWhile is_digit (tl r))
         else Some (w, r))"

definition re_char :: "char \<Rightarrow> string \<Rightarrow> string option" where
  "re_char c s = (if s \<noteq> [] \<and> hd s = c then Some (tl s) else None)"

definition ParseFloat :: "string \<Rightarrow> rat option" where
  "ParseFloat s =
     (case parse_decimal s of None \<Rightarrow> None | Some x \<Rightarrow> (case round64 x of Finite v \<Rightarrow> Some v | _ \<Rightarrow> None))"

text \<open>A percentage, and the number after a minus sign.\<close>

definition cpu_expr :: "string \<Rightarrow> (string \<times> string option) option" where
  "cpu_expr s =
     Option.bind (re_number (skip_ws s)) (\<lambda>(pct, r).
     Option.bind (re_char (CHR ''%'') (skip_ws r)) (\<lambda>r.
       let r = skip_ws r
       in if r = [] then Some (pct, None)
          else Option.bind (re_char (CHR ''-'') r) (\<lambda>r.
            let d = takeWhile is_digit (skip_ws r); r = skip_ws (dropWhile is_digit (skip_ws r))
            in if d = [] \<or> r \<noteq> [] then None else Some (pct, Some d))))"

datatype expr_error = Invalid_expr | Percentage_range | Overflow | Not_positive_result int

definition cpu_trimSpace :: "string \<Rightarrow> string" where
  "cpu_trimSpace s = trim_right {CHR '' ''} (trim_left {CHR '' ''} s)"

definition percentage_of :: "int \<Rightarrow> rat \<Rightarrow> float64" where
  "percentage_of n pct = fdiv (fmul (round64 (of_int n)) (Finite pct)) (Finite 100)"

text \<open>The last branch is never taken: the product of an int and at most 100 is finite.\<close>

definition cpu_Eval :: "string \<Rightarrow> int \<Rightarrow> expr_error + int" where
  "cpu_Eval expr0 totalCPUs =
     (let expr = cpu_trimSpace expr0
      in if expr = [] then Inr (if totalCPUs < 1 then 1 else totalCPUs)
         else case cpu_expr expr of
           None \<Rightarrow> Inl Invalid_expr
         | Some (p, sub) \<Rightarrow>
             (case ParseFloat p of
                None \<Rightarrow> Inl Invalid_expr
              | Some pct \<Rightarrow>
                  if pct \<le> 0 \<or> 100 < pct then Inl Percentage_range
                  else (case percentage_of totalCPUs pct of
                          Finite v \<Rightarrow>
                            (case sub of
                               None \<Rightarrow> Inr (max 1 \<lceil>v\<rceil>)
                             | Some d \<Rightarrow>
                                 (case parse_int d of
                                    None \<Rightarrow> Inl Invalid_expr
                                  | Some n \<Rightarrow> Inr (max 1 (wrap64 (\<lceil>v\<rceil> - n)))))
                        | _ \<Rightarrow> Inl Overflow)))"

definition re_unit :: "string \<Rightarrow> (string \<times> string) option" where
  "re_unit s = first_some (\<lambda>u. if has_prefix s u then Some (u, drop (length u) s) else None) [''MB'', ''MiB'', ''GB'', ''GiB'']"

datatype mem_expr = Absolute string string | Percent string "(string \<times> string) option"

definition memory_expr :: "string \<Rightarrow> mem_expr option" where
  "memory_expr s =
     Option.bind (re_number (skip_ws s)) (\<lambda>(n, r).
       let r = skip_ws r
       in case re_char (CHR ''%'') r of
            Some r' \<Rightarrow>
              (let r' = skip_ws r'
               in if r' = [] then Some (Percent n None)
                  else Option.bind (re_char (CHR ''-'') r') (\<lambda>q.
                    Option.bind (re_number (skip_ws q)) (\<lambda>(k, q).
                    Option.bind (re_unit (skip_ws q)) (\<lambda>(u, q).
                      if skip_ws q = [] then Some (Percent n (Some (k, u))) else None))))
          | None \<Rightarrow> Option.bind (re_unit r) (\<lambda>(u, q). if skip_ws q = [] then Some (Absolute n u) else None))"

text \<open>
  \<open>int64(x)\<close> of a value that may be out of range, where the result depends on the machine: it is the
  argument \<open>oor\<close>.
\<close>

definition to_int64 :: "int \<Rightarrow> rat \<Rightarrow> int" where
  "to_int64 oor x = (if - (2 ^ 63) \<le> Go_Float.truncate x \<and> Go_Float.truncate x < 2 ^ 63 then Go_Float.truncate x else oor)"

definition round_float :: "float64 \<Rightarrow> float64" where
  "round_float x = (case x of Finite v \<Rightarrow> Finite (of_int (round_away v)) | _ \<Rightarrow> x)"

definition toMiB :: "int \<Rightarrow> rat \<Rightarrow> string \<Rightarrow> expr_error + int" where
  "toMiB oor val u =
     (let mib = round_float
            (if u = ''MB'' then fdiv (fmul (Finite val) (Finite 1000000)) (Finite 1048576)
             else if u = ''GB'' then fdiv (fmul (Finite val) (Finite 1000000000)) (Finite 1048576)
             else if u = ''GiB'' then fmul (Finite val) (Finite 1024)
             else Finite val)
      in case mib of
           Finite v \<Rightarrow> if 2 ^ 63 < v then Inl Overflow else Inr (to_int64 oor v)
         | _ \<Rightarrow> Inl Overflow)"

definition memory_Eval :: "int \<Rightarrow> string \<Rightarrow> int \<Rightarrow> expr_error + int" where
  "memory_Eval oor expr totalMiB =
     (case memory_expr expr of
        None \<Rightarrow> Inl Invalid_expr
      | Some (Absolute n u) \<Rightarrow>
          (case ParseFloat n of
             None \<Rightarrow> Inl Invalid_expr
           | Some val \<Rightarrow> result_bind (toMiB oor val u) (\<lambda>mib. if mib \<le> 0 then Inl (Not_positive_result mib) else Inr mib))
      | Some (Percent p sub) \<Rightarrow>
          (case ParseFloat p of
             None \<Rightarrow> Inl Invalid_expr
           | Some pct \<Rightarrow>
               if pct \<le> 0 \<or> 100 < pct then Inl Percentage_range
               else (case percentage_of totalMiB pct of
                       Finite v \<Rightarrow>
                         if 2 ^ 63 < v then Inl Overflow
                         else result_bind
                           (case sub of
                              None \<Rightarrow> Inr (to_int64 oor v)
                            | Some (k, u) \<Rightarrow>
                                (case ParseFloat k of
                                   None \<Rightarrow> Inl Invalid_expr
                                 | Some val \<Rightarrow> result_bind (toMiB oor val u) (\<lambda>s. Inr (wrap64 (to_int64 oor v - s)))))
                           (\<lambda>r. if r \<le> 0 then Inl (Not_positive_result r) else Inr r)
                     | _ \<Rightarrow> Inl Overflow)))"

section \<open>Limits stay within the machine\<close>

lemma WalkUpLimit_nonneg: "0 \<le> WalkUpLimit fs rel filename parse"
proof (induction fs rel filename parse rule: WalkUpLimit.induct)
  case (1 fs rel filename parse)
  then show ?case by (subst WalkUpLimit.simps) (auto simp: Let_def)
qed

text \<open>The result is the limit of the group or of the nearest group above that has one.\<close>

inductive nearest_limit :: "cgroup_root \<Rightarrow> string \<Rightarrow> (string \<Rightarrow> int) \<Rightarrow> string \<Rightarrow> int \<Rightarrow> bool" for fs filename parse where
  here: "0 < level_limit fs filename parse rel \<Longrightarrow> nearest_limit fs filename parse rel (level_limit fs filename parse rel)"
| above: "level_limit fs filename parse rel \<le> 0 \<Longrightarrow> \<not> top_level rel \<Longrightarrow>
    nearest_limit fs filename parse (filepath_Dir rel) v \<Longrightarrow> nearest_limit fs filename parse rel v"
| none: "level_limit fs filename parse rel \<le> 0 \<Longrightarrow> top_level rel \<Longrightarrow> nearest_limit fs filename parse rel 0"

lemma WalkUpLimit_nearest: "nearest_limit fs filename parse rel (WalkUpLimit fs rel filename parse)"
proof (induction fs rel filename parse rule: WalkUpLimit.induct)
  case (1 fs rel filename parse)
  then show ?case
    by (subst WalkUpLimit.simps) (auto simp: Let_def not_less intro: nearest_limit.intros)
qed

lemma cpu_parts_le: "count < m \<Longrightarrow> cpu_parts m count ps \<le> m"
  by (induction m count ps rule: cpu_parts.induct) (auto simp: Let_def not_le split: option.splits prod.splits)

lemma parseCPUList_le: "0 < numCPU \<Longrightarrow> parseCPUList numCPU content \<le> numCPU * 64"
  by (simp add: parseCPUList_def Let_def cpu_parts_le)


definition bare_machine :: cgroup_mounts where
  "bare_machine = \<lparr>proc_cgroup = None, v2_root = None, v1_memory = None, v1_cpu = None, v1_cpuacct = None, v1_cpuset = None\<rparr>"


text \<open>
  The quota and the period of version 1 are looked up apart from each other, so that they may come
  from different groups: here the group has no quota and the default period, the group above a quota
  of four CPUs, and two are reported.
\<close>

definition mixed_levels :: cgroup_root where
  "mixed_levels = map_of [(''c/cpu.cfs_quota_us'', ''-1''), (''c/cpu.cfs_period_us'', ''100000''),
     (''cpu.cfs_quota_us'', ''200000''), (''cpu.cfs_period_us'', ''50000'')]"

lemma v1CFS_mixes_levels: "v1CFSFromRoot mixed_levels ''/c'' = 2" "v1CFSFromRoot mixed_levels ''/'' = 4"
proof -
  have t: "map_option (take maxCgroupFileSize) (mixed_levels n) = mixed_levels n" for n
    by (simp add: mixed_levels_def maxCgroupFileSize_def)
  have l: "level_limit mixed_levels ''cpu.cfs_quota_us'' parseV1Int ''/c'' = 0"
      "level_limit mixed_levels ''cpu.cfs_quota_us'' parseV1Int ''/'' = 200000"
      "level_limit mixed_levels ''cpu.cfs_period_us'' parseV1Int ''/c'' = 100000"
      "level_limit mixed_levels ''cpu.cfs_period_us'' parseV1Int ''/'' = 50000"
    unfolding level_limit_def ReadRootFile_def Let_def t by code_simp+
  have d: "filepath_Dir ''/c'' = ''/''" by code_simp
  have top: "top_level ''/''" "\<not> top_level ''/c''" by (simp_all add: top_level_def)
  have w: "WalkUpLimit mixed_levels ''/'' ''cpu.cfs_quota_us'' parseV1Int = 200000"
      "WalkUpLimit mixed_levels ''/c'' ''cpu.cfs_quota_us'' parseV1Int = 200000"
      "WalkUpLimit mixed_levels ''/'' ''cpu.cfs_period_us'' parseV1Int = 50000"
      "WalkUpLimit mixed_levels ''/c'' ''cpu.cfs_period_us'' parseV1Int = 100000"
    by (simp_all add: WalkUpLimit.simps l d top)
  show "v1CFSFromRoot mixed_levels ''/c'' = 2" "v1CFSFromRoot mixed_levels ''/'' = 4"
    unfolding v1CFSFromRoot_def Let_def w by code_simp+
qed

text \<open>Expressions.\<close>

lemma percentage_bounds:
  assumes "0 < t" "t \<le> 2 ^ 46" "0 < pct" "pct \<le> 100"
  shows "\<exists>v. percentage_of t pct = Finite v \<and> 0 \<le> v \<and> v \<le> of_int t"
proof -
  define n where "n = nat t"
  have n: "t = int n" "n \<le> 2 ^ 46" "0 < n" using assms(1,2) by (auto simp: n_def nat_le_iff)
  have f: "round64 (of_int t) = Finite (of_nat n)" using round64_of_nat [of n] n by simp
  have "of_nat n * pct \<le> of_nat n * 100" using assms(4) by (intro mult_left_mono) simp_all
  then have "of_nat n * pct \<le> of_nat (n * 100)" by simp
  moreover have "0 \<le> of_nat n * pct" using assms(3) by simp
  moreover have "n * 100 \<le> 2 ^ 53" using n(2) by simp
  ultimately obtain y where y: "round64 (of_nat n * pct) = Finite y" "0 \<le> y" "y \<le> of_nat (n * 100)"
    using round64_le by blast
  have "y / 100 \<le> of_nat n" using y(3) by (simp add: divide_le_eq)
  moreover have "0 \<le> y / 100" "n \<le> 2 ^ 53" using y(2) n(2) by simp_all
  ultimately obtain v where "round64 (y / 100) = Finite v" "0 \<le> v" "v \<le> of_nat n"
    using round64_le by blast
  then show ?thesis using f y(1) n(1) by (simp add: percentage_of_def)
qed

lemma digits_parse_nonneg: "list_all is_digit d \<Longrightarrow> parse_int d = Some n \<Longrightarrow> 0 \<le> n"
proof -
  assume d: "list_all is_digit d" "parse_int d = Some n"
  then have "hd d \<noteq> CHR ''-''" "hd d \<noteq> CHR ''+''" if "d \<noteq> []"
    using that by (cases d; auto simp: is_digit_def less_eq_char_def)+
  then show "0 \<le> n" using d digits_val_ge [of d] by (auto simp: parse_int_def Let_def split: if_splits)
qed

lemma round64_nonneg: "0 \<le> x \<Longrightarrow> round64 x = Finite y \<Longrightarrow> 0 \<le> y"
proof -
  assume x: "0 \<le> x" "round64 x = Finite y"
  define e where "e = max (binade x - 52) (- 1074)"
  have "0 \<le> x / pow2 e" using x(1) pow2_pos [of e] by (intro divide_nonneg_pos) simp_all
  then have "0 \<le> (of_int (round_even (x / pow2 e)) :: rat) * pow2 e"
    using round_even_nonneg [of "x / pow2 e"] pow2_pos [of e] by (simp add: less_imp_le)
  then show "0 \<le> y" using x by (auto simp: round64_def Let_def sgn_if e_def [symmetric] split: if_splits)
qed

lemma ParseFloat_nonneg: "ParseFloat p = Some v \<Longrightarrow> 0 \<le> v"
proof -
  assume p: "ParseFloat p = Some v"
  have d: "list_all is_digit (takeWhile is_digit p @ filter is_digit (dropWhile is_digit p))"
    by (auto simp: list_all_iff dest: set_takeWhileD)
  then have "0 \<le> x" if "parse_decimal p = Some x" for x
    using that digits_val_ge [OF d] by (auto simp: parse_decimal_def Let_def split: if_splits)
  then show "0 \<le> v" using p round64_nonneg by (auto simp: ParseFloat_def split: option.splits float64.splits)
qed

lemma fmul_nonneg: "0 \<le> x \<Longrightarrow> 0 \<le> y \<Longrightarrow> fmul (Finite x) (Finite y) = Finite z \<Longrightarrow> 0 \<le> z"
  using round64_nonneg [of "x * y" z] by simp

lemma fdiv_nonneg: "0 \<le> x \<Longrightarrow> 0 \<le> k \<Longrightarrow> 0 < y \<Longrightarrow> fdiv (fmul (Finite x) (Finite k)) (Finite y) = Finite z \<Longrightarrow> 0 \<le> z"
proof (cases "fmul (Finite x) (Finite k)")
  case (Finite a)
  assume h: "0 \<le> x" "0 \<le> k" "0 < y" "fdiv (fmul (Finite x) (Finite k)) (Finite y) = Finite z"
  have "0 \<le> a" using fmul_nonneg [OF h(1,2) Finite] .
  then show "0 \<le> z" using round64_nonneg [of "a / y" z] h(3,4) unfolding Finite by simp
qed simp_all

lemma round_away_nonneg: "0 \<le> x \<Longrightarrow> 0 \<le> round_away x"
  by (simp add: round_away_def)

text \<open>On the machines of the program an out-of-range conversion gives the least integer, or a saturated one.\<close>

definition conversion_ok :: "int \<Rightarrow> bool" where
  "conversion_ok oor = (oor = - (2 ^ 63) \<or> 0 \<le> oor \<and> oor < 2 ^ 63)"

lemma to_int64_cases: "0 \<le> x \<Longrightarrow> to_int64 oor x = oor \<or> 0 \<le> to_int64 oor x \<and> to_int64 oor x < 2 ^ 63"
  by (auto simp: to_int64_def Go_Float.truncate_def)

lemma toMiB_cases:
  assumes "0 \<le> val" "toMiB oor val u = Inr s"
  shows "s = oor \<or> 0 \<le> s \<and> s < 2 ^ 63"
proof -
  define f where "f = (if u = ''MB'' then fdiv (fmul (Finite val) (Finite 1000000)) (Finite 1048576)
             else if u = ''GB'' then fdiv (fmul (Finite val) (Finite 1000000000)) (Finite 1048576)
             else if u = ''GiB'' then fmul (Finite val) (Finite 1024)
             else Finite val)"
  have nn: "0 \<le> w" if f: "f = Finite w" for w
  proof -
    have "fdiv (fmul (Finite val) (Finite 1000000)) (Finite 1048576) = Finite w \<or>
        fdiv (fmul (Finite val) (Finite 1000000000)) (Finite 1048576) = Finite w \<or>
        fmul (Finite val) (Finite 1024) = Finite w \<or> val = w"
      using f unfolding f_def by (simp only: float64.inject simp_thms split: if_splits)
    then show ?thesis
      using fdiv_nonneg [OF assms(1), of 1000000 1048576 w] fdiv_nonneg [OF assms(1), of 1000000000 1048576 w]
        fmul_nonneg [OF assms(1), of 1024 w] assms(1)
      by (elim disjE) (simp_all del: fmul.simps fdiv.simps)
  qed
  obtain w where w: "f = Finite w" "s = to_int64 oor (of_int (round_away w))"
    using assms(2) unfolding toMiB_def f_def [symmetric] Let_def
    by (cases f) (simp_all add: round_float_def split: if_splits)
  then show ?thesis using to_int64_cases [of "of_int (round_away w)" oor] round_away_nonneg [OF nn [OF w(1)]] by simp
qed

lemma to_int64_floor: "0 \<le> v \<Longrightarrow> v \<le> of_int t \<Longrightarrow> t < 2 ^ 63 \<Longrightarrow> to_int64 oor v = \<lfloor>v\<rfloor> \<and> 0 \<le> \<lfloor>v\<rfloor> \<and> \<lfloor>v\<rfloor> \<le> t"
proof -
  assume v: "0 \<le> v" "v \<le> of_int t" "t < 2 ^ 63"
  have "\<lfloor>v\<rfloor> \<le> t" "0 \<le> \<lfloor>v\<rfloor>" using v(1,2) by linarith+
  then show ?thesis using v by (simp add: to_int64_def Go_Float.truncate_def)
qed

lemma wrap64_sub:
  assumes "0 \<le> a" "a < 2 ^ 63" "conversion_ok oor" "s = oor \<or> 0 \<le> s \<and> s < 2 ^ 63" "0 < wrap64 (a - s)"
  shows "wrap64 (a - s) \<le> a"
proof (cases "0 \<le> s")
  case True
  have "wrap64 (a - s) = a - s" using True assms(1-4) by (intro wrap64_id) (auto simp: conversion_ok_def)
  then show ?thesis using True by simp
next
  case False
  then have "s = - (2 ^ 63)" using assms(3,4) by (auto simp: conversion_ok_def)
  then have "wrap64 (a - s) = a - 2 ^ 63" using assms(1,2) by (simp add: wrap64_def)
  then show ?thesis by simp
qed

lemma cpu_Eval_bounds:
  assumes "0 < t" "t \<le> 2 ^ 46" "cpu_Eval e t = Inr n"
  shows "1 \<le> n \<and> n \<le> t"
proof (cases "cpu_trimSpace e = []")
  case True
  then show ?thesis using assms by (auto simp: cpu_Eval_def Let_def)
next
  case False
  obtain p sub pct where p: "cpu_expr (cpu_trimSpace e) = Some (p, sub)" "ParseFloat p = Some pct" "0 < pct" "pct \<le> 100"
    using assms(3) False by (auto simp: cpu_Eval_def Let_def split: option.splits if_splits)
  obtain v where v: "percentage_of t pct = Finite v" "0 \<le> v" "v \<le> of_int t"
    using percentage_bounds [OF assms(1,2) p(3,4)] by blast
  have c: "0 \<le> \<lceil>v\<rceil>" "\<lceil>v\<rceil> \<le> t" using v(2,3) by linarith+
  show ?thesis
  proof (cases sub)
    case None
    then show ?thesis using assms c False p v(1) by (auto simp: cpu_Eval_def Let_def)
  next
    case (Some d)
    have "list_all is_digit d"
      using p(1) Some unfolding cpu_expr_def Let_def
      by (auto simp: bind_eq_Some_conv list_all_iff dest: set_takeWhileD split: if_splits)
    then obtain k where k: "parse_int d = Some k" "0 \<le> k" "n = max 1 (wrap64 (\<lceil>v\<rceil> - k))"
      using assms(3) False p v(1) Some digits_parse_nonneg by (auto simp: cpu_Eval_def Let_def split: option.splits)
    have "t < 2 ^ 63" using assms(2) by simp
    then have "wrap64 (\<lceil>v\<rceil> - k) = \<lceil>v\<rceil> - k" using c k(2) parse_int_range [OF k(1)] by (intro wrap64_id) linarith+
    then show ?thesis using k c assms(1) by simp
  qed
qed

lemma memory_Eval_percent:
  assumes "0 < t" "t \<le> 2 ^ 46" "conversion_ok oor" "memory_expr e = Some (Percent p sub)" "memory_Eval oor e t = Inr m"
  shows "0 < m \<and> m \<le> t"
proof -
  obtain pct where p: "ParseFloat p = Some pct" "0 < pct" "pct \<le> 100"
    using assms(4,5) by (auto simp: memory_Eval_def split: option.splits if_splits)
  obtain v where v: "percentage_of t pct = Finite v" "0 \<le> v" "v \<le> of_int t"
    using percentage_bounds [OF assms(1,2) p(2,3)] by blast
  have f: "to_int64 oor v = \<lfloor>v\<rfloor>" "0 \<le> \<lfloor>v\<rfloor>" "\<lfloor>v\<rfloor> \<le> t" using to_int64_floor [OF v(2,3)] assms(2) by auto
  show ?thesis
  proof (cases sub)
    case None
    then have "m = to_int64 oor v \<and> 0 < m"
      using assms(4,5) p v(1) by (simp add: memory_Eval_def result_bind_eq_Inr not_le split: if_splits)
    then show ?thesis using f by linarith
  next
    case (Some ku)
    obtain k u where ku: "ku = (k, u)" by fastforce
    obtain val s where s: "ParseFloat k = Some val" "toMiB oor val u = Inr s" "m = wrap64 (\<lfloor>v\<rfloor> - s)" "0 < m"
      using assms(4,5) p v(1) f(1) Some ku
      by (auto simp: memory_Eval_def result_bind_eq_Inr split: if_splits option.splits)
    have d: "s = oor \<or> 0 \<le> s \<and> s < 2 ^ 63" using toMiB_cases [OF ParseFloat_nonneg [OF s(1)] s(2)] .
    have "t < 2 ^ 63" using assms(2) by simp
    then have "\<lfloor>v\<rfloor> < 2 ^ 63" using f(3) by linarith
    then have "wrap64 (\<lfloor>v\<rfloor> - s) \<le> \<lfloor>v\<rfloor>" using wrap64_sub [OF f(2) _ assms(3) d] s(3,4) by simp
    then show ?thesis using s(3,4) f(3) by simp
  qed
qed

text \<open>
  C37. An expression never asks for more than there is: a CPU expression gives at least 1 and at most
  the number of CPUs, a memory percentage, with or without a subtraction, a positive number of at most
  the whole memory, although both are computed in floating point and with wrapping integers.
\<close>

theorem expr_bounds:
  assumes "0 < t" "t \<le> 2 ^ 46" "conversion_ok oor"
  shows "(cpu_Eval e t = Inr n \<longrightarrow> 1 \<le> n \<and> n \<le> t) \<and>
    (memory_expr e = Some (Percent p sub) \<and> memory_Eval oor e t = Inr m \<longrightarrow> 0 < m \<and> m \<le> t)"
  using cpu_Eval_bounds [OF assms(1,2)] memory_Eval_percent [OF assms] by blast

theorem expr_bounds_witness:
  "cpu_Eval ''50%'' 4 = Inr 2 \<and> (2 :: int) \<le> 4"
proof -
  have r: "round64 (of_nat n) = Finite (of_nat n)" if "n \<le> 200" for n
    using that by (intro round64_of_nat) (simp add: order_trans [OF that])
  have "round64 50 = Finite 50" "round64 4 = Finite 4" "round64 200 = Finite 200" "round64 2 = Finite 2"
    using r [of 50] r [of 4] r [of 200] r [of 2] by simp_all
  moreover have "parse_decimal ''50'' = Some 50" "cpu_trimSpace ''50%'' = ''50%''" "cpu_expr ''50%'' = Some (''50'', None)"
    by code_simp+
  ultimately have "cpu_Eval ''50%'' 4 = Inr 2"
    by (simp add: cpu_Eval_def ParseFloat_def percentage_of_def)
  then show ?thesis
    using expr_bounds [of 4 0 "''50%''" 2 "[]" None 0] by (simp add: conversion_ok_def)
qed

end
