(* ===== verification/Template.thy ===== *)
theory Template
  imports Resource_Limits Log_Target "HOL-Library.Multiset"
begin

text \<open>
  The placeholders in arguments and environment values: \<open>service/env.go\<close>,
  \<open>service/file_template.go\<close> and \<open>expandTemplates\<close> of \<open>service/service.go\<close>. A regular expression is
  a function from the rest of a text to what it captures there and the number of bytes it takes;
  \<open>FindAllStringSubmatchIndex\<close> tries it at every position from the left. The file system is the
  argument \<open>fs\<close>; the log lines about missing variables are the list of their names.

  The lemmas show that a text made of literals and placeholders expands to the literals and the
  values in their order, that a value is never scanned again, and what a file must be to be read.
\<close>

section \<open>Placeholders\<close>

definition word_char :: "char \<Rightarrow> bool" where
  "word_char c = (is_digit c \<or> is_lower c \<or> is_upper c \<or> c = CHR ''_'')"

definition after :: "string \<Rightarrow> string \<Rightarrow> string option" where
  "after p s = (if has_prefix s p then Some (drop (length p) s) else None)"

text \<open>The end of a placeholder: an optional default, which runs up to the first closing brace.\<close>

definition close_default :: "string \<Rightarrow> (string option \<times> string) option" where
  "close_default s =
     (case after '':-'' s of
        Some d \<Rightarrow> map_option (\<lambda>r. (Some (takeWhile (\<lambda>c. c \<noteq> CHR ''}'') d), r)) (after ''}}'' (dropWhile (\<lambda>c. c \<noteq> CHR ''}'') d))
      | None \<Rightarrow> map_option (\<lambda>r. (None, r)) (after ''}}'' (skip_ws s)))"

datatype ref = Var string "string option" | File string bool bool "string option"

definition templateRe :: "string \<Rightarrow> (ref \<times> nat) option" where
  "templateRe s =
     Option.bind (after ''{{'' s) (\<lambda>r.
     Option.bind (after ''.'' (skip_ws r)) (\<lambda>r.
       if takeWhile word_char r = [] then None
       else map_option (\<lambda>(d, q). (Var (takeWhile word_char r) d, length s - length q))
              (close_default (skip_ws (dropWhile word_char r)))))"

fun file_mods :: "nat \<Rightarrow> bool \<Rightarrow> bool \<Rightarrow> string \<Rightarrow> bool \<times> bool \<times> string" where
  "file_mods 0 t f s = (t, f, s)"
| "file_mods (Suc n) t f s =
     (if s = [] \<or> \<not> re_space (hd s) then (t, f, s)
      else case after ''trim'' (skip_ws s) of
        Some r \<Rightarrow> file_mods n True f r
      | None \<Rightarrow> (case after ''follow'' (skip_ws s) of Some r \<Rightarrow> file_mods n t True r | None \<Rightarrow> (t, f, s)))"

definition fileRe :: "string \<Rightarrow> (ref \<times> nat) option" where
  "fileRe s =
     Option.bind (after ''{{'' s) (\<lambda>r.
     Option.bind (after ''file'' (skip_ws r)) (\<lambda>r.
       if r = [] \<or> \<not> re_space (hd r) then None
       else Option.bind (after [CHR 0x22] (skip_ws r)) (\<lambda>r.
         let fpath = takeWhile (\<lambda>c. c \<noteq> CHR 0x22) r
         in if fpath = [] then None
            else Option.bind (after [CHR 0x22] (dropWhile (\<lambda>c. c \<noteq> CHR 0x22) r)) (\<lambda>r.
              case file_mods (length r) False False r of
                (t, f, q) \<Rightarrow> map_option (\<lambda>(d, q). (File fpath t f d, length s - length q)) (close_default q)))))"

text \<open>The shortest expression, without a line break, that closing braces follow.\<close>

fun lazy_expr :: "string \<Rightarrow> string \<Rightarrow> (string \<times> string) option" where
  "lazy_expr acc [] = None"
| "lazy_expr acc (c # s) =
     (if c = newline then None
      else case after ''}}'' (skip_ws s) of
        Some r \<Rightarrow> Some (acc @ [c], r)
      | None \<Rightarrow> lazy_expr (acc @ [c]) s)"

text \<open>White space, as much as possible but at least one, then the expression.\<close>

definition spaced_expr :: "string \<Rightarrow> (string \<times> string) option" where
  "spaced_expr r =
     first_some (\<lambda>k. lazy_expr [] (drop k r)) (rev [1..<Suc (length (takeWhile re_space r))])"

definition memRe :: "string \<Rightarrow> (string \<times> nat) option" where
  "memRe s =
     Option.bind (after ''{{'' s) (\<lambda>r.
     Option.bind (after ''mem'' (skip_ws r)) (\<lambda>r.
       map_option (\<lambda>(e, q). (e, length s - length q)) (spaced_expr r)))"

definition cpuRe :: "string \<Rightarrow> (string \<times> nat) option" where
  "cpuRe s =
     Option.bind (after ''{{'' s) (\<lambda>r.
     Option.bind (after ''cpu'' (skip_ws r)) (\<lambda>r.
       case spaced_expr r of
         Some (e, q) \<Rightarrow> Some (e, length s - length q)
       | None \<Rightarrow> map_option (\<lambda>q. ([], length s - length q)) (after ''}}'' (skip_ws r))))"

text \<open>All matches, each with its start and its end; the first argument counts the bytes still inside one.\<close>

fun find_all :: "(string \<Rightarrow> ('a \<times> nat) option) \<Rightarrow> nat \<Rightarrow> nat \<Rightarrow> string \<Rightarrow> (nat \<times> nat \<times> 'a) list" where
  "find_all re inside pos [] = []"
| "find_all re inside pos (c # s) =
     (if 0 < inside then find_all re (inside - 1) (pos + 1) s
      else case re (c # s) of
        None \<Rightarrow> find_all re 0 (pos + 1) s
      | Some (m, n) \<Rightarrow> (pos, pos + n, m) # find_all re (n - 1) (pos + 1) s)"

section \<open>Files\<close>

definition maxFileSize :: nat where "maxFileSize = 2 ^ 20"

datatype errno = ENOENT | ELOOP | Errno_other

text \<open>An open file: whether \<open>Stat\<close> works, whether it is a regular file, and what reading it gives.\<close>

datatype handle = Handle (h_stat: bool) (h_regular: bool) (h_data: "string option")

text \<open>
  The file system: \<open>os.Lstat\<close>, \<open>syscall.Open\<close> with \<open>O_NOFOLLOW\<close>, and opening a name below the
  \<open>os.Root\<close> of a directory.
\<close>

record fsys =
  fs_lstat :: "string \<Rightarrow> lstat_result"
  fs_open :: "string \<Rightarrow> errno + handle"
  fs_open_root :: "string \<Rightarrow> string \<Rightarrow> errno + handle"

text \<open>The errors differ in what wraps the number: nothing, an \<open>os.PathError\<close>, or \<open>fmt.Errorf\<close>.\<close>

datatype open_error = Raw errno | In_PathError errno | Bad_ancestor path_error

fun os_IsNotExist :: "open_error \<Rightarrow> bool" where
  "os_IsNotExist (Raw e) = (e = ENOENT)"
| "os_IsNotExist (In_PathError e) = (e = ENOENT)"
| "os_IsNotExist (Bad_ancestor e) = False"

definition openConfined :: "fsys \<Rightarrow> string \<Rightarrow> bool \<Rightarrow> open_error + handle" where
  "openConfined fs clean follow =
     (if follow then map_sum In_PathError (\<lambda>h. h) (fs_open_root fs (filepath_Dir clean) (filepath_Base clean))
      else case checkAncestorsNotSymlinked (fs_lstat fs) clean of
        Some e \<Rightarrow> Inl (Bad_ancestor e)
      | None \<Rightarrow> map_sum Raw (\<lambda>h. h) (fs_open fs clean))"

datatype template_error =
    Path_relative string | Symlink_refused string | Not_opened string open_error | Not_stated string
  | Not_regular_file string | Not_read string | Over_size string | Has_nul string | Bad_expr expr_error

text \<open>The error of \<open>openFileTemplate\<close> is \<open>None\<close> for the hint it makes of a symlinked leaf.\<close>

definition openFileTemplate :: "fsys \<Rightarrow> string \<Rightarrow> bool \<Rightarrow> open_error option + handle" where
  "openFileTemplate fs clean follow =
     (case openConfined fs clean follow of
        Inr h \<Rightarrow> Inr h
      | Inl e \<Rightarrow> Inl (if e = Raw ELOOP then None else Some e))"

definition readFileTemplate :: "fsys \<Rightarrow> string \<Rightarrow> bool \<Rightarrow> bool \<Rightarrow> string option \<Rightarrow> template_error + string" where
  "readFileTemplate fs fpath doTrim follow dflt =
     (if \<not> IsAbs fpath then Inl (Path_relative fpath)
      else case openFileTemplate fs (filepath_Clean fpath) follow of
        Inl None \<Rightarrow> Inl (Symlink_refused fpath)
      | Inl (Some e) \<Rightarrow>
          (case dflt of
             Some d \<Rightarrow> if os_IsNotExist e then Inr d else Inl (Not_opened fpath e)
           | None \<Rightarrow> Inl (Not_opened fpath e))
      | Inr h \<Rightarrow>
          if \<not> h_stat h then Inl (Not_stated fpath)
          else if \<not> h_regular h then Inl (Not_regular_file fpath)
          else case h_data h of
            None \<Rightarrow> Inl (Not_read fpath)
          | Some s \<Rightarrow>
              if maxFileSize < length s then Inl (Over_size fpath)
              else if CHR 0x00 \<in> set s then Inl (Has_nul fpath)
              else Inr (if doTrim then trim_right {CHR '' '', tab, carriage_return, newline} s else s))"

section \<open>Expansion\<close>

type_synonym env_map = "string \<rightharpoonup> string"

text \<open>The value of a placeholder, and the names reported as missing.\<close>

definition var_value :: "env_map \<Rightarrow> string \<Rightarrow> string option \<Rightarrow> string \<times> string list" where
  "var_value env name dflt =
     (let v = (case env name of None \<Rightarrow> [] | Some v \<Rightarrow> v)
      in case dflt of
           Some d \<Rightarrow> (if env name = None \<or> v = [] then d else v, [])
         | None \<Rightarrow> (v, if env name = None then [name] else []))"

definition ref_value :: "fsys \<Rightarrow> env_map \<Rightarrow> ref \<Rightarrow> template_error + string \<times> string list" where
  "ref_value fs env r =
     (case r of
        Var name dflt \<Rightarrow> Inr (var_value env name dflt)
      | File fpath t f dflt \<Rightarrow> result_bind (readFileTemplate fs fpath t f dflt) (\<lambda>v. Inr (v, [])))"

text \<open>The text with each match replaced; a match that starts before \<open>prev\<close> overlaps and is passed over.\<close>

fun splice ::
  "('a \<Rightarrow> 'e + string \<times> string list) \<Rightarrow> string \<Rightarrow> nat \<Rightarrow> (nat \<times> nat \<times> 'a) list \<Rightarrow> 'e + string \<times> string list" where
  "splice val s prev [] = Inr (drop prev s, [])"
| "splice val s prev ((a, b, m) # ms) =
     (if a < prev then splice val s prev ms
      else result_bind (val m) (\<lambda>(v, miss).
        result_bind (splice val s b ms) (\<lambda>(r, miss').
          Inr (take (a - prev) (drop prev s) @ v @ r, miss @ miss'))))"

definition ExpandRefs :: "fsys \<Rightarrow> env_map \<Rightarrow> string \<Rightarrow> template_error + string \<times> string list" where
  "ExpandRefs fs env s =
     (if \<not> contains s ''{{'' then Inr (s, [])
      else splice (ref_value fs env) s 0 (sort_key fst (find_all fileRe 0 0 s @ find_all templateRe 0 0 s)))"

fun splice_vars :: "env_map \<Rightarrow> string \<Rightarrow> nat \<Rightarrow> (nat \<times> nat \<times> ref) list \<Rightarrow> string" where
  "splice_vars env s prev [] = drop prev s"
| "splice_vars env s prev ((a, b, r) # ms) =
     take (a - prev) (drop prev s) @ (case r of Var name dflt \<Rightarrow> fst (var_value env name dflt) | File p t f d \<Rightarrow> []) @ splice_vars env s b ms"

definition ExpandEnvRefs :: "env_map \<Rightarrow> string \<Rightarrow> string" where
  "ExpandEnvRefs env s = (if \<not> contains s ''{{'' then s else splice_vars env s 0 (find_all templateRe 0 0 s))"

definition ExpandFileRefs :: "fsys \<Rightarrow> string \<Rightarrow> template_error + string" where
  "ExpandFileRefs fs s =
     (if \<not> contains s ''{{'' then Inr s
      else map_sum (\<lambda>e. e) fst (splice (ref_value fs (\<lambda>_. None)) s 0 (find_all fileRe 0 0 s)))"

definition mem_value :: "int \<Rightarrow> int \<Rightarrow> string \<Rightarrow> template_error + string \<times> string list" where
  "mem_value oor totalMiB e = map_sum Bad_expr (\<lambda>n. (itoa n, [])) (memory_Eval oor e totalMiB)"

definition cpu_value :: "int \<Rightarrow> string \<Rightarrow> template_error + string \<times> string list" where
  "cpu_value totalCPUs e = map_sum Bad_expr (\<lambda>n. (itoa n, [])) (cpu_Eval e totalCPUs)"

text \<open>What the templates are expanded against; \<open>m_oor\<close> is the machine's out-of-range conversion.\<close>

record machine =
  m_fs :: fsys
  m_oor :: int
  m_MiB :: int
  m_CPUs :: int

definition expand_one :: "machine \<Rightarrow> env_map \<Rightarrow> string \<Rightarrow> template_error + string \<times> string list" where
  "expand_one m env s =
     (if \<not> contains s ''{{'' then Inr (s, [])
      else result_bind (splice (mem_value (m_oor m) (m_MiB m)) s 0 (find_all memRe 0 0 s)) (\<lambda>(s, _).
           result_bind (splice (cpu_value (m_CPUs m)) s 0 (find_all cpuRe 0 0 s)) (\<lambda>(s, _).
           ExpandRefs (m_fs m) env s)))"

text \<open>The expanded strings and the names warned about, each once.\<close>

definition warn_once :: "string list \<Rightarrow> string list \<Rightarrow> string list" where
  "warn_once miss warned = fold (\<lambda>n w. if n \<in> set w then w else w @ [n]) miss warned"

fun expand_all :: "machine \<Rightarrow> env_map \<Rightarrow> string list \<Rightarrow> string list \<Rightarrow> template_error + string list \<times> string list" where
  "expand_all m env warned [] = Inr ([], warned)"
| "expand_all m env warned (s # ss) =
     result_bind (expand_one m env s) (\<lambda>(t, miss).
     result_bind (expand_all m env (warn_once miss warned) ss) (\<lambda>(ts, w). Inr (t # ts, w)))"

definition expandTemplates :: "machine \<Rightarrow> env_map \<Rightarrow> string list \<Rightarrow> template_error + string list \<times> string list" where
  "expandTemplates m env values = expand_all m env [] values"

section \<open>Matches of a text made of pieces\<close>

text \<open>Where the pieces of a text match: \<open>sh\<close> prints a piece, \<open>f\<close> says what it is a match for.\<close>

fun hits :: "('s \<Rightarrow> string) \<Rightarrow> ('s \<Rightarrow> 'a option) \<Rightarrow> nat \<Rightarrow> 's list \<Rightarrow> (nat \<times> nat \<times> 'a) list" where
  "hits sh f pos [] = []"
| "hits sh f pos (x # xs) =
     (case f x of Some m \<Rightarrow> [(pos, pos + length (sh x), m)] | None \<Rightarrow> []) @ hits sh f (pos + length (sh x)) xs"

fun expand_pieces ::
  "('a \<Rightarrow> 'e + string \<times> string list) \<Rightarrow> ('s \<Rightarrow> string) \<Rightarrow> ('s \<Rightarrow> 'a option) \<Rightarrow> 's list \<Rightarrow> 'e + string \<times> string list" where
  "expand_pieces val sh f [] = Inr ([], [])"
| "expand_pieces val sh f (x # xs) =
     result_bind (case f x of Some m \<Rightarrow> val m | None \<Rightarrow> Inr (sh x, [])) (\<lambda>(v, miss).
     result_bind (expand_pieces val sh f xs) (\<lambda>(r, miss'). Inr (v @ r, miss @ miss')))"

definition piece_ok :: "(string \<Rightarrow> ('a \<times> nat) option) \<Rightarrow> ('s \<Rightarrow> string) \<Rightarrow> ('s \<Rightarrow> 'a option) \<Rightarrow> 's \<Rightarrow> bool" where
  "piece_ok re sh f x =
     (case f x of
        Some m \<Rightarrow> sh x \<noteq> [] \<and> (\<forall>s. re (sh x @ s) = Some (m, length (sh x)))
      | None \<Rightarrow> \<forall>i<length (sh x). \<forall>s. re (drop i (sh x) @ s) = None)"

lemma splice_hits_from:
  "splice val (pre @ lit @ concat (map sh xs)) (length pre) (hits sh f (length pre + length lit) xs) =
   result_bind (expand_pieces val sh f xs) (\<lambda>(r, miss). Inr (lit @ r, miss))"
proof (induction xs arbitrary: pre lit)
  case (Cons x xs)
  show ?case
  proof (cases "f x")
    case None
    then show ?thesis using Cons [of pre "lit @ sh x"]
      by (cases "expand_pieces val sh f xs") (auto simp: add.assoc)
  next
    case (Some m)
    then show ?thesis using Cons [of "pre @ lit @ sh x" "[]"]
      by (cases "val m"; cases "expand_pieces val sh f xs") (auto simp: add.assoc split: prod.split)
  qed
qed simp

lemma splice_hits: "splice val (concat (map sh xs)) 0 (hits sh f 0 xs) = expand_pieces val sh f xs"
  using splice_hits_from [of val "[]" "[]" sh xs f] by (cases "expand_pieces val sh f xs") auto

lemma expand_pieces_ok:
  assumes "\<And>x. x \<in> set xs \<Longrightarrow> (case f x of Some m \<Rightarrow> val m | None \<Rightarrow> Inr (sh x, [])) = Inr (v x, miss x)"
  shows "expand_pieces val sh f xs = Inr (concat (map v xs), concat (map miss xs))"
  using assms by (induction xs) auto

lemma sort_key_unique:
  assumes "mset ys = mset xs" "sorted (map k ys)" "distinct (map k ys)"
  shows "sort_key k xs = ys"
proof -
  have "filter (\<lambda>x. k z = k x) ys = filter (\<lambda>x. k z = k x) xs" if z: "z \<in> set ys" for z
  proof -
    have "filter (\<lambda>x. k z = k x) ys = [z]"
      using assms(3) z by (induction ys) (auto simp: filter_empty_conv image_iff)
    moreover have "mset (filter (\<lambda>x. k z = k x) xs) = mset (filter (\<lambda>x. k z = k x) ys)" using assms(1) by simp
    ultimately show ?thesis by (simp del: mset_filter)
  qed
  then show ?thesis using assms(1,2) by (intro properties_for_sort_key) auto
qed

lemma hits_ge: "h \<in> set (hits sh f pos xs) \<Longrightarrow> pos \<le> fst h"
  by (induction xs arbitrary: pos) (fastforce split: option.splits)+

lemma hits_sorted:
  "(\<And>x. x \<in> set xs \<Longrightarrow> f x \<noteq> None \<Longrightarrow> sh x \<noteq> []) \<Longrightarrow> sorted (map fst (hits sh f pos xs)) \<and> distinct (map fst (hits sh f pos xs))"
proof (induction xs arbitrary: pos)
  case (Cons x xs)
  then have "sorted (map fst (hits sh f (pos + length (sh x)) xs)) \<and> distinct (map fst (hits sh f (pos + length (sh x)) xs))"
    by simp
  moreover have "pos < fst h" if "h \<in> set (hits sh f (pos + length (sh x)) xs)" "f x \<noteq> None" for h
    using hits_ge [OF that(1)] Cons.prems [of x] that(2) by (cases "sh x") auto
  ultimately show ?case by (fastforce split: option.splits)
qed simp

lemma hits_merge:
  assumes "\<And>x. x \<in> set xs \<Longrightarrow> f x = None \<or> g x = None"
  shows "mset (hits sh (\<lambda>x. case f x of Some m \<Rightarrow> Some m | None \<Rightarrow> g x) pos xs) = mset (hits sh f pos xs @ hits sh g pos xs)"
  using assms by (induction xs arbitrary: pos) (force split: option.splits)+

section \<open>Placeholders start with two braces\<close>

locale placeholder =
  fixes re :: "string \<Rightarrow> ('a \<times> nat) option"
  assumes opens: "re s = Some h \<Longrightarrow> has_prefix s ''{{''"
begin

lemma none_at: "\<not> has_prefix s ''{{'' \<Longrightarrow> re s = None"
  using opens by (cases "re s") auto

lemma find_all_none: "\<not> contains s ''{{'' \<Longrightarrow> find_all re k pos s = []"
  by (induction s arbitrary: k pos) (auto simp: none_at)

lemma none_text: "CHR ''{'' \<notin> set t \<Longrightarrow> i < length t \<Longrightarrow> re (drop i t @ s) = None"
  by (intro none_at) (auto simp: has_prefix_def Cons_nth_drop_Suc [symmetric] dest: nth_mem)

lemma none_inside:
  assumes "CHR ''{'' \<notin> set body" "body \<noteq> []" "re (''{{'' @ body @ s) = None" "i < length (''{{'' @ body)"
  shows "re (drop i (''{{'' @ body) @ s) = None"
proof (cases "i = 0")
  case True
  then show ?thesis using assms(3) by simp
next
  case False
  show ?thesis
  proof (cases "i = 1")
    case True
    then show ?thesis using assms(1,2) by (intro none_at) (cases body, auto simp: has_prefix_def)
  next
    case False
    then obtain j where "i = Suc (Suc j)" using \<open>i \<noteq> 0\<close> by (metis One_nat_def not0_implies_Suc)
    then show ?thesis using none_text [OF assms(1), of j s] assms(4) by simp
  qed
qed

lemma find_all_inside: "find_all re (length t) pos (t @ s) = find_all re 0 (pos + length t) s"
  by (induction t arbitrary: pos) auto

lemma find_all_skip: "(\<And>i. i < length t \<Longrightarrow> re (drop i t @ s) = None) \<Longrightarrow> find_all re 0 pos (t @ s) = find_all re 0 (pos + length t) s"
proof (induction t arbitrary: pos)
  case (Cons c t)
  have "re (c # t @ s) = None" using Cons.prems [of 0] by simp
  moreover have "re (drop i t @ s) = None" if "i < length t" for i using Cons.prems [of "Suc i"] that by simp
  ultimately show ?case using Cons.IH [of "pos + 1"] by simp
qed simp

lemma find_all_match:
  "t \<noteq> [] \<Longrightarrow> re (t @ s) = Some (m, length t) \<Longrightarrow>
   find_all re 0 pos (t @ s) = (pos, pos + length t, m) # find_all re 0 (pos + length t) s"
  using find_all_inside [of "tl t" "pos + 1" s] by (cases t) auto

lemma find_all_hits: "list_all (piece_ok re sh f) xs \<Longrightarrow> find_all re 0 pos (concat (map sh xs)) = hits sh f pos xs"
proof (induction xs arbitrary: pos)
  case (Cons x xs)
  show ?case
  proof (cases "f x")
    case None
    then show ?thesis using Cons find_all_skip [of "sh x" "concat (map sh xs)" pos] by (simp add: piece_ok_def)
  next
    case (Some m)
    then show ?thesis using Cons find_all_match [of "sh x" "concat (map sh xs)" m pos] by (simp add: piece_ok_def)
  qed
qed simp

end

lemma after_prefix: "after p s = Some r \<Longrightarrow> has_prefix s p"
  by (simp add: after_def split: if_splits)

interpretation vars: placeholder templateRe
  by unfold_locales (auto simp: templateRe_def bind_eq_Some_conv after_prefix)

interpretation files: placeholder fileRe
  by unfold_locales (auto simp: fileRe_def bind_eq_Some_conv after_prefix)

interpretation mems: placeholder memRe
  by unfold_locales (auto simp: memRe_def bind_eq_Some_conv after_prefix)

interpretation cpus: placeholder cpuRe
  by unfold_locales (auto simp: cpuRe_def bind_eq_Some_conv after_prefix)

section \<open>Templates made of segments\<close>

datatype segment =
    Text string | Seg_var string "string option" | Seg_file string bool bool "string option" | Seg_mem string | Seg_cpu string

definition show_default :: "string option \<Rightarrow> string" where
  "show_default d = (case d of None \<Rightarrow> [] | Some t \<Rightarrow> '':-'' @ t)"

fun seg_body :: "segment \<Rightarrow> string" where
  "seg_body (Text t) = t"
| "seg_body (Seg_var n d) = ''.'' @ n @ show_default d @ ''}}''"
| "seg_body (Seg_file p t f d) =
     ''file '' @ [CHR 0x22] @ p @ [CHR 0x22] @ (if t then '' trim'' else []) @ (if f then '' follow'' else []) @ show_default d @ ''}}''"
| "seg_body (Seg_mem e) = ''mem '' @ e @ ''}}''"
| "seg_body (Seg_cpu e) = (if e = [] then ''cpu}}'' else ''cpu '' @ e @ ''}}'')"

fun seg_text :: "segment \<Rightarrow> string" where
  "seg_text (Text t) = t"
| "seg_text seg = ''{{'' @ seg_body seg"

definition plain :: "string \<Rightarrow> bool" where
  "plain t = (CHR ''{'' \<notin> set t \<and> CHR ''}'' \<notin> set t)"

definition expr_ok :: "string \<Rightarrow> bool" where
  "expr_ok e = (e \<noteq> [] \<and> plain e \<and> newline \<notin> set e \<and> \<not> re_space (hd e) \<and> \<not> re_space (last e))"

fun seg_ok :: "segment \<Rightarrow> bool" where
  "seg_ok (Text t) = (CHR ''{'' \<notin> set t)"
| "seg_ok (Seg_var n d) = (n \<noteq> [] \<and> list_all word_char n \<and> (case d of None \<Rightarrow> True | Some t \<Rightarrow> plain t))"
| "seg_ok (Seg_file p t f d) =
     (p \<noteq> [] \<and> CHR 0x22 \<notin> set p \<and> CHR ''{'' \<notin> set p \<and> (case d of None \<Rightarrow> True | Some t \<Rightarrow> plain t))"
| "seg_ok (Seg_mem e) = expr_ok e"
| "seg_ok (Seg_cpu e) = (e = [] \<or> expr_ok e)"

fun var_seg :: "segment \<Rightarrow> ref option" where
  "var_seg (Seg_var n d) = Some (Var n d)"
| "var_seg seg = None"

fun file_seg :: "segment \<Rightarrow> ref option" where
  "file_seg (Seg_file p t f d) = Some (File p t f d)"
| "file_seg seg = None"

fun mem_seg :: "segment \<Rightarrow> string option" where
  "mem_seg (Seg_mem e) = Some e"
| "mem_seg seg = None"

fun cpu_seg :: "segment \<Rightarrow> string option" where
  "cpu_seg (Seg_cpu e) = Some e"
| "cpu_seg seg = None"

lemma takeWhile_stop: "list_all P xs \<Longrightarrow> ys = [] \<or> \<not> P (hd ys) \<Longrightarrow> takeWhile P (xs @ ys) = xs \<and> dropWhile P (xs @ ys) = ys"
  by (induction xs) (auto simp: takeWhile_eq_Nil_iff dropWhile_eq_self_iff)

lemma skip_ws_stop: "s = [] \<or> \<not> re_space (hd s) \<Longrightarrow> skip_ws s = s"
  by (auto simp: skip_ws_def dropWhile_eq_self_iff)

lemmas re_space_simps = re_space_def tab_def newline_def carriage_return_def

lemma close_default_show: "(case d of None \<Rightarrow> True | Some t \<Rightarrow> plain t) \<Longrightarrow> close_default (show_default d @ ''}}'' @ s) = Some (d, s)"
proof (cases d)
  case None
  then show ?thesis
    by (simp add: close_default_def show_default_def after_def has_prefix_def skip_ws_def re_space_simps)
next
  case (Some t)
  assume "case d of None \<Rightarrow> True | Some t \<Rightarrow> plain t"
  then have "list_all (\<lambda>c. c \<noteq> CHR ''}'') t" using Some by (auto simp: plain_def list_all_iff)
  then show ?thesis
    using Some takeWhile_stop [of "\<lambda>c. c \<noteq> CHR ''}''" t "''}}'' @ s"]
    by (simp add: close_default_def show_default_def after_def has_prefix_def)
qed

lemma hd_show_default: "hd (show_default d @ ''}}'' @ s) = (if d = None then CHR ''}'' else CHR '':'')"
  by (simp add: show_default_def split: option.split)

lemma templateRe_var:
  assumes "seg_ok (Seg_var n d)"
  shows "templateRe (seg_text (Seg_var n d) @ s) = Some (Var n d, length (seg_text (Seg_var n d)))"
proof -
  let ?r = "show_default d @ ''}}'' @ s"
  have h: "hd ?r = CHR ''}'' \<or> hd ?r = CHR '':''" by (simp only: hd_show_default split: if_split) simp
  then have "takeWhile word_char (n @ ?r) = n \<and> dropWhile word_char (n @ ?r) = ?r"
    using assms by (intro takeWhile_stop) (auto simp: word_char_def is_digit_def is_lower_def is_upper_def less_eq_char_def)
  moreover have "skip_ws ?r = ?r" using h by (intro skip_ws_stop) (auto simp: re_space_simps)
  moreover have "close_default ?r = Some (d, s)" using assms by (intro close_default_show) simp
  ultimately show ?thesis
    using assms by (simp add: templateRe_def after_def has_prefix_def skip_ws_def [of "CHR ''.'' # _"] re_space_simps)
qed

lemma file_mods_stop: "h = CHR ''}'' \<or> h = CHR '':'' \<Longrightarrow> file_mods k a b (h # r) = (a, b, h # r)"
  by (cases k) (auto simp: re_space_simps)

lemma file_mods_trim: "file_mods (Suc k) a b ('' trim'' @ r) = file_mods k True b r"
  by (simp add: re_space_simps skip_ws_def after_def has_prefix_def)

lemma file_mods_follow: "file_mods (Suc k) a b ('' follow'' @ r) = file_mods k a True r"
  by (simp add: re_space_simps skip_ws_def after_def has_prefix_def)

lemma file_mods_show:
  assumes "h = CHR ''}'' \<or> h = CHR '':''" "2 \<le> n"
  shows "file_mods n False False ((if t then '' trim'' else []) @ (if f then '' follow'' else []) @ h # r) = (t, f, h # r)"
proof -
  have n: "n = Suc (Suc (n - 2))" using assms(2) by simp
  show ?thesis
    by (cases t; cases f; subst n)
      (simp_all only: if_True if_False append_Nil file_mods_trim file_mods_follow file_mods_stop [OF assms(1)])
qed

lemma fileRe_file:
  assumes "seg_ok (Seg_file p t f d)"
  shows "fileRe (seg_text (Seg_file p t f d) @ s) = Some (File p t f d, length (seg_text (Seg_file p t f d)))"
proof -
  let ?r = "show_default d @ ''}}'' @ s"
  let ?m = "(if t then '' trim'' else []) @ (if f then '' follow'' else []) @ ?r"
  have "hd ?r = CHR ''}'' \<or> hd ?r = CHR '':''" by (simp only: hd_show_default split: if_split) simp
  then obtain h r where r: "?r = h # r" "h = CHR ''}'' \<or> h = CHR '':''" by (cases ?r) auto
  have "2 \<le> length ?m" by simp
  then have "file_mods (length ?m) False False ?m = (t, f, ?r)" unfolding r(1) by (intro file_mods_show r(2)) simp
  moreover have "close_default ?r = Some (d, s)" using assms by (intro close_default_show) simp
  moreover have "takeWhile (\<lambda>c. c \<noteq> CHR 0x22) (p @ CHR 0x22 # ?m) = p \<and> dropWhile (\<lambda>c. c \<noteq> CHR 0x22) (p @ CHR 0x22 # ?m) = CHR 0x22 # ?m"
    using assms by (intro takeWhile_stop) (auto simp: list_all_iff)
  ultimately show ?thesis
    using assms by (simp add: fileRe_def after_def has_prefix_def skip_ws_def re_space_simps Let_def)
qed

lemma lazy_expr_show:
  assumes "e \<noteq> []" "CHR ''}'' \<notin> set e" "newline \<notin> set e" "\<not> re_space (last e)"
  shows "lazy_expr acc (e @ ''}}'' @ s) = Some (acc @ e, s)"
  using assms
proof (induction e arbitrary: acc)
  case (Cons c e)
  show ?case
  proof (cases "e = []")
    case True
    then show ?thesis using Cons.prems by (simp add: skip_ws_def re_space_simps after_def has_prefix_def)
  next
    case False
    then have "last e \<in> set e" "\<not> re_space (last e)" using Cons.prems by auto
    then have "skip_ws (e @ ''}}'' @ s) = skip_ws e @ ''}}'' @ s" "skip_ws e \<noteq> []"
      unfolding skip_ws_def by (auto simp: dropWhile_append1 dropWhile_eq_Nil_conv)
    moreover have "hd (skip_ws e) \<in> set e"
      using hd_in_set [OF calculation(2)] unfolding skip_ws_def by (rule set_dropWhileD)
    then have "hd (skip_ws e) \<noteq> CHR ''}''" using Cons.prems(2) by auto
    ultimately have "after ''}}'' (skip_ws (e @ ''}}'' @ s)) = None"
      by (cases "skip_ws e") (auto simp: after_def has_prefix_def)
    then show ?thesis using Cons False by auto
  qed
qed simp

lemma spaced_expr_show:
  assumes "expr_ok e"
  shows "spaced_expr (CHR '' '' # e @ ''}}'' @ s) = Some (e, s)"
proof -
  have "takeWhile re_space (e @ ''}}'' @ s) = []" using assms by (cases e) (auto simp: expr_ok_def)
  then have "takeWhile re_space (CHR '' '' # e @ ''}}'' @ s) = [CHR '' '']" by (simp add: re_space_simps)
  then show ?thesis
    using assms lazy_expr_show [of e "[]" s] by (simp add: spaced_expr_def expr_ok_def plain_def)
qed

lemma memRe_mem: "seg_ok (Seg_mem e) \<Longrightarrow> memRe (seg_text (Seg_mem e) @ s) = Some (e, length (seg_text (Seg_mem e)))"
  using spaced_expr_show [of e s] by (simp add: memRe_def after_def has_prefix_def skip_ws_def re_space_simps)

lemma cpuRe_cpu: "seg_ok (Seg_cpu e) \<Longrightarrow> cpuRe (seg_text (Seg_cpu e) @ s) = Some (e, length (seg_text (Seg_cpu e)))"
proof (cases "e = []")
  case True
  have "spaced_expr (CHR ''}'' # r) = None" for r by (simp add: spaced_expr_def re_space_simps)
  then show ?thesis using True by (simp add: cpuRe_def after_def has_prefix_def skip_ws_def re_space_simps)
next
  case False
  assume "seg_ok (Seg_cpu e)"
  then show ?thesis
    using False spaced_expr_show [of e s] by (simp add: cpuRe_def after_def has_prefix_def skip_ws_def re_space_simps)
qed

text \<open>A segment is a match of its own regular expression and matches nowhere for the others.\<close>

lemma seg_body_ok:
  assumes "seg_ok seg" "\<And>t. seg \<noteq> Text t"
  shows "CHR ''{'' \<notin> set (seg_body seg) \<and> seg_body seg \<noteq> [] \<and> seg_text seg = ''{{'' @ seg_body seg"
proof -
  have "\<not> word_char (CHR ''{'')" by (simp add: word_char_def is_digit_def is_lower_def is_upper_def less_eq_char_def)
  then show ?thesis
    using assms by (cases seg) (auto simp: show_default_def plain_def expr_ok_def list_all_iff split: option.splits)
qed

context placeholder
begin

lemma seg_piece:
  assumes "seg_ok seg" "\<And>t. f (Text t) = None"
    "\<And>m s. f seg = Some m \<Longrightarrow> re (seg_text seg @ s) = Some (m, length (seg_text seg))"
    "\<And>s. f seg = None \<Longrightarrow> (\<And>t. seg \<noteq> Text t) \<Longrightarrow> re (''{{'' @ seg_body seg @ s) = None"
  shows "piece_ok re seg_text f seg"
proof (cases "f seg")
  case None
  show ?thesis
  proof (cases "\<exists>t. seg = Text t")
    case True
    then show ?thesis using assms(1,2) none_text by (auto simp: piece_ok_def)
  next
    case False
    then show ?thesis
      using None assms(1,4) seg_body_ok [of seg] none_inside [of "seg_body seg"] by (auto simp: piece_ok_def)
  qed
next
  case (Some m)
  then show ?thesis using assms by (cases seg) (auto simp: piece_ok_def)
qed

end

lemmas re_step = after_def has_prefix_def skip_ws_def re_space_simps

lemma var_other: "var_seg seg = None \<Longrightarrow> (\<And>t. seg \<noteq> Text t) \<Longrightarrow> templateRe (''{{'' @ seg_body seg @ s) = None"
  by (cases seg) (auto simp: templateRe_def re_step)

lemma var_own: "seg_ok seg \<Longrightarrow> var_seg seg = Some m \<Longrightarrow> templateRe (seg_text seg @ s) = Some (m, length (seg_text seg))"
  using templateRe_var [of _ _ s] by (cases seg) (auto simp del: seg_text.simps seg_ok.simps)

lemma var_piece: "seg_ok seg \<Longrightarrow> piece_ok templateRe seg_text var_seg seg"
  using var_own var_other by (intro vars.seg_piece) (simp_all del: seg_text.simps)

lemma file_other: "file_seg seg = None \<Longrightarrow> (\<And>t. seg \<noteq> Text t) \<Longrightarrow> fileRe (''{{'' @ seg_body seg @ s) = None"
  by (cases seg) (auto simp: fileRe_def re_step)

lemma file_own: "seg_ok seg \<Longrightarrow> file_seg seg = Some m \<Longrightarrow> fileRe (seg_text seg @ s) = Some (m, length (seg_text seg))"
  using fileRe_file [of _ _ _ _ s] by (cases seg) (auto simp del: seg_text.simps seg_ok.simps)

lemma file_piece: "seg_ok seg \<Longrightarrow> piece_ok fileRe seg_text file_seg seg"
  using file_own file_other by (intro files.seg_piece) (simp_all del: seg_text.simps)

lemma mem_other: "mem_seg seg = None \<Longrightarrow> (\<And>t. seg \<noteq> Text t) \<Longrightarrow> memRe (''{{'' @ seg_body seg @ s) = None"
  by (cases seg) (auto simp: memRe_def re_step)

lemma mem_own: "seg_ok seg \<Longrightarrow> mem_seg seg = Some m \<Longrightarrow> memRe (seg_text seg @ s) = Some (m, length (seg_text seg))"
  using memRe_mem [of _ s] by (cases seg) (auto simp del: seg_text.simps seg_ok.simps)

lemma mem_piece: "seg_ok seg \<Longrightarrow> piece_ok memRe seg_text mem_seg seg"
  using mem_own mem_other by (intro mems.seg_piece) (simp_all del: seg_text.simps)

lemma cpu_other: "cpu_seg seg = None \<Longrightarrow> (\<And>t. seg \<noteq> Text t) \<Longrightarrow> cpuRe (''{{'' @ seg_body seg @ s) = None"
  by (cases seg) (auto simp: cpuRe_def re_step)

lemma cpu_own: "seg_ok seg \<Longrightarrow> cpu_seg seg = Some m \<Longrightarrow> cpuRe (seg_text seg @ s) = Some (m, length (seg_text seg))"
  using cpuRe_cpu [of _ s] by (cases seg) (auto simp del: seg_text.simps seg_ok.simps)

lemma cpu_piece: "seg_ok seg \<Longrightarrow> piece_ok cpuRe seg_text cpu_seg seg"
  using cpu_own cpu_other by (intro cpus.seg_piece) (simp_all del: seg_text.simps)

definition ref_seg :: "segment \<Rightarrow> ref option" where
  "ref_seg seg = (case file_seg seg of Some r \<Rightarrow> Some r | None \<Rightarrow> var_seg seg)"

lemma refs_in_order:
  assumes "list_all seg_ok segs"
  shows "sort_key fst (find_all fileRe 0 0 (concat (map seg_text segs)) @ find_all templateRe 0 0 (concat (map seg_text segs)))
    = hits seg_text ref_seg 0 segs"
proof -
  have "find_all fileRe 0 0 (concat (map seg_text segs)) = hits seg_text file_seg 0 segs"
      "find_all templateRe 0 0 (concat (map seg_text segs)) = hits seg_text var_seg 0 segs"
    using assms file_piece var_piece by (auto intro!: files.find_all_hits vars.find_all_hits simp: list_all_iff)
  moreover have "mset (hits seg_text ref_seg 0 segs) = mset (hits seg_text file_seg 0 segs @ hits seg_text var_seg 0 segs)"
  proof -
    have "file_seg x = None \<or> var_seg x = None" for x by (cases x) auto
    then show ?thesis using hits_merge [of segs file_seg var_seg seg_text 0] by (simp add: ref_seg_def [abs_def])
  qed
  moreover have "seg_text x \<noteq> []" if "ref_seg x \<noteq> None" for x using that by (cases x) (auto simp: ref_seg_def)
  then have "sorted (map fst (hits seg_text ref_seg 0 segs)) \<and> distinct (map fst (hits seg_text ref_seg 0 segs))"
    by (intro hits_sorted)
  ultimately show ?thesis by (simp add: sort_key_unique)
qed

lemma splice_no_match: "splice val s 0 [] = Inr (s, [])"
  by simp

lemma ExpandRefs_segments:
  assumes "list_all seg_ok segs"
  shows "ExpandRefs fs env (concat (map seg_text segs)) = expand_pieces (ref_value fs env) seg_text ref_seg segs"
proof -
  let ?s = "concat (map seg_text segs)"
  have "ExpandRefs fs env ?s = splice (ref_value fs env) ?s 0 (sort_key fst (find_all fileRe 0 0 ?s @ find_all templateRe 0 0 ?s))"
    by (simp add: ExpandRefs_def files.find_all_none vars.find_all_none)
  then show ?thesis by (simp only: refs_in_order [OF assms] splice_hits)
qed

section \<open>The value of a segment\<close>

fun seg_value :: "machine \<Rightarrow> env_map \<Rightarrow> segment \<Rightarrow> template_error + string \<times> string list" where
  "seg_value m env (Text t) = Inr (t, [])"
| "seg_value m env (Seg_var n None) = Inr (case env n of None \<Rightarrow> ([], [n]) | Some v \<Rightarrow> (v, []))"
| "seg_value m env (Seg_var n (Some d)) = Inr (if env n = None \<or> env n = Some [] then d else the (env n), [])"
| "seg_value m env (Seg_file p t f d) = result_bind (readFileTemplate (m_fs m) p t f d) (\<lambda>v. Inr (v, []))"
| "seg_value m env (Seg_mem e) = mem_value (m_oor m) (m_MiB m) e"
| "seg_value m env (Seg_cpu e) = cpu_value (m_CPUs m) e"

lemma seg_value_var: "seg_value m env (Seg_var n d) = Inr (var_value env n d)"
  by (cases d) (auto simp: var_value_def split: option.split)

text \<open>A pass over the segments \<open>f\<close> selects leaves their values in the text.\<close>

definition settle :: "(segment \<Rightarrow> string option) \<Rightarrow> segment \<Rightarrow> string \<times> string list \<Rightarrow> segment" where
  "settle f seg w = (if f seg = None then seg else Text (fst w))"

lemma itoa_plain: "CHR ''{'' \<notin> set (itoa n)"
proof -
  have "\<not> is_digit (CHR ''{'')" by (simp add: is_digit_def less_eq_char_def)
  then have "CHR ''{'' \<notin> set (nat_digits k)" for k using nat_digits_correct [of k] by (auto simp: list_all_iff)
  then show ?thesis by (simp add: itoa_def)
qed

lemma mem_value_plain: "mem_value oor t e = Inr w \<Longrightarrow> snd w = [] \<and> CHR ''{'' \<notin> set (fst w)"
  using itoa_plain by (auto simp: mem_value_def map_sum_def split: sum.splits)

lemma cpu_value_plain: "cpu_value t e = Inr w \<Longrightarrow> snd w = [] \<and> CHR ''{'' \<notin> set (fst w)"
  using itoa_plain by (auto simp: cpu_value_def map_sum_def split: sum.splits)

definition seg_fits :: "machine \<Rightarrow> env_map \<Rightarrow> segment \<Rightarrow> string \<times> string list \<Rightarrow> bool" where
  "seg_fits m env seg w = (seg_ok seg \<and> seg_value m env seg = Inr w)"

lemma settle_fits:
  assumes "seg_fits m env seg w" "f = mem_seg \<or> f = cpu_seg"
  shows "seg_fits m env (settle f seg w) w"
  using assms mem_value_plain [of "m_oor m" "m_MiB m"] cpu_value_plain [of "m_CPUs m"]
  by (cases w; cases seg) (fastforce simp: seg_fits_def settle_def)+

lemma settle_pass:
  assumes "list_all2 (seg_fits m env) segs ws"
    "\<And>seg e w. f seg = Some e \<Longrightarrow> seg_fits m env seg w \<Longrightarrow> val e = Inr w \<and> snd w = []"
  shows "expand_pieces val seg_text f segs = Inr (concat (map seg_text (map2 (settle f) segs ws)), [])"
  using assms(1)
proof (induction rule: list_all2_induct)
  case (Cons seg segs w ws)
  then show ?case using assms(2) [of seg _ w] by (cases w; cases "f seg") (auto simp: settle_def)
qed simp

lemma fits_ok: "list_all2 (seg_fits m env) segs ws \<Longrightarrow> list_all seg_ok segs"
  by (induction rule: list_all2_induct) (auto simp: seg_fits_def)

lemma mem_pass:
  assumes "list_all2 (seg_fits m env) segs ws"
  shows "splice (mem_value (m_oor m) (m_MiB m)) (concat (map seg_text segs)) 0 (find_all memRe 0 0 (concat (map seg_text segs))) =
    Inr (concat (map seg_text (map2 (settle mem_seg) segs ws)), [])"
proof -
  have "list_all (piece_ok memRe seg_text mem_seg) segs"
    using fits_ok [OF assms] mem_piece by (auto simp: list_all_iff)
  moreover have "mem_value (m_oor m) (m_MiB m) e = Inr w \<and> snd w = []" if "mem_seg seg = Some e" "seg_fits m env seg w" for seg e w
    using that mem_value_plain [of "m_oor m" "m_MiB m" e w] by (cases seg) (auto simp: seg_fits_def)
  ultimately show ?thesis
    by (simp only: mems.find_all_hits splice_hits) (rule settle_pass [OF assms], blast)
qed

lemma cpu_pass:
  assumes "list_all2 (seg_fits m env) segs ws"
  shows "splice (cpu_value (m_CPUs m)) (concat (map seg_text segs)) 0 (find_all cpuRe 0 0 (concat (map seg_text segs))) =
    Inr (concat (map seg_text (map2 (settle cpu_seg) segs ws)), [])"
proof -
  have "list_all (piece_ok cpuRe seg_text cpu_seg) segs"
    using fits_ok [OF assms] cpu_piece by (auto simp: list_all_iff)
  moreover have "cpu_value (m_CPUs m) e = Inr w \<and> snd w = []" if "cpu_seg seg = Some e" "seg_fits m env seg w" for seg e w
    using that cpu_value_plain [of "m_CPUs m" e w] by (cases seg) (auto simp: seg_fits_def)
  ultimately show ?thesis
    by (simp only: cpus.find_all_hits splice_hits) (rule settle_pass [OF assms], blast)
qed

lemma settle_all:
  assumes "list_all2 (seg_fits m env) segs ws" "f = mem_seg \<or> f = cpu_seg"
  shows "list_all2 (seg_fits m env) (map2 (settle f) segs ws) ws"
  using assms(1) by (induction rule: list_all2_induct) (auto intro: settle_fits [OF _ assms(2)])

lemma refs_pass:
  assumes "list_all2 (seg_fits m env) segs ws" "list_all (\<lambda>seg. mem_seg seg = None \<and> cpu_seg seg = None) segs"
  shows "ExpandRefs (m_fs m) env (concat (map seg_text segs)) = Inr (concat (map fst ws), concat (map snd ws))"
proof -
  have "expand_pieces (ref_value (m_fs m) env) seg_text ref_seg segs = Inr (concat (map fst ws), concat (map snd ws))"
    using assms
  proof (induction rule: list_all2_induct)
    case (Cons seg segs w ws)
    have "(case ref_seg seg of Some r \<Rightarrow> ref_value (m_fs m) env r | None \<Rightarrow> Inr (seg_text seg, [])) = Inr w"
      using Cons by (cases seg) (auto simp: seg_fits_def ref_seg_def ref_value_def seg_value_var)
    then show ?case using Cons by (cases w) (auto simp: case_prod_beta)
  qed simp
  then show ?thesis using ExpandRefs_segments [OF fits_ok [OF assms(1)]] by simp
qed

lemma settled:
  assumes "list_all2 (seg_fits m env) segs ws"
  shows "list_all (\<lambda>seg. mem_seg seg = None \<and> cpu_seg seg = None)
    (map2 (settle cpu_seg) (map2 (settle mem_seg) segs ws) ws)"
  using assms
proof (induction rule: list_all2_induct)
  case (Cons seg segs w ws)
  then show ?case by (cases seg) (auto simp: settle_def)
qed simp

text \<open>
  C38. One pass: a string of literal text and placeholders expands to the text and the values of the
  placeholders in their order, whatever bytes the values of variables and files have; a value that
  looks like a placeholder itself stays as it is. The names reported as missing are those of the bare
  variables that are not set.
\<close>

theorem expand_segments:
  assumes "list_all2 (\<lambda>seg w. seg_ok seg \<and> seg_value m env seg = Inr w) segs ws"
  shows "expand_one m env (concat (map seg_text segs)) = Inr (concat (map fst ws), concat (map snd ws))"
proof -
  have fits: "list_all2 (seg_fits m env) segs ws" using assms by (simp add: seg_fits_def [abs_def])
  define segs1 where "segs1 = map2 (settle mem_seg) segs ws"
  define segs2 where "segs2 = map2 (settle cpu_seg) segs1 ws"
  have f1: "list_all2 (seg_fits m env) segs1 ws" unfolding segs1_def by (intro settle_all fits) simp
  have f2: "list_all2 (seg_fits m env) segs2 ws" unfolding segs2_def by (intro settle_all f1) simp
  let ?s = "concat (map seg_text segs)"
  have "expand_one m env ?s =
      result_bind (splice (mem_value (m_oor m) (m_MiB m)) ?s 0 (find_all memRe 0 0 ?s)) (\<lambda>(s, _).
      result_bind (splice (cpu_value (m_CPUs m)) s 0 (find_all cpuRe 0 0 s)) (\<lambda>(s, _). ExpandRefs (m_fs m) env s))"
    by (simp add: expand_one_def ExpandRefs_def mems.find_all_none cpus.find_all_none)
  also have "\<dots> = ExpandRefs (m_fs m) env (concat (map seg_text segs2))"
    using mem_pass [OF fits] cpu_pass [OF f1] by (simp add: segs1_def segs2_def)
  also have "\<dots> = Inr (concat (map fst ws), concat (map snd ws))"
    using refs_pass [OF f2] settled [OF fits] by (simp add: segs1_def segs2_def)
  finally show ?thesis .
qed

text \<open>A machine without files, and a variable whose value looks like a placeholder.\<close>

definition bare_fs :: fsys where
  "bare_fs = \<lparr>fs_lstat = (\<lambda>_. Lstat_error), fs_open = (\<lambda>_. Inl ENOENT), fs_open_root = (\<lambda>_ _. Inl ENOENT)\<rparr>"

definition small_machine :: machine where
  "small_machine = \<lparr>m_fs = bare_fs, m_oor = 0, m_MiB = 1024, m_CPUs = 4\<rparr>"

theorem expand_segments_witness:
  "expand_one small_machine (map_of [(''A'', ''{{.B}}{{cpu}}'')]) ''x={{.A}} {{.B:-d}} {{.C}} {{cpu}}'' =
     Inr (''x={{.B}}{{cpu}} d  4'', [''C''])"
proof -
  have "cpu_Eval [] 4 = Inr 4" "itoa 4 = ''4''" by code_simp+
  then show ?thesis
    using expand_segments [of small_machine "map_of [(''A'', ''{{.B}}{{cpu}}'')]"
        "[Text ''x='', Seg_var ''A'' None, Text '' '', Seg_var ''B'' (Some ''d''), Text '' '', Seg_var ''C'' None, Text '' '', Seg_cpu []]"
        "[(''x='', []), (''{{.B}}{{cpu}}'', []), ('' '', []), (''d'', []), ('' '', []), ([], [''C'']), ('' '', []), (''4'', [])]"]
    by (simp add: small_machine_def var_value_def cpu_value_def show_default_def plain_def word_char_def
      is_upper_def less_eq_char_def)
qed

section \<open>Files read for a template\<close>

text \<open>
  Only the content of a regular file of at most 1 MiB without a NUL byte is taken; without
  \<open>follow\<close> every directory above it is real and the leaf was opened without following a link.
\<close>

lemma readFileTemplate_safe:
  assumes "readFileTemplate fs p t f None = Inr v"
  shows "IsAbs p \<and> (\<exists>s. length s \<le> maxFileSize \<and> CHR 0x00 \<notin> set s \<and>
    v = (if t then trim_right {CHR '' '', tab, carriage_return, newline} s else s) \<and>
    (if f then fs_open_root fs (filepath_Dir (filepath_Clean p)) (filepath_Base (filepath_Clean p)) = Inr (Handle True True (Some s))
     else fs_open fs (filepath_Clean p) = Inr (Handle True True (Some s)) \<and>
       checkAncestorsNotSymlinked (fs_lstat fs) (filepath_Clean p) = None))"
proof -
  obtain h where h: "IsAbs p" "openFileTemplate fs (filepath_Clean p) f = Inr h" "h_stat h" "h_regular h"
    using assms by (auto simp: readFileTemplate_def split: if_splits sum.splits option.splits)
  then obtain s where s: "h_data h = Some s" "length s \<le> maxFileSize" "CHR 0x00 \<notin> set s"
      "v = (if t then trim_right {CHR '' '', tab, carriage_return, newline} s else s)"
    using assms by (auto simp: readFileTemplate_def split: if_splits option.splits)
  have "h = Handle True True (Some s)" using h(3,4) s(1) by (cases h) simp
  then show ?thesis
    using h(1,2) s(2-4)
    by (auto simp: openFileTemplate_def openConfined_def map_sum_def split: if_splits sum.splits option.splits)
qed

text \<open>The default does not help when the directory is missing: that error is wrapped.\<close>

lemma missing_directory_ignores_default:
  "readFileTemplate bare_fs ''/run/secrets/key'' False False (Some ''d'') =
     Inl (Not_opened ''/run/secrets/key'' (Bad_ancestor (Ancestor_missing ''/run'')))"
  "readFileTemplate bare_fs ''/key'' False False (Some ''d'') = Inr ''d''"
  "readFileTemplate bare_fs ''/run/secrets/key'' False True (Some ''d'') = Inr ''d''"
  by (code_simp)+

text \<open>A blank before the closing braces makes a bare CPU placeholder swallow the text up to the next one.\<close>

lemma cpu_blank_swallows:
  "cpuRe ''{{cpu }}-{{.X}}'' = Some (''}}-{{.X'', 15)" "cpuRe ''{{cpu }}-'' = Some ([], 8)"
  "cpu_value 4 ''}}-{{.X'' = Inl (Bad_expr Invalid_expr)"
  by code_simp+

end
