(* ===== verification/Dotenv.thy ===== *)
theory Dotenv
  imports Go_Prelude
begin

text \<open>
  The environment of a child: the dotenv parser and the merge of \<open>service/service.go\<close>. An
  environment is a dictionary. What opening, examining and reading the dotenv file gives is an
  argument. The lemmas show that every value can be written in a dotenv file and is read back, which
  source of a variable wins, and that nothing of the parent's environment gets into a child that did
  not ask for it.
\<close>

section \<open>Definitions\<close>

definition backslash :: char where "backslash = CHR 0x5C"
definition dquote :: char where "dquote = CHR 0x22"
definition squote :: char where "squote = CHR 0x27"

fun dotenv_comment :: "bool \<Rightarrow> bool \<Rightarrow> string \<Rightarrow> string \<Rightarrow> string" where
  "dotenv_comment inSingle inDouble seen [] = seen"
| "dotenv_comment inSingle inDouble seen (c # v) =
     (if c = backslash \<and> inDouble \<and> v \<noteq> [] then dotenv_comment inSingle inDouble (seen @ [c, hd v]) (tl v)
      else if c = squote \<and> \<not> inDouble then dotenv_comment (\<not> inSingle) inDouble (seen @ [c]) v
      else if c = dquote \<and> \<not> inSingle then dotenv_comment inSingle (\<not> inDouble) (seen @ [c]) v
      else if c = CHR ''#'' \<and> \<not> inSingle \<and> \<not> inDouble \<and> seen \<noteq> [] \<and> last seen = CHR '' ''
      then trim_right {CHR '' ''} seen
      else dotenv_comment inSingle inDouble (seen @ [c]) v)"

definition stripDotEnvComment :: "string \<Rightarrow> string" where
  "stripDotEnvComment v = dotenv_comment False False [] v"

fun unescape_from :: "string \<Rightarrow> string" where
  "unescape_from [] = []"
| "unescape_from [c] = [c]"
| "unescape_from (c # e # s) =
     (if c \<noteq> backslash then c # unescape_from (e # s)
      else (if e = CHR ''n'' then [newline]
            else if e = CHR ''t'' then [tab]
            else if e = CHR ''r'' then [carriage_return]
            else if e = backslash then [backslash]
            else if e = dquote then [dquote]
            else [backslash, e]) @ unescape_from s)"

definition dotenvUnescapeDouble :: "string \<Rightarrow> string" where
  "dotenvUnescapeDouble s = (if backslash \<notin> set s then s else unescape_from s)"

definition key_start :: "char \<Rightarrow> bool" where
  "key_start c = (c = CHR ''_'' \<or> is_upper c \<or> is_lower c)"

definition IsValidEnvKey :: "string \<Rightarrow> bool" where
  "IsValidEnvKey k =
     (case k of [] \<Rightarrow> False | c # cs \<Rightarrow> key_start c \<and> list_all (\<lambda>c. key_start c \<or> is_digit c) cs)"

type_synonym env = "(string \<times> string) list"

datatype dotenv_error =
    Cannot_open | Is_symlink | Cannot_stat | Dotenv_not_regular | World_writable | Wrong_owner nat
  | Cannot_read | Too_big | Invalid_env_key string

definition maxDotEnvSize :: nat where "maxDotEnvSize = 2 ^ 20"

text \<open>The value of an assignment: comment and outer quotes are removed.\<close>

definition dotenv_value :: "string \<Rightarrow> string" where
  "dotenv_value v0 =
     (let v = stripDotEnvComment (trim_space v0)
      in if 2 \<le> length v \<and> hd v = dquote \<and> last v = dquote then dotenvUnescapeDouble (butlast (tl v))
         else if 2 \<le> length v \<and> hd v = squote \<and> last v = squote then butlast (tl v)
         else v)"

definition dotenv_line :: "string \<Rightarrow> dotenv_error + (string \<times> string) option" where
  "dotenv_line line0 =
     (let line = trim_space line0
      in if line = [] \<or> has_prefix line ''#'' then Inr None
         else case cut_at (CHR ''='') line of
           None \<Rightarrow> Inr None
         | Some (k0, v) \<Rightarrow>
             let k = trim_space k0
             in if k = [] then Inr None
                else if \<not> IsValidEnvKey k then Inl (Invalid_env_key k)
                else Inr (Some (k, dotenv_value v)))"

fun dotenv_lines :: "string list \<Rightarrow> env \<Rightarrow> dotenv_error + env" where
  "dotenv_lines [] env = Inr env"
| "dotenv_lines (l # ls) env =
     (case dotenv_line l of
        Inl e \<Rightarrow> Inl e
      | Inr None \<Rightarrow> dotenv_lines ls env
      | Inr (Some (k, v)) \<Rightarrow> dotenv_lines ls (AList.update k v env))"

datatype dotenv_open =
    Open_failed bool
  | Stat_failed
  | Dot_file (dot_regular: bool) (dot_owner: nat) (dot_mode: int) (dot_data: "string option")

definition parseDotEnv :: "nat \<Rightarrow> dotenv_open \<Rightarrow> dotenv_error + env" where
  "parseDotEnv euid f =
     (case f of
        Open_failed is_loop \<Rightarrow> Inl (if is_loop then Is_symlink else Cannot_open)
      | Stat_failed \<Rightarrow> Inl Cannot_stat
      | Dot_file reg uid mode content \<Rightarrow>
          if \<not> reg then Inl Dotenv_not_regular
          else if and mode 2 \<noteq> 0 then Inl World_writable
          else if uid \<noteq> 0 \<and> uid \<noteq> euid then Inl (Wrong_owner uid)
          else case content of
            None \<Rightarrow> Inl Cannot_read
          | Some s \<Rightarrow>
              if maxDotEnvSize < length s then Inl Too_big
              else dotenv_lines (split_on newline (trim_prefix s [CHR 0xEF, CHR 0xBB, CHR 0xBF])) [])"

text \<open>\<open>os.Environ()\<close> is a list of \<open>KEY=value\<close> strings. The two results are the environment and \<open>userKeys\<close>.\<close>

definition environ_entry :: "string \<Rightarrow> env \<Rightarrow> env" where
  "environ_entry e env =
     (case cut_at (CHR ''='') e of Some (k, v) \<Rightarrow> if k \<noteq> [] then AList.update k v env else env | None \<Rightarrow> env)"

definition merge_env :: "env \<Rightarrow> env \<Rightarrow> env" where
  "merge_env upper env = fold (\<lambda>(k, v). AList.update k v) upper env"

definition buildEnvMap ::
  "nat \<Rightarrow> string list \<Rightarrow> dotenv_open option \<Rightarrow> env \<Rightarrow> bool \<Rightarrow> dotenv_error + env \<times> string list" where
  "buildEnvMap euid environ dotenv procEnv passEnv =
     (let base = (if passEnv then fold environ_entry environ [] else [])
      in result_bind (case dotenv of None \<Rightarrow> Inr [] | Some f \<Rightarrow> parseDotEnv euid f)
           (\<lambda>dot. Inr (merge_env procEnv (merge_env dot base), map fst dot @ map fst procEnv)))"

text \<open>The environment part of \<open>PrepareStart\<close>: the control socket is exported, then keys are removed.\<close>

definition export_socket :: "string option \<Rightarrow> env \<Rightarrow> env" where
  "export_socket sock env =
     (case sock of
        None \<Rightarrow> env
      | Some s \<Rightarrow> if map_of env ''GOPHERD_SOCKET'' = None then AList.update ''GOPHERD_SOCKET'' s env else env)"

definition child_env ::
  "nat \<Rightarrow> string list \<Rightarrow> dotenv_open option \<Rightarrow> env \<Rightarrow> bool \<Rightarrow> string option \<Rightarrow> string list \<Rightarrow>
   dotenv_error + env \<times> string list" where
  "child_env euid environ dotenv procEnv passEnv sock removeEnv =
     result_bind (buildEnvMap euid environ dotenv procEnv passEnv)
       (\<lambda>(env, userKeys). Inr (fold AList.delete removeEnv (export_socket sock env),
          filter (\<lambda>k. k \<notin> set removeEnv) userKeys))"

section \<open>Round trip\<close>

definition escape_env :: "char \<Rightarrow> string" where
  "escape_env c =
     (if c = newline then [backslash, CHR ''n'']
      else if c = tab then [backslash, CHR ''t'']
      else if c = carriage_return then [backslash, CHR ''r'']
      else if c = backslash then [backslash, backslash]
      else if c = dquote then [backslash, dquote]
      else [c])"

definition dotenv_quote :: "string \<Rightarrow> string" where
  "dotenv_quote v = [dquote] @ concat (map escape_env v) @ [dquote]"

definition dotenv_text :: "env \<Rightarrow> string" where
  "dotenv_text env = join [newline] (map (\<lambda>(k, v). k @ ''='' @ dotenv_quote v) env)"

lemmas quote_chars = backslash_def dquote_def squote_def

lemma escape_env_cases:
  obtains (plain) "escape_env c = [c]" "c \<noteq> backslash" "c \<noteq> dquote" "c \<noteq> newline"
    | (esc) e where "escape_env c = [backslash, e]"
proof -
  have "escape_env c = [c] \<and> c \<noteq> backslash \<and> c \<noteq> dquote \<and> c \<noteq> newline \<or> (\<exists>e. escape_env c = [backslash, e])"
    by (simp add: escape_env_def)
  then show thesis using plain esc by blast
qed

lemma unescape_plain: "c \<noteq> backslash \<Longrightarrow> unescape_from (c # s) = c # unescape_from s"
  by (cases s) auto

lemma unescape_env_escape: "unescape_from (concat (map escape_env v)) = v"
proof (induction v)
  case (Cons c v)
  have "unescape_from (escape_env c @ s) = c # unescape_from s" for s
    by (auto simp: escape_env_def unescape_plain quote_chars control_chars)
  then show ?case using Cons by simp
qed simp

lemma unescape_no_backslash: "backslash \<notin> set s \<Longrightarrow> unescape_from s = s"
  by (induction s rule: unescape_from.induct) auto

lemma dotenvUnescape_escape: "dotenvUnescapeDouble (concat (map escape_env v)) = v"
  using unescape_env_escape [of v] unescape_no_backslash by (auto simp: dotenvUnescapeDouble_def)

lemma comment_inside_quotes:
  "dotenv_comment False True acc (concat (map escape_env v) @ [dquote]) = acc @ concat (map escape_env v) @ [dquote]"
proof (induction v arbitrary: acc)
  case Nil
  show ?case by (simp add: quote_chars)
next
  case (Cons c v)
  show ?case
  proof (cases rule: escape_env_cases [of c])
    case plain
    then show ?thesis using Cons by simp
  next
    case (esc e)
    then show ?thesis using Cons by simp
  qed
qed

lemma strip_quoted: "stripDotEnvComment (dotenv_quote v) = dotenv_quote v"
  using comment_inside_quotes [of "[dquote]" v]
  by (simp add: stripDotEnvComment_def dotenv_quote_def quote_chars)

lemma dquote_ascii: "ascii_text dquote"
  by (simp add: ascii_text_def dquote_def space1_def)

lemma trim_quoted: "trim_space (dotenv_quote v) = dotenv_quote v"
  by (rule trim_space_ascii) (simp_all add: dotenv_quote_def dquote_ascii)

lemma dotenv_value_quote: "dotenv_value (dotenv_quote v) = v"
proof -
  have "butlast (tl (dotenv_quote v)) = concat (map escape_env v)" by (simp add: dotenv_quote_def butlast_append)
  moreover have "2 \<le> length (dotenv_quote v)" "hd (dotenv_quote v) = dquote" "last (dotenv_quote v) = dquote"
    by (simp_all add: dotenv_quote_def)
  ultimately show ?thesis by (simp add: dotenv_value_def trim_quoted strip_quoted dotenvUnescape_escape)
qed

lemma env_key_ascii: "key_start c \<or> is_digit c \<Longrightarrow> ascii_text c \<and> c \<noteq> CHR ''='' \<and> c \<noteq> CHR ''#'' \<and> c \<noteq> newline"
  by (auto simp: key_start_def is_upper_def is_lower_def is_digit_def ascii_text_def space1_def control_chars less_eq_char_def)

lemma valid_key:
  assumes "IsValidEnvKey k"
  shows "k \<noteq> []" "list_all ascii_text k" "CHR ''='' \<notin> set k" "newline \<notin> set k" "hd k \<noteq> CHR ''#''"
proof -
  obtain c cs where k: "k = c # cs" using assms by (cases k) (auto simp: IsValidEnvKey_def)
  have "list_all (\<lambda>c. key_start c \<or> is_digit c) k" using assms k by (simp add: IsValidEnvKey_def)
  then have "list_all (\<lambda>c. ascii_text c \<and> c \<noteq> CHR ''='' \<and> c \<noteq> CHR ''#'' \<and> c \<noteq> newline) k"
    using env_key_ascii by (auto simp: list_all_iff)
  then show "k \<noteq> []" "list_all ascii_text k" "CHR ''='' \<notin> set k" "newline \<notin> set k" "hd k \<noteq> CHR ''#''"
    using k by (auto simp: list_all_iff)
qed

lemma dotenv_line_assignment:
  assumes "IsValidEnvKey k"
  shows "dotenv_line (k @ ''='' @ dotenv_quote v) = Inr (Some (k, v))"
proof -
  note vk = valid_key [OF assms]
  have t: "trim_space (k @ ''='' @ dotenv_quote v) = k @ ''='' @ dotenv_quote v"
    using vk(1,2) by (intro trim_space_ascii) (auto simp: dotenv_quote_def dquote_ascii list_all_iff hd_append)
  have tk: "trim_space k = k" using vk(1,2) by (intro trim_space_ascii) (auto simp: list_all_iff)
  have "\<not> has_prefix (k @ ''='' @ dotenv_quote v) ''#''" using vk(1,5) by (cases k) (auto simp: has_prefix_iff)
  moreover have "cut_at (CHR ''='') (k @ CHR ''='' # dotenv_quote v) = Some (k, dotenv_quote v)"
    using vk(3) by (rule cut_at_append)
  ultimately show ?thesis using vk(1) assms by (simp add: dotenv_line_def t [simplified] tk Let_def dotenv_value_quote)
qed

lemma dotenv_lines_assignments:
  "list_all (\<lambda>(k, v). IsValidEnvKey k) env \<Longrightarrow>
   dotenv_lines (map (\<lambda>(k, v). k @ ''='' @ dotenv_quote v) env) acc = Inr (merge_env env acc)"
  using dotenv_line_assignment by (induction env arbitrary: acc) (auto simp: merge_env_def)

lemma merge_fresh: "dict_ok (acc @ env) \<Longrightarrow> merge_env env acc = acc @ env"
proof (induction env arbitrary: acc)
  case (Cons e env)
  obtain k v where e: "e = (k, v)" by fastforce
  have "k \<notin> fst ` set acc" using Cons.prems e by (auto simp: dict_ok_def)
  then have "AList.update k v acc = acc @ [(k, v)]" by (induction acc) auto
  then show ?case using Cons.IH [of "acc @ [(k, v)]"] Cons.prems by (simp add: merge_env_def e)
qed (simp add: merge_env_def)

lemma newline_quoted: "newline \<notin> set (dotenv_quote v)"
proof -
  have "newline \<notin> set (escape_env c)" for c by (auto simp: escape_env_def quote_chars newline_def)
  then show ?thesis by (auto simp: dotenv_quote_def quote_chars newline_def)
qed

text \<open>
  C31. Every environment can be written as a dotenv file and is read back as it was: whatever bytes
  the values have, quotes, hashes, line breaks and backslashes included.
\<close>

theorem dotenv_roundtrip:
  assumes "dict_ok env" "list_all (\<lambda>(k, v). IsValidEnvKey k) env" "length (dotenv_text env) \<le> maxDotEnvSize"
    and "uid = 0 \<or> uid = euid" "and mode 2 = 0"
  shows "parseDotEnv euid (Dot_file True uid mode (Some (dotenv_text env))) = Inr env"
proof -
  let ?ls = "map (\<lambda>(k, v). k @ ''='' @ dotenv_quote v) env"
  have bom: "trim_prefix (dotenv_text env) [CHR 0xEF, CHR 0xBB, CHR 0xBF] = dotenv_text env"
  proof (cases env)
    case Nil
    then show ?thesis by (simp add: dotenv_text_def trim_prefix_def has_prefix_def)
  next
    case (Cons e es)
    then obtain k v where e: "e = (k, v)" by fastforce
    then have "k \<noteq> []" "list_all ascii_text k" using valid_key [of k] assms(2) Cons by auto
    then obtain c cs t where "dotenv_text env = (c # cs) @ t" "ascii_text c"
      using Cons e by (cases k; cases es) (auto simp: dotenv_text_def)
    then show ?thesis by (auto simp: trim_prefix_def has_prefix_iff ascii_text_def)
  qed
  have nl: "newline \<notin> set l" if "l \<in> set ?ls" for l
    using that assms(2) valid_key(4) newline_quoted by (fastforce simp: list_all_iff newline_def)
  have "dotenv_lines (split_on newline (dotenv_text env)) [] = Inr env"
  proof (cases "env = []")
    case True
    then show ?thesis by (simp add: dotenv_text_def dotenv_line_def trim_space_def)
  next
    case False
    then have "split_on newline (dotenv_text env) = ?ls" unfolding dotenv_text_def by (intro split_on_join) (auto simp: list_all_iff nl)
    then show ?thesis using dotenv_lines_assignments [OF assms(2), of "[]"] merge_fresh [of "[]" env] assms(1) by simp
  qed
  then show ?thesis using assms(3-5) bom by (auto simp: parseDotEnv_def)
qed

theorem dotenv_roundtrip_witness:
  "parseDotEnv 0 (Dot_file True 0 416 (Some (dotenv_text [(''PW'', ''a # b'' @ [dquote, newline, backslash])])))
   = Inr [(''PW'', ''a # b'' @ [dquote, newline, backslash])]"
proof (rule dotenv_roundtrip)
  show "list_all (\<lambda>(k, v). IsValidEnvKey k) [(''PW'', ''a # b'' @ [dquote, newline, backslash])]"
    by (simp add: IsValidEnvKey_def key_start_def is_upper_def less_eq_char_def)
  show "length (dotenv_text [(''PW'', ''a # b'' @ [dquote, newline, backslash])]) \<le> maxDotEnvSize"
    by (simp add: dotenv_text_def dotenv_quote_def escape_env_def quote_chars control_chars maxDotEnvSize_def)
  show "and (416 :: int) 2 = 0" by (simp add: and_int_unfold)
qed (simp_all add: dict_ok_def)

section \<open>Which value a child sees\<close>

lemma map_of_merge: "map_of (merge_env upper env) k = (case map_of (rev upper) k of None \<Rightarrow> map_of env k | Some v \<Rightarrow> Some v)"
proof (induction upper arbitrary: env)
  case (Cons e upper)
  obtain a v where "e = (a, v)" by fastforce
  then show ?case using Cons [of "AList.update a v env"] by (auto simp: merge_env_def map_add_def split: option.splits)
qed (simp add: merge_env_def)

lemma map_of_rev_dict: "dict_ok d \<Longrightarrow> map_of (rev d) = map_of d"
  unfolding dict_ok_def by (rule map_of_eqI) (auto simp: rev_map [symmetric])

lemma map_of_fold_delete: "map_of (fold AList.delete ks env) k = (if k \<in> set ks then None else map_of env k)"
  by (induction ks arbitrary: env) auto

lemma dotenv_lines_dict: "dotenv_lines ls env = Inr r \<Longrightarrow> dict_ok env \<Longrightarrow> dict_ok r"
  by (induction ls env rule: dotenv_lines.induct) (auto split: sum.splits option.splits)

lemma parseDotEnv_dict: "parseDotEnv euid f = Inr dot \<Longrightarrow> dict_ok dot"
  by (auto simp: parseDotEnv_def dest: dotenv_lines_dict split: dotenv_open.splits if_splits option.splits)

lemma child_env_lookup:
  assumes "child_env euid environ dotenv procEnv passEnv sock removeEnv = Inr (env, userKeys)" "dict_ok procEnv"
  shows "\<exists>dot. (case dotenv of None \<Rightarrow> dot = [] | Some f \<Rightarrow> parseDotEnv euid f = Inr dot) \<and>
    map_of env k =
      (if k \<in> set removeEnv then None
       else case map_of procEnv k of Some v \<Rightarrow> Some v
       | None \<Rightarrow> case map_of dot k of Some v \<Rightarrow> Some v
       | None \<Rightarrow> case (if passEnv then map_of (fold environ_entry environ []) k else None) of Some v \<Rightarrow> Some v
       | None \<Rightarrow> if k = ''GOPHERD_SOCKET'' then sock else None) \<and>
    (k \<in> set userKeys \<longleftrightarrow> k \<notin> set removeEnv \<and> (map_of dot k \<noteq> None \<or> map_of procEnv k \<noteq> None))"
proof -
  obtain dot where dot: "(case dotenv of None \<Rightarrow> Inr [] | Some f \<Rightarrow> parseDotEnv euid f) = Inr dot"
      "env = fold AList.delete removeEnv (export_socket sock (merge_env procEnv (merge_env dot
        (if passEnv then fold environ_entry environ [] else []))))"
      "userKeys = filter (\<lambda>k. k \<notin> set removeEnv) (map fst dot @ map fst procEnv)"
    using assms(1) by (auto simp: child_env_def buildEnvMap_def Let_def result_bind_eq_Inr)
  have "dict_ok dot" using dot(1) parseDotEnv_dict by (auto split: option.splits)
  then have m: "map_of (merge_env procEnv (merge_env dot e)) j = (case map_of procEnv j of Some v \<Rightarrow> Some v
      | None \<Rightarrow> case map_of dot j of Some v \<Rightarrow> Some v | None \<Rightarrow> map_of e j)" for e j
    using assms(2) by (simp add: map_of_merge map_of_rev_dict split: option.split)
  have s: "map_of (export_socket sock e) j = (case map_of e j of Some v \<Rightarrow> Some v
      | None \<Rightarrow> if j = ''GOPHERD_SOCKET'' then sock else None)" for e j
    by (auto simp: export_socket_def split: option.split)
  have "map_of env k = (if k \<in> set removeEnv then None
      else map_of (export_socket sock (merge_env procEnv (merge_env dot (if passEnv then fold environ_entry environ [] else [])))) k)"
    unfolding dot(2) by (rule map_of_fold_delete)
  then have e: "map_of env k = (if k \<in> set removeEnv then None
       else case map_of procEnv k of Some v \<Rightarrow> Some v
       | None \<Rightarrow> case map_of dot k of Some v \<Rightarrow> Some v
       | None \<Rightarrow> case (if passEnv then map_of (fold environ_entry environ []) k else None) of Some v \<Rightarrow> Some v
       | None \<Rightarrow> if k = ''GOPHERD_SOCKET'' then sock else None)"
    unfolding s m by (auto split: option.split)
  have "k \<in> set userKeys \<longleftrightarrow> k \<notin> set removeEnv \<and> (map_of dot k \<noteq> None \<or> map_of procEnv k \<noteq> None)"
    unfolding dot(3) using dict_keys [of k dot] dict_keys [of k procEnv] by auto
  then show ?thesis using e dot(1) by (intro exI [of _ dot]) (auto split: option.splits)
qed

text \<open>
  C32. Who wins: a child sees a variable from its own section before the dotenv file's, and the
  dotenv file's before the parent's, which it sees only with pass-env; the control socket's path is
  added only where it was asked for and nobody set the variable; a removed key is never seen.
\<close>

theorem child_env_priority:
  assumes "child_env euid environ dotenv procEnv passEnv sock removeEnv = Inr (env, userKeys)" "dict_ok procEnv"
  shows "\<exists>dot. (case dotenv of None \<Rightarrow> dot = [] | Some f \<Rightarrow> parseDotEnv euid f = Inr dot) \<and>
    map_of env k =
      (if k \<in> set removeEnv then None
       else case map_of procEnv k of Some v \<Rightarrow> Some v
       | None \<Rightarrow> case map_of dot k of Some v \<Rightarrow> Some v
       | None \<Rightarrow> case (if passEnv then map_of (fold environ_entry environ []) k else None) of Some v \<Rightarrow> Some v
       | None \<Rightarrow> if k = ''GOPHERD_SOCKET'' then sock else None) \<and>
    (k \<in> set userKeys \<longleftrightarrow> k \<notin> set removeEnv \<and> (map_of dot k \<noteq> None \<or> map_of procEnv k \<noteq> None))"
  using assms by (rule child_env_lookup)

theorem child_env_priority_witness:
  "\<exists>env ks. child_env 0 [''HOME=/root''] None [(''A'', ''1'')] False None [] = Inr (env, ks) \<and>
     map_of env ''HOME'' = None \<and> map_of env ''A'' = Some ''1''"
proof -
  obtain env ks where c: "child_env 0 [''HOME=/root''] None [(''A'', ''1'')] False None [] = Inr (env, ks)"
    by (simp add: child_env_def buildEnvMap_def)
  show ?thesis
    using c child_env_priority [OF c, of "''HOME''"] child_env_priority [OF c, of "''A''"] by (auto simp: dict_ok_def)
qed

end
