(* ===== verification/Credential.thy ===== *)
theory Credential
  imports Go_Prelude "HOL-Library.Word"
begin

text \<open>
  The user and groups a service runs as: \<open>service/user.go\<close>. The user database is an argument: the
  lookups by name, by id and of a group. The lemma shows that the credential is the one that was
  asked for, with no truncation of a number and no group of the daemon's own.
\<close>

type_synonym uint32 = "32 word"

record Credential =
  Uid :: uint32
  Gid :: uint32
  Groups :: "uint32 list"

text \<open>An entry of the user database; the list of group ids may not be available.\<close>

record user_entry =
  u_Uid :: string
  u_Gid :: string
  u_GroupIds :: "string list option"

record user_db =
  Lookup :: "string \<Rightarrow> user_entry option"
  LookupId :: "string \<Rightarrow> user_entry option"
  LookupGroup :: "string \<Rightarrow> string option"

datatype cred_error =
    Id_out_of_range string int | No_passwd_entry int | Unknown_user string | Unknown_group string | Bad_number string

text \<open>\<open>strconv.ParseUint(s, 10, 32)\<close>.\<close>

definition parse_uint32 :: "string \<Rightarrow> int option" where
  "parse_uint32 s =
     (if s = [] \<or> \<not> list_all is_digit s then None
      else if 2 ^ 32 \<le> digits_val 10 s then None
      else Some (digits_val 10 s))"

definition validateNumericID :: "string \<Rightarrow> int option \<Rightarrow> cred_error option" where
  "validateNumericID field i =
     (case i of
        None \<Rightarrow> None
      | Some n \<Rightarrow> if n < 0 \<or> 4294967295 < n then Some (Id_out_of_range field n) else None)"

definition parse_id :: "string \<Rightarrow> cred_error + int" where
  "parse_id s = (case parse_uint32 s of None \<Rightarrow> Inl (Bad_number s) | Some n \<Rightarrow> Inr n)"

text \<open>The supplementary groups of an entry; ids that do not parse are left out.\<close>

definition group_ids :: "user_entry \<Rightarrow> uint32 list" where
  "group_ids u = (case u_GroupIds u of None \<Rightarrow> [] | Some gs \<Rightarrow> map of_int (List.map_filter parse_uint32 gs))"

text \<open>The user part: the uid, the primary gid where the group is not given, and the groups.\<close>

definition resolve_user ::
  "user_db \<Rightarrow> string \<Rightarrow> int option \<Rightarrow> bool \<Rightarrow> cred_error + (uint32 \<times> uint32 option \<times> uint32 list) option" where
  "resolve_user db userName userID noGroup =
     (case userID of
        Some n \<Rightarrow>
          if noGroup then
            (case LookupId db (itoa n) of
               None \<Rightarrow> Inl (No_passwd_entry n)
             | Some u \<Rightarrow> result_bind (parse_id (u_Gid u)) (\<lambda>g. Inr (Some (of_int n, Some (of_int g), group_ids u))))
          else Inr (Some (of_int n, None, []))
      | None \<Rightarrow>
          if userName = [] then Inr None
          else
            (case Lookup db userName of
               None \<Rightarrow> Inl (Unknown_user userName)
             | Some u \<Rightarrow> result_bind (parse_id (u_Uid u)) (\<lambda>i.
                 if noGroup then result_bind (parse_id (u_Gid u)) (\<lambda>g. Inr (Some (of_int i, Some (of_int g), group_ids u)))
                 else Inr (Some (of_int i, None, group_ids u)))))"

definition resolve_group :: "user_db \<Rightarrow> string \<Rightarrow> int option \<Rightarrow> cred_error + uint32 option" where
  "resolve_group db groupName groupID =
     (case groupID of
        Some g \<Rightarrow> Inr (Some (of_int g))
      | None \<Rightarrow>
          if groupName = [] then Inr None
          else (case LookupGroup db groupName of
                  None \<Rightarrow> Inl (Unknown_group groupName)
                | Some s \<Rightarrow> result_bind (parse_id s) (\<lambda>g. Inr (Some (of_int g)))))"

definition credential_of ::
  "uint32 \<Rightarrow> bool \<Rightarrow> (uint32 \<times> uint32 option \<times> uint32 list) option \<Rightarrow> uint32 option \<Rightarrow> Credential option" where
  "credential_of getuid only_gid usr grp =
     (case usr of
        None \<Rightarrow> (case grp of None \<Rightarrow> None | Some g \<Rightarrow> Some \<lparr>Uid = getuid, Gid = g, Groups = [g]\<rparr>)
      | Some (uid, primary, groups) \<Rightarrow>
          let gid = (case grp of Some g \<Rightarrow> g | None \<Rightarrow> (case primary of Some g \<Rightarrow> g | None \<Rightarrow> 0))
          in Some \<lparr>Uid = uid, Gid = gid, Groups = (if only_gid then [gid] else groups)\<rparr>)"

definition ResolveCredential ::
  "user_db \<Rightarrow> uint32 \<Rightarrow> string \<Rightarrow> string \<Rightarrow> int option \<Rightarrow> int option \<Rightarrow> bool \<Rightarrow> cred_error + Credential option" where
  "ResolveCredential db getuid userName groupName userID groupID strictGroups =
     (case validateNumericID ''user-id'' userID of
        Some e \<Rightarrow> Inl e
      | None \<Rightarrow>
     (case validateNumericID ''group-id'' groupID of
        Some e \<Rightarrow> Inl e
      | None \<Rightarrow>
     (let explicitGroup = (groupID \<noteq> None \<or> groupName \<noteq> [])
      in result_bind (resolve_user db userName userID (\<not> explicitGroup)) (\<lambda>usr.
         result_bind (resolve_group db groupName groupID) (\<lambda>grp.
           Inr (credential_of getuid (strictGroups \<and> explicitGroup) usr grp))))))"

section \<open>The credential is the one asked for\<close>

lemma parse_uint32_range: "parse_uint32 s = Some n \<Longrightarrow> list_all is_digit s \<and> n < 2 ^ 32"
  by (auto simp: parse_uint32_def split: if_splits)

lemma parse_uint32_nonneg: "parse_uint32 s = Some n \<Longrightarrow> 0 \<le> n"
  by (auto simp: parse_uint32_def digits_val_ge split: if_splits)

lemma uint_of_id: "0 \<le> n \<Longrightarrow> n < 2 ^ 32 \<Longrightarrow> uint (of_int n :: uint32) = n"
  by (simp add: uint_word_of_int)

lemma parse_id_uint: "parse_id s = Inr n \<Longrightarrow> uint (of_int n :: uint32) = n"
  using parse_uint32_nonneg parse_uint32_range by (intro uint_of_id) (auto simp: parse_id_def split: option.splits)

text \<open>The ids that the configuration and the user database name.\<close>

definition wanted_uid :: "user_db \<Rightarrow> uint32 \<Rightarrow> string \<Rightarrow> int option \<Rightarrow> int option" where
  "wanted_uid db getuid userName userID =
     (case userID of
        Some n \<Rightarrow> Some n
      | None \<Rightarrow> if userName = [] then Some (uint getuid)
                else Option.bind (Lookup db userName) (\<lambda>u. parse_uint32 (u_Uid u)))"

definition wanted_gid :: "user_db \<Rightarrow> string \<Rightarrow> string \<Rightarrow> int option \<Rightarrow> int option \<Rightarrow> int option" where
  "wanted_gid db userName groupName userID groupID =
     (case groupID of
        Some g \<Rightarrow> Some g
      | None \<Rightarrow>
          if groupName \<noteq> [] then Option.bind (LookupGroup db groupName) parse_uint32
          else Option.bind (case userID of Some n \<Rightarrow> LookupId db (itoa n) | None \<Rightarrow> Lookup db userName)
                 (\<lambda>u. parse_uint32 (u_Gid u)))"

lemma parse_id_Inr: "parse_id s = Inr n \<longleftrightarrow> parse_uint32 s = Some n"
  by (auto simp: parse_id_def split: option.splits)

lemma resolve_group_Some:
  assumes "resolve_group db groupName groupID = Inr (Some g)" "validateNumericID f groupID = None"
  shows "wanted_gid db userName groupName userID groupID = Some (uint g)"
proof (cases groupID)
  case None
  then show ?thesis using assms parse_id_uint
    by (auto simp: resolve_group_def wanted_gid_def result_bind_eq_Inr parse_id_Inr split: if_splits option.splits)
next
  case (Some n)
  then show ?thesis using assms uint_of_id [of n]
    by (auto simp: resolve_group_def wanted_gid_def validateNumericID_def split: if_splits)
qed

lemma resolve_user_Some:
  assumes "resolve_user db userName userID noGroup = Inr (Some (uid, primary, gs))" "validateNumericID f userID = None"
  shows "wanted_uid db getuid userName userID = Some (uint uid) \<and>
    (noGroup \<longrightarrow> (\<exists>g. primary = Some g \<and> wanted_gid db userName [] userID None = Some (uint g)))"
proof (cases userID)
  case None
  then show ?thesis using assms parse_id_uint
    by (auto simp: resolve_user_def wanted_uid_def wanted_gid_def result_bind_eq_Inr parse_id_Inr split: if_splits option.splits)
next
  case (Some n)
  then have "uint (of_int n :: uint32) = n" using assms(2) by (intro uint_of_id) (auto simp: validateNumericID_def split: if_splits)
  then show ?thesis using Some assms parse_id_uint
    by (auto simp: resolve_user_def wanted_uid_def wanted_gid_def result_bind_eq_Inr parse_id_Inr split: if_splits option.splits)
qed

text \<open>
  C33. Privileges are dropped to exactly what was asked for: when a credential is returned its user
  id is the configured number or that of the configured user, without truncation, its group id the
  explicit group's or the user's primary group's and never the daemon's own, and a service with only
  a group, or with strict groups, has no other group; no credential is returned exactly when neither
  user nor group is given.
\<close>

theorem credential_faithful:
  assumes "ResolveCredential db getuid userName groupName userID groupID strictGroups = Inr r"
  shows "(case r of
      None \<Rightarrow> userID = None \<and> userName = [] \<and> groupID = None \<and> groupName = []
    | Some c \<Rightarrow> wanted_uid db getuid userName userID = Some (uint (Uid c)) \<and>
        wanted_gid db userName groupName userID groupID = Some (uint (Gid c)) \<and>
        (userID = None \<and> userName = [] \<or> strictGroups \<and> (groupID \<noteq> None \<or> groupName \<noteq> []) \<longrightarrow> Groups c = [Gid c]))"
proof -
  define ex where "ex = (groupID \<noteq> None \<or> groupName \<noteq> [])"
  have v: "validateNumericID ''user-id'' userID = None" "validateNumericID ''group-id'' groupID = None"
    using assms by (auto simp: ResolveCredential_def split: option.splits)
  obtain usr grp where u: "resolve_user db userName userID (\<not> ex) = Inr usr" "resolve_group db groupName groupID = Inr grp"
    and r: "r = credential_of getuid (strictGroups \<and> ex) usr grp"
    using assms v by (simp add: ResolveCredential_def Let_def result_bind_eq_Inr ex_def) blast
  have g: "grp = None \<longleftrightarrow> \<not> ex" using u(2) by (auto simp: resolve_group_def ex_def result_bind_eq_Inr split: option.splits if_splits)
  have n: "usr = None \<longleftrightarrow> userID = None \<and> userName = []"
    using u(1) by (auto simp: resolve_user_def result_bind_eq_Inr split: option.splits if_splits)
  have gid: "wanted_gid db userName groupName userID groupID = Some (uint x)" if "grp = Some x" for x
    using resolve_group_Some u(2) v(2) that by blast
  show ?thesis
  proof (cases usr)
    case None
    then show ?thesis using r n g gid by (auto simp: credential_of_def ex_def wanted_uid_def split: option.split)
  next
    case (Some t)
    obtain uid primary gs where t: "t = (uid, primary, gs)" by (cases t) auto
    have w: "wanted_uid db getuid userName userID = Some (uint uid)"
        "\<not> ex \<longrightarrow> (\<exists>p. primary = Some p \<and> wanted_gid db userName [] userID None = Some (uint p))"
      using resolve_user_Some [of db userName userID "\<not> ex" uid primary gs] u(1) v(1) Some t by auto
    show ?thesis
    proof (cases grp)
      case None
      then show ?thesis using Some t r w n g by (auto simp: credential_of_def ex_def Let_def)
    next
      case (Some x)
      then show ?thesis using \<open>usr = Some t\<close> t r w n g gid by (auto simp: credential_of_def ex_def Let_def)
    qed
  qed
qed

theorem credential_faithful_witness:
  "\<exists>c. ResolveCredential \<lparr>Lookup = (\<lambda>n. None), LookupId = (\<lambda>n. None), LookupGroup = (\<lambda>n. None)\<rparr> 0
      [] [] (Some 1000) (Some 100) True = Inr (Some c) \<and> uint (Uid c) = 1000 \<and> uint (Gid c) = 100 \<and> Groups c = [Gid c]"
proof -
  let ?db = "\<lparr>Lookup = (\<lambda>n. None), LookupId = (\<lambda>n. None), LookupGroup = (\<lambda>n. None)\<rparr>"
  obtain c where c: "ResolveCredential ?db 0 [] [] (Some 1000) (Some 100) True = Inr (Some c)"
    by (simp add: ResolveCredential_def validateNumericID_def resolve_user_def resolve_group_def credential_of_def Let_def)
  show ?thesis using c credential_faithful [OF c] by (auto simp: wanted_uid_def wanted_gid_def)
qed

text \<open>The largest id that passes is the one that stands for no change: as a 32-bit number it is -1.\<close>

lemma largest_id_is_minus_one:
  "\<exists>c. ResolveCredential db getuid [] [] (Some 4294967295) (Some 100) strict = Inr (Some c) \<and> Uid c = - 1"
  by (simp add: ResolveCredential_def validateNumericID_def resolve_user_def resolve_group_def credential_of_def Let_def)

end
