(* ===== verification/Service.thy ===== *)
theory Service
  imports Cron Signals Go_Duration Prefix_Writer
begin

text \<open>
  Services: the configuration of a process, the service built from it and the life of its instances,
  from \<open>service/service.go\<close> and \<open>service/condition.go\<close>, with \<open>internal/backoff/backoff.go\<close>.

  The signals that a service sends are the results of its operations. Times are in nanoseconds and
  \<open>time.Now()\<close> is an argument, as are the answers of the kernel: whether the notify socket and the
  pipes can be made, the pid of the fork, whether a process group is alive. The channels that \<open>Done\<close>
  hands out are the list \<open>dones\<close> with a flag for each that tells whether it is closed; closing one
  twice would panic, which is \<^const>\<open>None\<close>.
\<close>

section \<open>Configuration\<close>

datatype ExitAction = ActionRestart | ActionShutdown | ActionSuccessShutdown | ActionFailureShutdown | ActionIgnore

definition action_names :: "(string \<times> ExitAction) list" where
  "action_names =
     [(''restart'', ActionRestart), (''shutdown'', ActionShutdown), (''success-shutdown'', ActionSuccessShutdown),
      (''failure-shutdown'', ActionFailureShutdown), (''ignore'', ActionIgnore)]"

definition ParseExitAction :: "string \<Rightarrow> ExitAction \<Rightarrow> string + ExitAction" where
  "ParseExitAction s defaultAction =
     (case map_of action_names s of
        Some a \<Rightarrow> Inr a
      | None \<Rightarrow> if s = [] then Inr defaultAction else Inl s)"

definition ValidateExitAction :: "string \<Rightarrow> bool" where
  "ValidateExitAction s = (s = [] \<or> map_of action_names s \<noteq> None)"

definition DefaultKillDelay :: duration where "DefaultKillDelay = 10000000000"

record Process =
  p_UserID :: "int option"
  p_GroupID :: "int option"
  p_Environment :: "(string \<times> string) list"
  p_OnCheckFailure :: "(string \<times> string) list"
  p_PassEnv :: "bool option"
  p_LogCapture :: "bool option"
  p_ExportSocket :: "bool option"
  p_Name :: string
  p_Command :: string
  p_WorkingDir :: string
  p_User :: string
  p_Group :: string
  p_Startup :: string
  p_StopSignal :: string
  p_KillDelay :: string
  p_OnSuccess :: string
  p_OnFailure :: string
  p_BackoffDelay :: string
  p_BackoffLimit :: string
  p_ReadyCheck :: string
  p_ReadyTimeout :: string
  p_StartupTimeout :: string
  p_Schedule :: string
  p_ConditionFileExists :: string
  p_ConditionFileMissing :: string
  p_Umask :: string
  p_DotEnv :: string
  p_Prefix :: string
  p_SDNotifyTimeout :: string
  p_ParentDeathSignal :: string
  p_ExitCodeMap :: "(int \<times> int) list"
  p_SignalRewrite :: "(string \<times> string) list"
  p_Args :: "string list"
  p_After :: "string list"
  p_Before :: "string list"
  p_Requires :: "string list"
  p_RemoveEnv :: "string list"
  p_BackoffFactor :: float64
  p_UseEntrypointArgs :: bool
  p_SDNotify :: bool
  p_StrictGroups :: bool
  p_DotEnvFollow :: bool
  p_RestartWithDependents :: bool

record Backoff =
  bo_delay :: duration
  bo_factor :: float64
  bo_Limit :: duration
  bo_atLimit :: bool
  bo_attempt :: int

definition backoff_New :: "duration \<Rightarrow> float64 \<Rightarrow> duration \<Rightarrow> Backoff" where
  "backoff_New delay factor limit =
     \<lparr>bo_delay = (if delay \<le> 0 then 500000000 else delay),
      bo_factor = (case factor of Finite x \<Rightarrow> if x \<le> 0 then Finite 2 else factor | _ \<Rightarrow> Finite 2),
      bo_Limit = (if limit \<le> 0 then 30000000000 else limit), bo_atLimit = False, bo_attempt = 0\<rparr>"

definition backoff_Reset :: "Backoff \<Rightarrow> Backoff" where
  "backoff_Reset b = b\<lparr>bo_attempt := 0, bo_atLimit := False\<rparr>"

record FileConditions =
  Exists :: string
  Missing :: string

definition Process_FileConditions :: "Process \<Rightarrow> FileConditions" where
  "Process_FileConditions p = \<lparr>Exists = p_ConditionFileExists p, Missing = p_ConditionFileMissing p\<rparr>"

text \<open>\<open>stat\<close> answers whether the path exists, or the text of an error other than its absence.\<close>

datatype condition_reason =
    Exists_error string | Exists_missing string | Missing_error string | Missing_exists string

definition Unmet :: "(string \<Rightarrow> string + bool) \<Rightarrow> FileConditions \<Rightarrow> condition_reason option" where
  "Unmet stat c =
     (case (if Exists c = [] then None
            else case stat (Exists c) of
              Inl e \<Rightarrow> Some (Exists_error e)
            | Inr there \<Rightarrow> if there then None else Some (Exists_missing (Exists c))) of
        Some r \<Rightarrow> Some r
      | None \<Rightarrow>
          if Missing c = [] then None
          else case stat (Missing c) of
            Inl e \<Rightarrow> Some (Missing_error e)
          | Inr there \<Rightarrow> if there then Some (Missing_exists (Missing c)) else None)"

section \<open>Services\<close>

record svc =
  Proc :: Process
  s_Name :: string
  s_Enabled :: bool
  s_Oneshot :: bool
  s_Scheduled :: bool
  s_Schedule :: "Schedule option"
  stopSignal :: int
  killDelay :: duration
  s_OnSuccess :: ExitAction
  s_OnFailure :: ExitAction
  s_Backoff :: Backoff
  s_Requires :: "string list"
  s_OnCheckFailure :: "(string \<times> ExitAction) list"
  s_LogCapture :: bool
  s_Stdout :: PrefixWriter
  s_Stderr :: PrefixWriter
  conds :: "FileConditions option"
  cmd :: bool
  s_Pid :: int
  running :: bool
  stopped :: bool
  startedAt :: int
  dones :: "bool list"
  done_chan :: "nat option"
  killTimer :: "(int \<times> int) option"
  killPgid :: int
  killDeadline :: int
  sdNotifyListener :: bool
  capture :: bool

datatype svc_error =
    Bad_schedule cron_error | Bad_signal string | Bad_kill_delay string | Negative_kill_delay string
  | Bad_backoff_delay string | Bad_backoff_limit string | Bad_check_action string string
  | Bad_on_success string | Bad_on_failure string

definition DefaultPrefix :: string where "DefaultPrefix = ''service timestamp''"

definition parse_delay :: "(string \<Rightarrow> svc_error) \<Rightarrow> duration \<Rightarrow> string \<Rightarrow> svc_error + duration" where
  "parse_delay err dflt s =
     (if s = [] then Inr dflt else case ParseDuration s of None \<Rightarrow> Inl (err s) | Some d \<Rightarrow> Inr d)"

fun check_actions :: "(string \<times> string) list \<Rightarrow> svc_error + (string \<times> ExitAction) list" where
  "check_actions [] = Inr []"
| "check_actions ((c, a) # cs) =
     (case ParseExitAction a ActionRestart of
        Inl e \<Rightarrow> Inl (Bad_check_action c e)
      | Inr act \<Rightarrow> result_bind (check_actions cs) (\<lambda>m. Inr ((c, act) # m)))"

definition new_svc ::
  "Process \<Rightarrow> string \<Rightarrow> Schedule option \<Rightarrow> int \<Rightarrow> duration \<Rightarrow> duration \<Rightarrow> duration \<Rightarrow> (string \<times> ExitAction) list \<Rightarrow>
   ExitAction \<Rightarrow> ExitAction \<Rightarrow> svc" where
  "new_svc p globalPrefix sch sig kd bd bl acts succ_act fail_act =
     (let name = (if p_Name p = [] then p_Command p else p_Name p);
          prefix0 = (if p_Prefix p \<noteq> [] then p_Prefix p else globalPrefix);
          fmt = (if prefix0 = [] then DefaultPrefix else prefix0)
      in \<lparr>Proc = p, s_Name = name, s_Enabled = (p_Startup p \<noteq> ''disabled''), s_Oneshot = (p_Startup p = ''oneshot''),
           s_Scheduled = (p_Startup p = ''scheduled''), s_Schedule = sch, stopSignal = sig, killDelay = kd,
           s_OnSuccess = succ_act, s_OnFailure = fail_act, s_Backoff = backoff_New bd (p_BackoffFactor p) bl,
           s_Requires = remdups (p_Requires p), s_OnCheckFailure = acts, s_LogCapture = (p_LogCapture p = Some True),
           s_Stdout = NewPrefixWriter name fmt, s_Stderr = NewPrefixWriter name fmt, conds = None,
           cmd = False, s_Pid = 0, running = False, stopped = False, startedAt = 0, dones = [], done_chan = None,
           killTimer = None, killPgid = 0, killDeadline = 0, sdNotifyListener = False, capture = False\<rparr>)"

text \<open>
  \<open>New\<close>. The outer option is the search of \<open>cron.Parse\<close>. The map \<open>on-check-failure\<close> is walked in
  the order of its association list, which decides only which of several errors is reported.
\<close>

definition svc_New :: "Process \<Rightarrow> string \<Rightarrow> (svc_error + svc) option" where
  "svc_New p globalPrefix =
     map_option (\<lambda>sched.
       result_bind sched (\<lambda>sch.
       result_bind (case ParseSignal (p_StopSignal p) of None \<Rightarrow> Inl (Bad_signal (p_StopSignal p)) | Some s \<Rightarrow> Inr s) (\<lambda>sig.
       result_bind (parse_delay Bad_kill_delay DefaultKillDelay (p_KillDelay p)) (\<lambda>kd.
       result_bind (if kd < 0 then Inl (Negative_kill_delay (p_KillDelay p)) else Inr kd) (\<lambda>kd.
       result_bind (parse_delay Bad_backoff_delay 0 (p_BackoffDelay p)) (\<lambda>bd.
       result_bind (parse_delay Bad_backoff_limit 0 (p_BackoffLimit p)) (\<lambda>bl.
       result_bind (check_actions (p_OnCheckFailure p)) (\<lambda>acts.
       result_bind (map_sum Bad_on_success id (ParseExitAction (p_OnSuccess p) ActionShutdown)) (\<lambda>succ_act.
       result_bind (map_sum Bad_on_failure id (ParseExitAction (p_OnFailure p) ActionShutdown)) (\<lambda>fail_act.
         Inr (new_svc p globalPrefix sch sig kd bd bl acts succ_act fail_act)))))))))))
     (if p_Startup p = ''scheduled'' then map_option (map_sum Bad_schedule Some) (Cron.Parse (p_Schedule p)) else Some (Inr None))"

definition UnmetCondition :: "(string \<Rightarrow> string + bool) \<Rightarrow> svc \<Rightarrow> condition_reason option" where
  "UnmetCondition stat s = Unmet stat (case conds s of None \<Rightarrow> Process_FileConditions (Proc s) | Some c \<Rightarrow> c)"

definition SetFileConditions :: "FileConditions \<Rightarrow> svc \<Rightarrow> svc" where
  "SetFileConditions c s = s\<lparr>conds := Some c\<rparr>"

definition RemapExitCode :: "svc \<Rightarrow> int \<Rightarrow> int" where
  "RemapExitCode s code = (case map_of (p_ExitCodeMap (Proc s)) code of None \<Rightarrow> code | Some c \<Rightarrow> c)"

definition RewriteSignal :: "svc \<Rightarrow> int \<Rightarrow> int option" where
  "RewriteSignal s sig =
     (case map_of (p_SignalRewrite (Proc s)) (SignalName sig) of
        None \<Rightarrow> None
      | Some to \<Rightarrow> (case ParseSignal to of None \<Rightarrow> Some sig | Some sig' \<Rightarrow> Some sig'))"

definition ParseUmask :: "string \<Rightarrow> int option" where
  "ParseUmask s = (case parse_octal32 s of None \<Rightarrow> None | Some n \<Rightarrow> if 511 < n then None else Some n)"

definition UmaskShimFlag :: string where "UmaskShimFlag = ''--umask-shim''"

datatype shim = Not_shim | Shim_usage | Shim_bad_mask string | Shim_exec int string "string list"

definition RunUmaskShim :: "string list \<Rightarrow> shim" where
  "RunUmaskShim argv =
     (if length argv < 2 \<or> argv ! 1 \<noteq> UmaskShimFlag then Not_shim
      else if length argv < 5 then Shim_usage
      else case ParseUmask (argv ! 2) of
        None \<Rightarrow> Shim_bad_mask (argv ! 2)
      | Some n \<Rightarrow> Shim_exec n (argv ! 3) (drop 4 argv))"

text \<open>
  The argument vector of the child: with a mask the daemon's own binary \<open>selfExe\<close> runs first.
  \<open>look\<close> is \<open>exec.LookPath\<close>, \<open>join_path\<close> is \<open>filepath.Join\<close>.
\<close>

definition buildCommand ::
  "string option \<Rightarrow> (string \<Rightarrow> string option) \<Rightarrow> (string \<Rightarrow> string \<Rightarrow> string) \<Rightarrow> svc \<Rightarrow> string list \<Rightarrow> string list option" where
  "buildCommand selfExe look join_path s args =
     (let p = Proc s
      in if p_Umask p = [] then Some (p_Command p # args)
         else case selfExe of
           None \<Rightarrow> None
         | Some self \<Rightarrow>
             let name = (if contains (p_Command p) ''/'' \<and> \<not> has_prefix (p_Command p) ''/'' \<and> p_WorkingDir p \<noteq> []
                         then join_path (p_WorkingDir p) (p_Command p) else p_Command p)
             in map_option (\<lambda>path. [self, UmaskShimFlag, p_Umask p, path, p_Command p] @ args) (look name))"

section \<open>The life of an instance\<close>

text \<open>A signal to a process group.\<close>

datatype kill = Kill int int

record StartPlan =
  sdNotify :: bool

datatype start_error = Listen_error | Capture_error | Spawn_error

definition releaseCapture :: "svc \<Rightarrow> svc" where
  "releaseCapture s = s\<lparr>capture := False\<rparr>"

definition FinishStart :: "int \<Rightarrow> bool \<Rightarrow> bool \<Rightarrow> int option \<Rightarrow> StartPlan \<Rightarrow> svc \<Rightarrow> (start_error + int) \<times> svc" where
  "FinishStart now listen_ok pipes_ok spawn plan s0 =
     (let s1 = (if sdNotify plan then s0\<lparr>sdNotifyListener := listen_ok\<rparr> else s0);
          failed = (if sdNotify plan then s1\<lparr>sdNotifyListener := False\<rparr> else s1)
      in if sdNotify plan \<and> \<not> listen_ok then (Inl Listen_error, s1)
         else if s_LogCapture s0 \<and> \<not> pipes_ok then (Inl Capture_error, failed)
         else case spawn of
           None \<Rightarrow> (Inl Spawn_error, failed)
         | Some pid \<Rightarrow>
             (Inr pid, (releaseCapture s1)\<lparr>capture := s_LogCapture s0, cmd := True, s_Pid := pid,
                done_chan := Some (length (dones s1)), dones := dones s1 @ [False],
                running := True, stopped := False, startedAt := now\<rparr>))"

definition svc_Stop :: "int \<Rightarrow> svc \<Rightarrow> kill list \<times> svc" where
  "svc_Stop now s =
     (if \<not> running s \<or> \<not> cmd s then ([], s)
      else
        let s1 = s\<lparr>stopped := True\<rparr>; pid = s_Pid s
        in if pid \<le> 0 then ([], s1)
           else ([Kill pid (stopSignal s)],
                 if 0 < killDelay s
                 then s1\<lparr>killPgid := pid, killDeadline := now + killDelay s, killTimer := Some (pid, now + killDelay s)\<rparr>
                 else s1))"

text \<open>The pending timer fires; \<open>alive\<close> is the answer of the probe of the group.\<close>

definition kill_timer_fires :: "bool \<Rightarrow> svc \<Rightarrow> kill list \<times> svc" where
  "kill_timer_fires alive s =
     (case killTimer s of
        None \<Rightarrow> ([], s)
      | Some (kpid, t) \<Rightarrow> (if kpid \<le> 0 \<or> \<not> alive then [] else [Kill kpid SIGKILL], s\<lparr>killTimer := None\<rparr>))"

definition svc_Signal :: "int \<Rightarrow> svc \<Rightarrow> kill list" where
  "svc_Signal sig s = (if \<not> running s \<or> \<not> cmd s \<or> s_Pid s \<le> 0 then [] else [Kill (s_Pid s) sig])"

text \<open>\<^const>\<open>None\<close> is the panic of closing a channel again.\<close>

definition close_chan :: "nat \<Rightarrow> bool list \<Rightarrow> bool list option" where
  "close_chan i cs = (if i < length cs \<and> \<not> cs ! i then Some (cs[i := True]) else None)"

definition MarkExited :: "int \<Rightarrow> svc \<Rightarrow> (duration \<times> svc) option" where
  "MarkExited now s =
     (let s1 = s\<lparr>running := False, s_Pid := 0\<rparr>;
          closed = (case done_chan s of
                      None \<Rightarrow> Some s1
                    | Some i \<Rightarrow> map_option (\<lambda>cs. s1\<lparr>dones := cs, done_chan := None\<rparr>) (close_chan i (dones s)))
      in map_option (\<lambda>s2. (now - startedAt s, releaseCapture (s2\<lparr>sdNotifyListener := False\<rparr>))) closed)"

definition WasStopped :: "svc \<Rightarrow> bool" where
  "WasStopped s = stopped s"

definition IsRunning :: "svc \<Rightarrow> bool" where
  "IsRunning s = running s"

text \<open>Whether a receive on the channel of \<open>Done\<close> returns: a channel that is not there is closed.\<close>

definition done_closed :: "svc \<Rightarrow> bool" where
  "done_closed s = (case done_chan s of None \<Rightarrow> True | Some i \<Rightarrow> dones s ! i)"

section \<open>Signals reach only the service's own groups\<close>

text \<open>
  A run of a service: the calls of the daemon and the timer, in any order. The daemon starts a
  service only when it is not running and marks it as exited only when it is.
\<close>

datatype life_event = Spawned int | Killed int int | Exited int

datatype life_op =
    Op_start int bool bool "int option" StartPlan
  | Op_stop int
  | Op_signal int
  | Op_exit int
  | Op_fire bool

definition kill_events :: "kill list \<Rightarrow> life_event list" where
  "kill_events ks = map (\<lambda>k. case k of Kill g sig \<Rightarrow> Killed g sig) ks"

fun life_step :: "life_op \<Rightarrow> svc \<times> life_event list \<Rightarrow> (svc \<times> life_event list) option" where
  "life_step (Op_start now listen_ok pipes_ok spawn plan) (s, es) =
     (if running s then Some (s, es)
      else case FinishStart now listen_ok pipes_ok spawn plan s of
        (Inl e, s') \<Rightarrow> Some (s', es)
      | (Inr pid, s') \<Rightarrow> Some (s', es @ [Spawned pid]))"
| "life_step (Op_stop now) (s, es) = Some (snd (svc_Stop now s), es @ kill_events (fst (svc_Stop now s)))"
| "life_step (Op_signal sig) (s, es) = Some (s, es @ kill_events (svc_Signal sig s))"
| "life_step (Op_exit now) (s, es) =
     (if running s then map_option (\<lambda>(d, s'). (s', es @ [Exited (s_Pid s)])) (MarkExited now s) else Some (s, es))"
| "life_step (Op_fire alive) (s, es) =
     Some (snd (kill_timer_fires alive s), es @ kill_events (fst (kill_timer_fires alive s)))"

fun life_run :: "life_op list \<Rightarrow> svc \<times> life_event list \<Rightarrow> (svc \<times> life_event list) option" where
  "life_run [] st = Some st"
| "life_run (op # ops) st = Option.bind (life_step op st) (life_run ops)"

text \<open>The kernel hands out positive pids.\<close>

fun op_ok :: "life_op \<Rightarrow> bool" where
  "op_ok (Op_start now listen_ok pipes_ok (Some pid) plan) = (0 < pid)"
| "op_ok op = True"

text \<open>The instance that is alive after a history.\<close>

fun alive_after :: "life_event \<Rightarrow> int option \<Rightarrow> int option" where
  "alive_after (Spawned pid) cur = Some pid"
| "alive_after (Exited pid) cur = None"
| "alive_after (Killed g sig) cur = cur"

definition current :: "life_event list \<Rightarrow> int option" where
  "current es = fold alive_after es None"

definition was_signalled :: "life_event list \<Rightarrow> int \<Rightarrow> bool" where
  "was_signalled es g = (\<exists>es1 sig es2. es = es1 @ Killed g sig # es2 \<and> current es1 = Some g)"

definition own_signals :: "life_event list \<Rightarrow> bool" where
  "own_signals es =
     (\<forall>es1 g sig es2. es = es1 @ Killed g sig # es2 \<longrightarrow>
        0 < g \<and> (current es1 = Some g \<or> sig = SIGKILL \<and> was_signalled es1 g))"

definition chans_ok :: "svc \<Rightarrow> bool" where
  "chans_ok s =
     (if running s then \<exists>n. done_chan s = Some n \<and> dones s = replicate n True @ [False]
      else done_chan s = None \<and> list_all id (dones s))"

definition life_inv :: "svc \<times> life_event list \<Rightarrow> bool" where
  "life_inv = (\<lambda>(s, es).
     (if running s then cmd s \<and> 0 < s_Pid s \<and> current es = Some (s_Pid s) else s_Pid s = 0 \<and> current es = None) \<and>
     chans_ok s \<and> own_signals es \<and>
     (case killTimer s of None \<Rightarrow> True | Some (k, t) \<Rightarrow> 0 < k \<and> was_signalled es k))"

lemma current_snoc [simp]: "current (es @ [e]) = alive_after e (current es)"
  by (simp add: current_def)

lemma was_signalled_append: "was_signalled es g \<Longrightarrow> was_signalled (es @ es') g"
proof -
  assume "was_signalled es g"
  then obtain es1 sig es2 where "es = es1 @ Killed g sig # es2" "current es1 = Some g"
    unfolding was_signalled_def by blast
  then have "es @ es' = es1 @ Killed g sig # (es2 @ es') \<and> current es1 = Some g" by simp
  then show "was_signalled (es @ es') g" unfolding was_signalled_def by blast
qed

lemma was_signalled_now: "current es = Some g \<Longrightarrow> was_signalled (es @ [Killed g sig]) g"
  unfolding was_signalled_def by blast

lemma own_signals_other: "own_signals es \<Longrightarrow> (\<And>g sig. e \<noteq> Killed g sig) \<Longrightarrow> own_signals (es @ [e])"
  unfolding own_signals_def
proof (intro allI impI)
  fix es1 g sig es2
  assume own: "\<forall>es1 g sig es2. es = es1 @ Killed g sig # es2 \<longrightarrow>
        0 < g \<and> (current es1 = Some g \<or> sig = SIGKILL \<and> was_signalled es1 g)"
    and ne: "\<And>g sig. e \<noteq> Killed g sig" and eq: "es @ [e] = es1 @ Killed g sig # es2"
  have "es2 \<noteq> []" using ne eq by (cases es2 rule: rev_cases) auto
  then obtain b x where "es2 = b @ [x]" by (cases es2 rule: rev_cases) auto
  then have "es = es1 @ Killed g sig # b" using eq by (simp flip: append_assoc append_Cons)
  then show "0 < g \<and> (current es1 = Some g \<or> sig = SIGKILL \<and> was_signalled es1 g)" using own by blast
qed

lemma own_signals_kill:
  assumes "own_signals es" "0 < g" "current es = Some g \<or> sig = SIGKILL \<and> was_signalled es g"
  shows "own_signals (es @ [Killed g sig])"
  unfolding own_signals_def
proof (intro allI impI)
  fix es1 h sg es2
  assume eq: "es @ [Killed g sig] = es1 @ Killed h sg # es2"
  show "0 < h \<and> (current es1 = Some h \<or> sg = SIGKILL \<and> was_signalled es1 h)"
  proof (cases es2 rule: rev_cases)
    case Nil
    then show ?thesis using eq assms by auto
  next
    case (snoc b x)
    then have "es = es1 @ Killed h sg # b" using eq by (simp flip: append_assoc append_Cons)
    then show ?thesis using assms(1) unfolding own_signals_def by blast
  qed
qed

lemmas life_defs = life_inv_def chans_ok_def kill_events_def

lemma life_inv_start:
  assumes "life_inv (s, es)" "op_ok (Op_start now listen_ok pipes_ok spawn plan)"
  shows "\<exists>st. life_step (Op_start now listen_ok pipes_ok spawn plan) (s, es) = Some st \<and> life_inv st"
proof (cases "running s")
  case False
  have r: "replicate (length (dones s)) True = dones s" if "list_all id (dones s)"
    using that by (simp add: list_all_iff replicate_length_same)
  show ?thesis
  proof (cases "spawn")
    case None
    then show ?thesis using False assms
      by (auto simp: life_defs FinishStart_def Let_def split: option.splits)
  next
    case (Some pid)
    then show ?thesis using False assms r
      by (auto simp: life_defs FinishStart_def Let_def releaseCapture_def own_signals_other was_signalled_append
          split: option.splits)
  qed
qed (use assms in simp)

lemma life_inv_exit:
  assumes "life_inv (s, es)"
  shows "\<exists>st. life_step (Op_exit now) (s, es) = Some st \<and> life_inv st"
proof (cases "running s")
  case True
  then obtain n where n: "done_chan s = Some n" "dones s = replicate n True @ [False]" using assms by (auto simp: life_defs)
  have "(replicate n True @ [False])[n := True] = replicate n True @ [True]" by (simp add: list_update_append)
  then have "close_chan n (dones s) = Some (replicate n True @ [True])" by (simp add: close_chan_def n nth_append)
  then show ?thesis using True n assms
    by (auto simp: life_defs MarkExited_def Let_def releaseCapture_def own_signals_other was_signalled_append
        list_all_iff split: option.splits)
qed (use assms in simp)

lemma life_inv_step:
  assumes "life_inv st" "op_ok op"
  shows "\<exists>st'. life_step op st = Some st' \<and> life_inv st'"
proof -
  obtain s es where st: "st = (s, es)" by fastforce
  show ?thesis
  proof (cases op)
    case (Op_start now listen_ok pipes_ok spawn plan)
    then show ?thesis using life_inv_start assms st by blast
  next
    case (Op_exit now)
    then show ?thesis using life_inv_exit assms st by blast
  next
    case (Op_stop now)
    then show ?thesis using assms st
      by (auto simp: life_defs svc_Stop_def Let_def own_signals_kill was_signalled_append was_signalled_now
          split: option.splits if_splits)
  next
    case (Op_signal sig)
    then show ?thesis using assms st
      by (auto simp: life_defs svc_Signal_def own_signals_kill was_signalled_append split: option.splits if_splits)
  next
    case (Op_fire alive)
    then show ?thesis using assms st
      by (auto simp: life_defs kill_timer_fires_def own_signals_kill was_signalled_append split: option.splits if_splits)
  qed
qed

lemma life_inv_run:
  "life_inv st \<Longrightarrow> list_all op_ok ops \<Longrightarrow> \<exists>st'. life_run ops st = Some st' \<and> life_inv st'"
proof (induction ops arbitrary: st)
  case (Cons op ops)
  then have "op_ok op" "list_all op_ok ops" by simp_all
  obtain st' where st': "life_step op st = Some st'" "life_inv st'"
    using life_inv_step [OF Cons.prems(1) \<open>op_ok op\<close>] by blast
  show ?case using Cons.IH [OF st'(2) \<open>list_all op_ok ops\<close>] st'(1) by simp
qed simp

definition fresh :: "svc \<Rightarrow> bool" where
  "fresh s = (\<not> running s \<and> s_Pid s = 0 \<and> dones s = [] \<and> done_chan s = None \<and> killTimer s = None)"

lemma fresh_new_svc: "fresh (new_svc p globalPrefix sch sig kd bd bl acts succ_act fail_act)"
  by (simp add: fresh_def new_svc_def Let_def)

lemma fresh_New: "svc_New p globalPrefix = Some (Inr s) \<Longrightarrow> fresh s"
  by (auto simp: svc_New_def result_bind_eq_Inr fresh_new_svc)

lemma life_inv_fresh: "fresh s \<Longrightarrow> life_inv (s, [])"
  by (simp add: fresh_def life_defs own_signals_def current_def)

text \<open>
  C34. Signals stay at home: in every run of a new service, starts that fail and stops and signals at
  any moment included, no channel is closed twice; every signal goes to a positive group id, the one
  of the instance alive at that moment, or it is the late SIGKILL to a group that was signalled while
  its instance was alive; and the channel of \<open>Done\<close> is open exactly while an instance is running.
\<close>

theorem svc_signals_own_groups:
  assumes "svc_New p globalPrefix = Some (Inr s)" "list_all op_ok ops"
  shows "\<exists>s' es. life_run ops (s, []) = Some (s', es) \<and> own_signals es \<and> done_closed s' = (\<not> IsRunning s') \<and>
    current es = (if IsRunning s' then Some (s_Pid s') else None)"
proof -
  obtain s' es where r: "life_run ops (s, []) = Some (s', es)" "life_inv (s', es)"
    using life_inv_run [OF life_inv_fresh [OF fresh_New [OF assms(1)]] assms(2)] by auto
  then have "own_signals es" "current es = (if IsRunning s' then Some (s_Pid s') else None)" "chans_ok s'"
    by (auto simp: life_inv_def IsRunning_def)
  moreover have "done_closed s' = (\<not> IsRunning s')"
    using calculation(3) by (auto simp: chans_ok_def done_closed_def IsRunning_def nth_append split: if_splits)
  ultimately show ?thesis using r(1) by blast
qed

definition plain_process :: Process where
  "plain_process =
     \<lparr>p_UserID = None, p_GroupID = None, p_Environment = [], p_OnCheckFailure = [], p_PassEnv = None, p_LogCapture = None,
      p_ExportSocket = None, p_Name = ''web'', p_Command = ''/bin/web'', p_WorkingDir = [], p_User = [], p_Group = [],
      p_Startup = [], p_StopSignal = [], p_KillDelay = [], p_OnSuccess = [], p_OnFailure = [], p_BackoffDelay = [],
      p_BackoffLimit = [], p_ReadyCheck = [], p_ReadyTimeout = [], p_StartupTimeout = [], p_Schedule = [],
      p_ConditionFileExists = [], p_ConditionFileMissing = [], p_Umask = [], p_DotEnv = [], p_Prefix = [],
      p_SDNotifyTimeout = [], p_ParentDeathSignal = [], p_ExitCodeMap = [], p_SignalRewrite = [], p_Args = [],
      p_After = [], p_Before = [], p_Requires = [], p_RemoveEnv = [], p_BackoffFactor = Finite 0,
      p_UseEntrypointArgs = False, p_SDNotify = False, p_StrictGroups = False, p_DotEnvFollow = False,
      p_RestartWithDependents = False\<rparr>"

definition plain_svc :: svc where
  "plain_svc = new_svc plain_process [] None SIGTERM DefaultKillDelay 0 0 [] ActionShutdown ActionShutdown"

lemma plain_svc_New: "svc_New plain_process [] = Some (Inr plain_svc)"
  by (simp add: svc_New_def plain_process_def plain_svc_def ParseSignal_def trim_space_def parse_delay_def
    DefaultKillDelay_def ParseExitAction_def action_names_def Let_def)

theorem svc_signals_own_groups_witness:
  "\<exists>s' es. life_run [Op_start 0 True True (Some 42) \<lparr>sdNotify = False\<rparr>, Op_stop 1, Op_exit 2, Op_signal 1, Op_fire True]
     (plain_svc, []) = Some (s', es) \<and> own_signals es \<and> done_closed s' = (\<not> IsRunning s')"
  using svc_signals_own_groups [OF plain_svc_New,
    of "[Op_start 0 True True (Some 42) \<lparr>sdNotify = False\<rparr>, Op_stop 1, Op_exit 2, Op_signal 1, Op_fire True]"]
  by (simp del: life_run.simps) blast

text \<open>
  C35. The escalation of a stopped instance is forgotten when the next instance is stopped within the
  kill delay: after start, stop, exit, start and stop the only pending SIGKILL is for the second
  group, and none was sent to the first, so members of the first group that ignore the stop signal
  live on.
\<close>

theorem second_stop_forgets_survivors:
  assumes "svc_New p globalPrefix = Some (Inr s)" "0 < killDelay s" "0 < a" "0 < b"
  shows "\<exists>s'. life_run [Op_start t1 True True (Some a) plan, Op_stop t2, Op_exit t3,
      Op_start t4 True True (Some b) plan, Op_stop t5] (s, []) =
    Some (s', [Spawned a, Killed a (stopSignal s), Exited a, Spawned b, Killed b (stopSignal s)]) \<and>
    killTimer s' = Some (b, t5 + killDelay s)"
proof -
  have "\<not> running s" "dones s = []" using fresh_New [OF assms(1)] by (simp_all add: fresh_def)
  then show ?thesis using assms(2-4)
    by (simp add: FinishStart_def Let_def releaseCapture_def svc_Stop_def MarkExited_def close_chan_def kill_events_def)
qed

theorem second_stop_forgets_survivors_witness:
  "\<exists>s'. life_run [Op_start 0 True True (Some 42) \<lparr>sdNotify = False\<rparr>, Op_stop 1, Op_exit 2,
      Op_start 3 True True (Some 43) \<lparr>sdNotify = False\<rparr>, Op_stop 4] (plain_svc, []) =
    Some (s', [Spawned 42, Killed 42 SIGTERM, Exited 42, Spawned 43, Killed 43 SIGTERM]) \<and>
    killTimer s' = Some (43, 4 + DefaultKillDelay)"
  using second_stop_forgets_survivors [OF plain_svc_New, of 42 43 0 "\<lparr>sdNotify = False\<rparr>" 1 2 3 4]
  by (simp add: plain_svc_def new_svc_def Let_def DefaultKillDelay_def)

end
