(* ===== verification/Start_Plan.thy ===== *)
theory Start_Plan
  imports Template Dotenv Credential Service
begin

text \<open>
  \<open>PrepareStart\<close> of \<open>service/service.go\<close>: what is settled before a child is forked. It composes the
  environment of \<open>Dotenv\<close>, the credential of \<open>Credential\<close>, the limits of \<open>Resource_Limits\<close>, the
  templates of \<open>Template\<close> and the command line of \<open>Service\<close>. What the host answers is a record.

  The lemma shows which command, environment and credential the prepared child has.
\<close>

section \<open>Preparing a start\<close>

record host =
  h_environ :: "string list"
  h_euid :: nat
  h_uid :: uint32
  h_db :: user_db
  h_dotenv :: "string \<Rightarrow> bool \<Rightarrow> dotenv_open"
  h_fs :: fsys
  h_oor :: int
  h_meminfo :: "string option"
  h_mounts :: cgroup_mounts
  h_NumCPU :: int
  h_selfExe :: "string option"
  h_LookPath :: "string \<Rightarrow> string option"

text \<open>The plan: the argument vector, the environment (\<open>None\<close> is inherited) and the attributes of the child.\<close>

record prepared = StartPlan +
  plan_argv :: "string list"
  plan_Env :: "string list option"
  plan_Dir :: string
  plan_Pdeathsig :: "int option"
  plan_Credential :: "Credential option"
  plan_allowedUID :: int

datatype prepare_error =
    Env_failed dotenv_error | Credential_failed cred_error | Template_failed template_error | Command_failed | Pdeath_failed string

definition lift_error :: "('e \<Rightarrow> prepare_error) \<Rightarrow> 'e + 'a \<Rightarrow> prepare_error + 'a" where
  "lift_error f r = map_sum f (\<lambda>a. a) r"

definition is_true :: "bool option \<Rightarrow> bool" where
  "is_true b = (b = Some True)"

definition host_machine :: "host \<Rightarrow> machine" where
  "host_machine h =
     \<lparr>m_fs = h_fs h, m_oor = h_oor h,
      m_MiB = (case memory_available (h_meminfo h) (h_mounts h) of Inl e \<Rightarrow> 0 | Inr n \<Rightarrow> n),
      m_CPUs = cpu_available (h_NumCPU h) (h_mounts h)\<rparr>"

text \<open>The socket path that \<open>export-socket\<close> asks for.\<close>

definition exported_socket :: "Process \<Rightarrow> string \<Rightarrow> string option" where
  "exported_socket p controlSocket = (if is_true (p_ExportSocket p) \<and> controlSocket \<noteq> [] then Some controlSocket else None)"

definition process_env :: "host \<Rightarrow> string \<Rightarrow> Process \<Rightarrow> dotenv_error + env \<times> string list" where
  "process_env h controlSocket p =
     child_env (h_euid h) (h_environ h)
       (if p_DotEnv p \<noteq> [] then Some (h_dotenv h (p_DotEnv p) (p_DotEnvFollow p)) else None)
       (p_Environment p) (is_true (p_PassEnv p)) (exported_socket p controlSocket) (p_RemoveEnv p)"

definition user_template :: "string list \<Rightarrow> string \<times> string \<Rightarrow> bool" where
  "user_template userKeys kv = (fst kv \<in> set userKeys \<and> contains (snd kv) ''{{'')"

text \<open>The expanded values go back to the places they were taken from.\<close>

fun refill :: "string list \<Rightarrow> env \<Rightarrow> string list \<Rightarrow> env" where
  "refill userKeys [] expanded = []"
| "refill userKeys (kv # env) expanded =
     (if user_template userKeys kv then (fst kv, hd expanded) # refill userKeys env (tl expanded)
      else kv # refill userKeys env expanded)"

definition explicit_env :: "Process \<Rightarrow> string \<Rightarrow> bool" where
  "explicit_env p controlSocket =
     (\<not> is_true (p_PassEnv p) \<or> p_DotEnv p \<noteq> [] \<or> 0 < length (p_Environment p) \<or> 0 < length (p_RemoveEnv p) \<or>
      p_SDNotify p \<or> exported_socket p controlSocket \<noteq> None)"

definition expand_env :: "machine \<Rightarrow> env \<Rightarrow> string list \<Rightarrow> template_error + string list" where
  "expand_env m env userKeys =
     result_bind (expandTemplates m (map_of env) (map snd (filter (user_template userKeys) env))) (\<lambda>(expanded, _).
       Inr (map (\<lambda>(k, v). k @ ''='' @ v) (refill userKeys env expanded)))"

definition parent_death :: "Process \<Rightarrow> prepare_error + int option" where
  "parent_death p =
     (if p_ParentDeathSignal p = [] then Inr None
      else case ParseSignal (p_ParentDeathSignal p) of
        None \<Rightarrow> Inl (Pdeath_failed (p_ParentDeathSignal p))
      | Some sig \<Rightarrow> Inr (Some sig))"

definition plan_of ::
  "Process \<Rightarrow> string list \<Rightarrow> string list option \<Rightarrow> int option \<Rightarrow> Credential option \<Rightarrow> int \<Rightarrow> prepared" where
  "plan_of p argv envs pdeath cred uid =
     \<lparr>sdNotify = p_SDNotify p, plan_argv = argv, plan_Env = envs, plan_Dir = p_WorkingDir p,
      plan_Pdeathsig = pdeath, plan_Credential = cred, plan_allowedUID = uid\<rparr>"

definition PrepareStart :: "host \<Rightarrow> string \<Rightarrow> svc \<Rightarrow> prepare_error + prepared" where
  "PrepareStart h controlSocket s =
     (let p = Proc s; m = host_machine h in
      result_bind (lift_error Env_failed (process_env h controlSocket p)) (\<lambda>(env, userKeys).
      result_bind (lift_error Credential_failed
        (ResolveCredential (h_db h) (h_uid h) (p_User p) (p_Group p) (p_UserID p) (p_GroupID p) (p_StrictGroups p))) (\<lambda>cred.
      result_bind (lift_error Template_failed (expandTemplates m (map_of env) (p_Args p))) (\<lambda>(args, _).
      result_bind (case buildCommand (h_selfExe h) (h_LookPath h) filepath_Join s args of None \<Rightarrow> Inl Command_failed | Some a \<Rightarrow> Inr a) (\<lambda>argv.
      result_bind (parent_death p) (\<lambda>pdeath.
      result_bind (if explicit_env p controlSocket then lift_error Template_failed (map_sum (\<lambda>e. e) Some (expand_env m env userKeys)) else Inr None) (\<lambda>envs.
        Inr (plan_of p argv envs pdeath cred (case cred of None \<Rightarrow> int (h_euid h) | Some c \<Rightarrow> uint (Uid c))))))))))"

section \<open>The prepared child\<close>

definition expands :: "machine \<Rightarrow> env \<Rightarrow> string \<Rightarrow> string \<Rightarrow> bool" where
  "expands m env v v' = (\<exists>miss. expand_one m (map_of env) v = Inr (v', miss))"

definition env_value :: "machine \<Rightarrow> env \<Rightarrow> string list \<Rightarrow> string \<times> string \<Rightarrow> string \<Rightarrow> bool" where
  "env_value m env userKeys kv v' = (if user_template userKeys kv then expands m env (snd kv) v' else v' = snd kv)"

lemma expand_all_each: "expand_all m (map_of env) w ss = Inr (ts, w') \<Longrightarrow> list_all2 (expands m env) ss ts"
proof (induction ss arbitrary: w ts w')
  case (Cons s ss)
  then obtain t miss ts' where "expand_one m (map_of env) s = Inr (t, miss)" "ts = t # ts'"
      "expand_all m (map_of env) (warn_once miss w) ss = Inr (ts', w')"
    by (auto simp: result_bind_eq_Inr)
  then show ?case using Cons.IH by (auto simp: expands_def)
qed simp

lemma expandTemplates_each: "expandTemplates m (map_of env) ss = Inr (ts, w) \<Longrightarrow> list_all2 (expands m env) ss ts"
  unfolding expandTemplates_def by (rule expand_all_each)

lemma refill_values:
  "list_all2 (expands m env0) (map snd (filter (user_template userKeys) env)) ts \<Longrightarrow>
   \<exists>vs. refill userKeys env ts = map2 (\<lambda>kv v. (fst kv, v)) env vs \<and> list_all2 (env_value m env0 userKeys) env vs"
proof (induction env arbitrary: ts)
  case (Cons kv env)
  show ?case
  proof (cases "user_template userKeys kv")
    case True
    then obtain t ts' where t: "ts = t # ts'" "expands m env0 (snd kv) t"
        "list_all2 (expands m env0) (map snd (filter (user_template userKeys) env)) ts'"
      using Cons.prems by (auto simp: list_all2_Cons1)
    obtain vs where "refill userKeys env ts' = map2 (\<lambda>kv v. (fst kv, v)) env vs" "list_all2 (env_value m env0 userKeys) env vs"
      using Cons.IH [OF t(3)] by blast
    then show ?thesis using True t by (intro exI [of _ "t # vs"]) (simp add: env_value_def [of _ _ _ kv])
  next
    case False
    then obtain vs where "refill userKeys env ts = map2 (\<lambda>kv v. (fst kv, v)) env vs" "list_all2 (env_value m env0 userKeys) env vs"
      using Cons by auto
    then show ?thesis using False by (intro exI [of _ "snd kv # vs"]) (simp add: env_value_def [of _ _ _ kv])
  qed
qed simp

lemma expand_env_values:
  assumes "expand_env m env userKeys = Inr es"
  shows "\<exists>vs. es = map2 (\<lambda>kv v. fst kv @ ''='' @ v) env vs \<and> list_all2 (env_value m env userKeys) env vs"
proof -
  obtain ts w where ts: "expandTemplates m (map_of env) (map snd (filter (user_template userKeys) env)) = Inr (ts, w)"
      "es = map (\<lambda>(k, v). k @ ''='' @ v) (refill userKeys env ts)"
    using assms by (auto simp: expand_env_def result_bind_eq_Inr)
  obtain vs where "refill userKeys env ts = map2 (\<lambda>kv v. (fst kv, v)) env vs" "list_all2 (env_value m env userKeys) env vs"
    using refill_values [OF expandTemplates_each [OF ts(1)]] by blast
  then show ?thesis using ts(2) by (intro exI [of _ vs]) (auto simp: case_prod_beta)
qed

lemma lift_error_Inr [simp]: "lift_error f r = Inr a \<longleftrightarrow> r = Inr a"
  by (cases r) (auto simp: lift_error_def)

lemma option_result: "(case r of None \<Rightarrow> Inl e | Some a \<Rightarrow> Inr a) = Inr x \<longleftrightarrow> r = Some x"
  by (cases r) auto

lemma process_env_no_leak:
  assumes "process_env h sock p = Inr (env, userKeys)" "dict_ok (p_Environment p)" "\<not> is_true (p_PassEnv p)" "kv \<in> set env"
  shows "fst kv \<in> set userKeys \<or> fst kv = ''GOPHERD_SOCKET''"
proof -
  have "map_of env (fst kv) \<noteq> None" using assms(4) by (simp add: map_of_eq_None_iff)
  then show ?thesis
    using child_env_lookup [OF assms(1) [unfolded process_env_def] assms(2), of "fst kv"] assms(3)
    by (auto split: if_splits option.splits)
qed

lemma process_env_inherited:
  assumes "process_env h sock p = Inr (env, userKeys)" "\<not> explicit_env p sock"
  shows "is_true (p_PassEnv p) \<and> userKeys = [] \<and> env = fold environ_entry (h_environ h) []"
  using assms by (auto simp: process_env_def explicit_env_def child_env_def buildEnvMap_def export_socket_def merge_env_def)

text \<open>
  C39. What a child is started with: its arguments are the configured ones with their templates
  expanded; its credential is the resolved one, and readiness is trusted from that user; a value of
  its environment is expanded only when the dotenv file or the configuration set it, every other one
  is passed as it is; without pass-env nothing of the daemon's own environment is in it but the
  socket that was asked for, and it is inherited as a whole only when that is the same thing.
\<close>

theorem PrepareStart_faithful:
  assumes "PrepareStart h sock s = Inr plan" "dict_ok (p_Environment (Proc s))"
  shows "\<exists>env userKeys args.
    process_env h sock (Proc s) = Inr (env, userKeys) \<and>
    list_all2 (expands (host_machine h) env) (p_Args (Proc s)) args \<and>
    buildCommand (h_selfExe h) (h_LookPath h) filepath_Join s args = Some (plan_argv plan) \<and>
    ResolveCredential (h_db h) (h_uid h) (p_User (Proc s)) (p_Group (Proc s)) (p_UserID (Proc s)) (p_GroupID (Proc s))
      (p_StrictGroups (Proc s)) = Inr (plan_Credential plan) \<and>
    plan_allowedUID plan = (case plan_Credential plan of None \<Rightarrow> int (h_euid h) | Some c \<Rightarrow> uint (Uid c)) \<and>
    (case plan_Env plan of
       None \<Rightarrow> is_true (p_PassEnv (Proc s)) \<and> userKeys = [] \<and> env = fold environ_entry (h_environ h) []
     | Some es \<Rightarrow> \<exists>vs. es = map2 (\<lambda>kv v. fst kv @ ''='' @ v) env vs \<and> list_all2 (env_value (host_machine h) env userKeys) env vs) \<and>
    (is_true (p_PassEnv (Proc s)) \<or> fst ` set env \<subseteq> insert ''GOPHERD_SOCKET'' (set userKeys))"
proof -
  obtain env userKeys args w argv pdeath envs cred where r:
      "process_env h sock (Proc s) = Inr (env, userKeys)"
      "expandTemplates (host_machine h) (map_of env) (p_Args (Proc s)) = Inr (args, w)"
      "ResolveCredential (h_db h) (h_uid h) (p_User (Proc s)) (p_Group (Proc s)) (p_UserID (Proc s)) (p_GroupID (Proc s))
         (p_StrictGroups (Proc s)) = Inr cred"
      "buildCommand (h_selfExe h) (h_LookPath h) filepath_Join s args = Some argv"
      "(if explicit_env (Proc s) sock then lift_error Template_failed (map_sum (\<lambda>e. e) Some (expand_env (host_machine h) env userKeys))
        else Inr None) = Inr envs"
      "plan = plan_of (Proc s) argv envs pdeath cred (case cred of None \<Rightarrow> int (h_euid h) | Some c \<Rightarrow> uint (Uid c))"
    using assms(1) unfolding PrepareStart_def Let_def
    by (auto simp: result_bind_eq_Inr option_result split: prod.splits)
  have e: "case envs of
       None \<Rightarrow> is_true (p_PassEnv (Proc s)) \<and> userKeys = [] \<and> env = fold environ_entry (h_environ h) []
     | Some es \<Rightarrow> \<exists>vs. es = map2 (\<lambda>kv v. fst kv @ ''='' @ v) env vs \<and> list_all2 (env_value (host_machine h) env userKeys) env vs"
  proof (cases "explicit_env (Proc s) sock")
    case True
    then obtain es where "expand_env (host_machine h) env userKeys = Inr es" "envs = Some es"
      using r(5) by (cases "expand_env (host_machine h) env userKeys") auto
    then show ?thesis using expand_env_values by simp
  next
    case False
    then show ?thesis using r(5) process_env_inherited [OF r(1)] by auto
  qed
  have "is_true (p_PassEnv (Proc s)) \<or> fst ` set env \<subseteq> insert ''GOPHERD_SOCKET'' (set userKeys)"
    using process_env_no_leak [OF r(1) assms(2)] by blast
  then show ?thesis
    using r(1,3,4) e expandTemplates_each [OF r(2)] unfolding r(6)
    by (intro exI [of _ env] exI [of _ userKeys] exI [of _ args]) (simp add: plan_of_def)
qed

definition plain_host :: host where
  "plain_host = \<lparr>h_environ = [''SECRET=1''], h_euid = 0, h_uid = 0,
     h_db = \<lparr>Lookup = (\<lambda>_. None), LookupId = (\<lambda>_. None), LookupGroup = (\<lambda>_. None)\<rparr>,
     h_dotenv = (\<lambda>_ _. Open_failed False), h_fs = bare_fs, h_oor = 0, h_meminfo = None, h_mounts = bare_machine,
     h_NumCPU = 2, h_selfExe = None, h_LookPath = (\<lambda>_. None)\<rparr>"

definition env_svc :: svc where
  "env_svc = plain_svc\<lparr>Proc := plain_process\<lparr>p_Environment := [(''A'', ''{{.B:-x}}'')], p_Args := [''{{cpu}}'']\<rparr>\<rparr>"

lemma plain_machine: "host_machine plain_host = \<lparr>m_fs = bare_fs, m_oor = 0, m_MiB = 0, m_CPUs = 2\<rparr>"
  by (simp add: host_machine_def plain_host_def memory_available_def systemMemMiB_def cpu_available_def bare_machine_def
    cgroupCFSCPUs_def cgroupV2CFSCPUs_def cgroupV1CFSCPUs_def mount_limit_def cgroupCpusetCPUs_def)

theorem PrepareStart_faithful_witness:
  "PrepareStart plain_host [] env_svc = Inr (plan_of (Proc env_svc) [''/bin/web'', ''2''] (Some [''A=x'']) None None 0) \<and>
   (\<exists>env. process_env plain_host [] (Proc env_svc) = Inr (env, [''A'']) \<and> fst ` set env \<subseteq> {''GOPHERD_SOCKET'', ''A''})"
proof -
  let ?env = "[(''A'', ''{{.B:-x}}'')]" and ?m = "\<lparr>m_fs = bare_fs, m_oor = 0, m_MiB = 0, m_CPUs = 2\<rparr>"
  have e: "process_env plain_host [] (Proc env_svc) = Inr (?env, [''A''])" by code_simp
  have x: "expandTemplates ?m (map_of ?env) [''{{cpu}}''] = Inr ([''2''], [])"
      "expand_env ?m ?env [''A''] = Inr [''A=x'']"
      "explicit_env (Proc env_svc) []"
    by code_simp+
  have p: "PrepareStart plain_host [] env_svc = Inr (plan_of (Proc env_svc) [''/bin/web'', ''2''] (Some [''A=x'']) None None 0)"
    unfolding PrepareStart_def Let_def e plain_machine using x
    by (simp add: lift_error_def env_svc_def plain_host_def plain_process_def ResolveCredential_def validateNumericID_def
      resolve_user_def resolve_group_def credential_of_def buildCommand_def parent_death_def)
  have "dict_ok (p_Environment (Proc env_svc))" "is_true (p_PassEnv (Proc env_svc)) = False"
    by (simp_all add: env_svc_def plain_process_def dict_ok_def is_true_def)
  then show ?thesis using p e PrepareStart_faithful [OF p] by auto
qed

end
