(* ===== verification/Go_Parse_Float.thy ===== *)
theory Go_Parse_Float
  imports Go_Float
begin

text \<open>
  \<open>strconv.ParseFloat(s, 64)\<close>: decimal and hexadecimal numbers with underscores between digits,
  infinities and NaN. A number too large for a double is an error. The cap the library puts on the
  digits of an exponent has no effect on texts of a realistic length and is left out.
\<close>

definition hex_letter :: "char \<Rightarrow> bool" where
  "hex_letter c = (CHR ''a'' \<le> lower_char c \<and> lower_char c \<le> CHR ''f'')"

definition float_digit :: "bool \<Rightarrow> char \<Rightarrow> bool" where
  "float_digit hex c = (is_digit c \<or> hex \<and> hex_letter c)"

definition float_digit_val :: "char \<Rightarrow> int" where
  "float_digit_val c = (if is_digit c then digit_val c else of_char (lower_char c) - 87)"

definition underscore :: char where "underscore = CHR ''_''"

text \<open>The mantissa: what is read, and the rest. The second dot ends it.\<close>

fun mantissa :: "bool \<Rightarrow> bool \<Rightarrow> string \<Rightarrow> string \<times> string" where
  "mantissa hex sawdot [] = ([], [])"
| "mantissa hex sawdot (c # s) =
     (if c = underscore \<or> float_digit hex c then map_prod (\<lambda>m. c # m) (\<lambda>r. r) (mantissa hex sawdot s)
      else if c = CHR ''.'' \<and> \<not> sawdot then map_prod (\<lambda>m. c # m) (\<lambda>r. r) (mantissa hex True s)
      else ([], c # s))"

datatype saw = Saw_start | Saw_digit | Saw_underscore | Saw_other

fun underscores_ok :: "bool \<Rightarrow> saw \<Rightarrow> string \<Rightarrow> bool" where
  "underscores_ok hex saw [] = (saw \<noteq> Saw_underscore)"
| "underscores_ok hex saw (c # s) =
     (if float_digit hex c then underscores_ok hex Saw_digit s
      else if c = underscore then saw = Saw_digit \<and> underscores_ok hex Saw_underscore s
      else saw \<noteq> Saw_underscore \<and> underscores_ok hex Saw_other s)"

definition drop_sign :: "string \<Rightarrow> bool \<times> string" where
  "drop_sign s =
     (if s \<noteq> [] \<and> hd s = CHR ''-'' then (True, tl s)
      else if s \<noteq> [] \<and> hd s = CHR ''+'' then (False, tl s) else (False, s))"

text \<open>The exponent and the rest of the text; \<^const>\<open>None\<close> is a syntax error.\<close>

definition read_exponent :: "bool \<Rightarrow> string \<Rightarrow> (int \<times> string) option" where
  "read_exponent hex r =
     (if r \<noteq> [] \<and> lower_char (hd r) = (if hex then CHR ''p'' else CHR ''e'') then
        (let (neg, t) = drop_sign (tl r); ds = takeWhile (\<lambda>c. is_digit c \<or> c = underscore) t;
             e = digits_val 10 (filter is_digit ds)
         in if t = [] \<or> \<not> is_digit (hd t) then None
            else Some (if neg then - e else e, dropWhile (\<lambda>c. is_digit c \<or> c = underscore) t))
      else if hex then None else Some (0, r))"

definition scale :: "bool \<Rightarrow> int \<Rightarrow> rat" where
  "scale hex e = (if hex then pow2 e else if 0 \<le> e then 10 ^ nat e else 1 / 10 ^ nat (- e))"

definition read_float :: "string \<Rightarrow> rat option" where
  "read_float s =
     (let (neg, r) = drop_sign s;
          hex = (2 < length r \<and> take 1 r = ''0'' \<and> lower_char (r ! 1) = CHR ''x'');
          (m, r') = mantissa hex False (if hex then drop 2 r else r);
          ds = filter (float_digit hex) m;
          frac = length (filter (float_digit hex) (dropWhile (\<lambda>c. c \<noteq> CHR ''.'') m));
          v = foldl (\<lambda>n c. n * (if hex then 16 else 10) + float_digit_val c) 0 ds
      in if ds = [] then None
         else case read_exponent hex r' of
           None \<Rightarrow> None
         | Some (e, rest) \<Rightarrow>
             if rest \<noteq> [] \<or> underscore \<in> set s \<and> \<not> underscores_ok hex (if hex then Saw_digit else Saw_start) (if hex then drop 2 r else r)
             then None
             else Some ((if neg then - 1 else 1) * of_int v / (if hex then 16 else 10) ^ frac * scale hex e))"

definition parse_float :: "string \<Rightarrow> float64 option" where
  "parse_float s =
     (let (neg, r) = drop_sign s
      in if to_lower r = ''inf'' \<or> to_lower r = ''infinity'' then Some (Infinite (\<not> neg))
         else if to_lower s = ''nan'' then Some NaN
         else case read_float s of
           None \<Rightarrow> None
         | Some x \<Rightarrow> (case round64 x of Finite v \<Rightarrow> Some (Finite v) | _ \<Rightarrow> None))"

lemma read_float_examples:
  "read_float ''1.5'' = Some (3 / 2)" "read_float ''2e3'' = Some 2000" "read_float ''-1_0.5e-1'' = Some (- (21 / 20))"
  "read_float ''0x1.8p1'' = Some 3" "read_float ''_1'' = None" "read_float ''1.2.3'' = None" "read_float ''1e'' = None"
  "read_float ''.'' = None" "read_float ''0x1'' = None"
  by code_simp+

end
