(* ===== verification/Yml_Config.thy ===== *)
theory Yml_Config
  imports Yaml Start_Plan Check Control Go_Parse_Float
begin

text \<open>
  The configuration: \<open>internal/yml/config.go\<close>, from the parsed tree to the list of processes, checks
  and log targets, with every rule a configuration must obey. A Go map read from the file is the
  association list of its entries; where the code walks a map in random order and stops at the first
  error, the model walks the list, which decides only which of several errors is reported. The
  warnings that are only logged are left out.

  The lemmas show what holds of every configuration that is accepted.
\<close>

section \<open>Values\<close>

definition IntPtr :: "node option \<Rightarrow> int option" where
  "IntPtr n = Int_of n"

definition string_map :: "node option \<Rightarrow> (string \<times> string) list" where
  "string_map n = fold (\<lambda>(k, v) m. case v of Scalar s \<Rightarrow> AList.update k s m | _ \<Rightarrow> m) (Entries n) []"

lemma string_map_StringMap: "map_of (string_map n) = (case StringMap n of None \<Rightarrow> Map.empty | Some m \<Rightarrow> m)"
proof -
  have "map_of (fold (\<lambda>(k, v) m. case v of Scalar s \<Rightarrow> AList.update k s m | _ \<Rightarrow> m) es acc) =
      fold (\<lambda>(k, v) m. case v of Scalar s \<Rightarrow> m(k \<mapsto> s) | _ \<Rightarrow> m) es (map_of acc)" for es acc
    by (induction es arbitrary: acc) (auto simp: update_conv' split: node.split)
  from this [of _ "[]"] show ?thesis
    by (auto simp: string_map_def StringMap_def Entries_def split: option.splits node.splits)
qed

definition envFromOS :: "string list \<Rightarrow> env" where
  "envFromOS environ =
     fold (\<lambda>e m. case cut_at (CHR ''='') e of Some (k, v) \<Rightarrow> AList.update k v m | None \<Rightarrow> m) environ []"

definition ShutdownReverseDep :: string where "ShutdownReverseDep = ''reverse-dep''"
definition ShutdownDep :: string where "ShutdownDep = ''dep''"
definition ShutdownSimultaneous :: string where "ShutdownSimultaneous = ''simultaneous''"

text \<open>Why something was left out; the code renders it as a sentence.\<close>

datatype exclusion_reason = Env_mismatch string string | Only_used_by "string list"

type_synonym Exclusion = "string \<times> exclusion_reason"

record config =
  c_Checks :: "(string \<times> check_config) list"
  c_LogTargets :: "(string \<times> TargetConfig) list"
  c_Excluded :: "Exclusion list"
  c_ExcludedChecks :: "Exclusion list"
  c_Prefix :: string
  c_PassEnv :: "bool option"
  c_LogCapture :: "bool option"
  c_ExportSocket :: "bool option"
  c_ShutdownOrder :: string
  c_InitStopSignal :: "string list"
  c_Control :: socket_config
  c_Processes :: "Process list"
  c_NoLogo :: bool
  c_Subreaper :: bool

datatype config_error =
    Yaml_error yml_error
  | Bad_init_stop_signal string | Uncatchable string | Bad_shutdown_order string | Bad_socket_mode string
  | Startup_template string template_error | Startup_disallowed string string | Startup_invalid string string
  | Condition_relative string string | Conditions_clash string string
  | Not_a_mapping string string | Bad_condition_key string string
  | Bad_exit_code_key string string | Bad_exit_code_value string string
  | Rewrite_source string string | Rewrite_target string string | Bad_umask string string
  | Bad_parent_death string string | Bad_notify_timeout string string | Bad_backoff_factor string string
  | Bad_check_threshold string | Bad_check_port string | In_check string config_error
  | No_processes | Command_required string | Name_whitespace string
  | Bad_success_action string | Bad_failure_action string | Bad_stop_signal string | Bad_check_failure_action string string
  | Reserved_rewrite string string
  | Schedule_required string | Bad_cron string cron_error | Scheduled_on_success string | Scheduled_on_failure string
  | Scheduled_backoff string | Scheduled_order string | Scheduled_timeout string string | Schedule_not_allowed string
  | Orders_against_scheduled string string

definition guard :: "bool \<Rightarrow> 'e \<Rightarrow> 'e + unit" where
  "guard b e = (if b then Inr () else Inl e)"

fun check_each :: "('a \<Rightarrow> 'e + unit) \<Rightarrow> 'a list \<Rightarrow> 'e + unit" where
  "check_each f [] = Inr ()"
| "check_each f (x # xs) = result_bind (f x) (\<lambda>_. check_each f xs)"

fun map_each :: "('a \<Rightarrow> 'e + 'b) \<Rightarrow> 'a list \<Rightarrow> 'e + 'b list" where
  "map_each f [] = Inr []"
| "map_each f (x # xs) = result_bind (f x) (\<lambda>y. result_bind (map_each f xs) (\<lambda>ys. Inr (y # ys)))"

definition ShutdownSignals :: "config \<Rightarrow> int list" where
  "ShutdownSignals cfg =
     (if c_InitStopSignal cfg = [] then [SIGTERM, SIGINT] else List.map_filter ParseSignal (c_InitStopSignal cfg))"

section \<open>A process\<close>

definition procName :: "Process \<Rightarrow> string" where
  "procName p = (if p_Name p \<noteq> [] then p_Name p else p_Command p)"

text \<open>The name in the errors of \<open>parseProcess\<close> before the process is built.\<close>

definition node_name :: "node option \<Rightarrow> string" where
  "node_name n =
     (let name = String_of (Get n ''name''); command = String_of (Get n ''command'')
      in if name \<noteq> [] then name else if command \<noteq> [] then command else ''(unnamed)'')"

definition startups :: "string list" where
  "startups = [[], ''enabled'', ''disabled'', ''oneshot'', ''scheduled'']"

definition startup_of :: "fsys \<Rightarrow> env \<Rightarrow> node option \<Rightarrow> config_error + string" where
  "startup_of fs env n =
     (let rawStartup = String_of (Get n ''startup'')
      in case ExpandRefs fs (map_of env) rawStartup of
           Inl e \<Rightarrow> Inl (Startup_template (node_name n) e)
         | Inr (expanded, _) \<Rightarrow>
             (let s0 = trim_space expanded;
                  startup = (if s0 = [] \<and> contains rawStartup ''{{'' then ''disabled'' else s0)
              in if startup \<in> set startups then Inr startup
                 else if rawStartup \<noteq> startup then Inl (Startup_disallowed (node_name n) rawStartup)
                 else Inl (Startup_invalid (node_name n) startup)))"

definition raw_process :: "node option \<Rightarrow> string \<Rightarrow> Process" where
  "raw_process n startup =
     (let str = (\<lambda>k. String_of (Get n k)); flag = (\<lambda>k. Bool_of (Get n k)); strs = (\<lambda>k. Strings (Get n k))
      in \<lparr>p_UserID = IntPtr (Get n ''user-id''), p_GroupID = IntPtr (Get n ''group-id''),
          p_Environment = string_map (Get n ''environment''), p_OnCheckFailure = string_map (Get n ''on-check-failure''),
          p_PassEnv = BoolPtr (Get n ''pass-env''), p_LogCapture = BoolPtr (Get n ''log-capture''),
          p_ExportSocket = BoolPtr (Get n ''export-socket''), p_Name = str ''name'', p_Command = str ''command'',
          p_WorkingDir = str ''working-dir'', p_User = str ''user'', p_Group = str ''group'', p_Startup = startup,
          p_StopSignal = str ''stop-signal'', p_KillDelay = str ''kill-delay'', p_OnSuccess = str ''on-success'',
          p_OnFailure = str ''on-failure'', p_BackoffDelay = str ''backoff-delay'', p_BackoffLimit = str ''backoff-limit'',
          p_ReadyCheck = str ''ready-check'', p_ReadyTimeout = str ''ready-timeout'', p_StartupTimeout = str ''startup-timeout'',
          p_Schedule = str ''schedule'', p_ConditionFileExists = str ''condition-file-exists'',
          p_ConditionFileMissing = str ''condition-file-missing'', p_Umask = str ''umask'', p_DotEnv = str ''dotenv'',
          p_Prefix = [], p_SDNotifyTimeout = str ''sd-notify-timeout'', p_ParentDeathSignal = str ''parent-death-signal'',
          p_ExitCodeMap = [], p_SignalRewrite = string_map (Get n ''signal-rewrite''), p_Args = strs ''args'',
          p_After = strs ''after'', p_Before = strs ''before'', p_Requires = strs ''requires'', p_RemoveEnv = strs ''remove-env'',
          p_BackoffFactor = Finite 0, p_UseEntrypointArgs = flag ''use-entrypoint-args'', p_SDNotify = flag ''sd-notify'',
          p_StrictGroups = flag ''strict-groups'', p_DotEnvFollow = flag ''dotenv-follow'',
          p_RestartWithDependents = flag ''restart-with-dependents''\<rparr>)"

definition check_conditions :: "Process \<Rightarrow> config_error + unit" where
  "check_conditions p =
     result_bind (check_each (\<lambda>(key, fpath). guard (fpath = [] \<or> IsAbs fpath) (Condition_relative (procName p) key))
       [(''condition-file-exists'', p_ConditionFileExists p), (''condition-file-missing'', p_ConditionFileMissing p)]) (\<lambda>_.
     guard (p_ConditionFileExists p = [] \<or> p_ConditionFileExists p \<noteq> p_ConditionFileMissing p)
       (Conditions_clash (procName p) (p_ConditionFileExists p)))"

definition requireMapping :: "node option \<Rightarrow> string \<Rightarrow> string \<Rightarrow> config_error + unit" where
  "requireMapping n key name =
     guard (case Get n key of None \<Rightarrow> True | Some (Mapping es) \<Rightarrow> True | Some v \<Rightarrow> False) (Not_a_mapping name key)"

definition exit_code_entry :: "string \<Rightarrow> string \<times> string \<Rightarrow> config_error + int \<times> int" where
  "exit_code_entry name kv =
     (case parseExitCode (fst kv) of
        Inl e \<Rightarrow> Inl (Bad_exit_code_key name (fst kv))
      | Inr k \<Rightarrow> (case parseExitCode (snd kv) of Inl e \<Rightarrow> Inl (Bad_exit_code_value name (snd kv)) | Inr v \<Rightarrow> Inr (k, v)))"

definition exit_code_map :: "string \<Rightarrow> (string \<times> string) list \<Rightarrow> config_error + (int \<times> int) list" where
  "exit_code_map name raw =
     result_bind (map_each (exit_code_entry name) raw) (\<lambda>es. Inr (fold (\<lambda>(k, v). AList.update k v) es []))"

definition rewrite_entry :: "string \<Rightarrow> string \<times> string \<Rightarrow> config_error + string \<times> string" where
  "rewrite_entry name kv =
     (case ParseSignal (fst kv) of
        None \<Rightarrow> Inl (Rewrite_source name (fst kv))
      | Some from \<Rightarrow> (case ParseSignal (snd kv) of
           None \<Rightarrow> Inl (Rewrite_target name (snd kv))
         | Some to \<Rightarrow> Inr (SignalName from, SignalName to)))"

definition canon_rewrite :: "string \<Rightarrow> (string \<times> string) list \<Rightarrow> config_error + (string \<times> string) list" where
  "canon_rewrite name raw =
     result_bind (map_each (rewrite_entry name) raw) (\<lambda>es. Inr (fold (\<lambda>(k, v). AList.update k v) es []))"

definition backoff_factor :: "string \<Rightarrow> string \<Rightarrow> config_error + float64" where
  "backoff_factor name raw =
     (if raw = [] then Inr (Finite 0)
      else case parse_float raw of
        Some (Finite v) \<Rightarrow> if v \<le> 0 then Inl (Bad_backoff_factor name raw) else Inr (Finite v)
      | _ \<Rightarrow> Inl (Bad_backoff_factor name raw))"

text \<open>The checks of \<open>parseProcess\<close> on values that are only kept as text.\<close>

definition check_texts :: "Process \<Rightarrow> config_error + unit" where
  "check_texts p =
     result_bind (guard (p_Umask p = [] \<or> ParseUmask (p_Umask p) \<noteq> None) (Bad_umask (procName p) (p_Umask p))) (\<lambda>_.
     result_bind (guard (p_ParentDeathSignal p = [] \<or> ParseSignal (p_ParentDeathSignal p) \<noteq> None)
       (Bad_parent_death (procName p) (p_ParentDeathSignal p))) (\<lambda>_.
     guard (p_SDNotifyTimeout p = [] \<or> ParseDuration (p_SDNotifyTimeout p) \<noteq> None)
       (Bad_notify_timeout (procName p) (p_SDNotifyTimeout p))))"

definition parseProcess :: "fsys \<Rightarrow> env \<Rightarrow> node \<Rightarrow> config_error + Process" where
  "parseProcess fs env node =
     (let n = Some node in
      result_bind (startup_of fs env n) (\<lambda>startup.
      let p = raw_process n startup; name = procName p in
      result_bind (check_conditions p) (\<lambda>_.
      result_bind (requireMapping n ''condition-env-equals'' name) (\<lambda>_.
      result_bind (check_each (\<lambda>kv. guard (IsValidEnvKey (fst kv)) (Bad_condition_key name (fst kv)))
        (string_map (Get n ''condition-env-equals''))) (\<lambda>_.
      result_bind (requireMapping n ''exit-code-map'' name) (\<lambda>_.
      result_bind (exit_code_map name (string_map (Get n ''exit-code-map''))) (\<lambda>codes.
      result_bind (canon_rewrite name (p_SignalRewrite p)) (\<lambda>rewrite.
      result_bind (check_texts p) (\<lambda>_.
      result_bind (backoff_factor name (String_of (Get n ''backoff-factor''))) (\<lambda>factor.
        Inr (p\<lparr>p_ExitCodeMap := codes, p_SignalRewrite := rewrite, p_BackoffFactor := factor,
               p_Prefix := String_of (Get n ''prefix'')\<rparr>)))))))))))"

definition conditionEnvUnmet :: "env \<Rightarrow> node \<Rightarrow> exclusion_reason option" where
  "conditionEnvUnmet env n =
     (let envEquals = string_map (Get (Some n) ''condition-env-equals'');
          value = (\<lambda>k. case map_of env k of None \<Rightarrow> [] | Some v \<Rightarrow> v)
      in first_some (\<lambda>k. let want = (case map_of envEquals k of None \<Rightarrow> [] | Some v \<Rightarrow> v)
                         in if value k \<noteq> want then Some (Env_mismatch k want) else None)
           (sorted_list_of_set (set (map fst envEquals))))"

definition excludeProcesses :: "string list \<Rightarrow> Process list \<Rightarrow> Process list" where
  "excludeProcesses excluded procs =
     (let strip = filter (\<lambda>d. d \<notin> set excluded)
      in map (\<lambda>p. p\<lparr>p_After := strip (p_After p), p_Before := strip (p_Before p), p_Requires := strip (p_Requires p)\<rparr>)
           (filter (\<lambda>p. procName p \<notin> set excluded) procs))"

section \<open>Checks and log targets\<close>

definition parse_number :: "string \<Rightarrow> (string \<Rightarrow> config_error) \<Rightarrow> config_error + int" where
  "parse_number raw err = (if raw = [] then Inr 0 else case parse_int raw of None \<Rightarrow> Inl (err raw) | Some v \<Rightarrow> Inr v)"

definition parseCheck :: "node \<Rightarrow> config_error + check_config" where
  "parseCheck node =
     (let n = Some node; str = (\<lambda>m k. String_of (Get m k)) in
      result_bind (parse_number (str n ''threshold'') Bad_check_threshold) (\<lambda>threshold.
      result_bind (parse_number (str (Get n ''tcp'') ''port'') Bad_check_port) (\<lambda>port.
        Inr \<lparr>cfg_HTTP = map_option (\<lambda>h. \<lparr>http_URL = str (Some h) ''url'', http_Socket = str (Some h) ''socket''\<rparr>) (Get n ''http''),
             cfg_TCP = map_option (\<lambda>t. \<lparr>tcp_Host = str (Some t) ''host'', tcp_Port = port\<rparr>) (Get n ''tcp''),
             cfg_Exec = map_option (\<lambda>e. \<lparr>exec_Command = str (Some e) ''command'', exec_Args = Strings (Get (Some e) ''args'')\<rparr>) (Get n ''exec''),
             cfg_Period = str n ''period'', cfg_Timeout = str n ''timeout'', cfg_InitialDelay = str n ''initial-delay'',
             cfg_Threshold = threshold\<rparr>)))"

definition parseLogTarget :: "node \<Rightarrow> TargetConfig" where
  "parseLogTarget node =
     (let n = Some node
      in \<lparr>Labels = string_map (Get n ''labels''), tc_Type = String_of (Get n ''type''), Location = String_of (Get n ''location''),
          MaxSize = String_of (Get n ''max-size''), tc_Services = Strings (Get n ''services''),
          MaxFiles = (case Int_of (Get n ''max-files'') of None \<Rightarrow> 0 | Some v \<Rightarrow> v),
          Compress = Bool_of (Get n ''compress'')\<rparr>)"

text \<open>The processes that use a check, each once and sorted.\<close>

definition check_users :: "Process list \<Rightarrow> string \<Rightarrow> string list" where
  "check_users procs name =
     sorted_list_of_set (set (map procName (filter (\<lambda>p. name \<in> set (map fst (p_OnCheckFailure p)) \<or> p_ReadyCheck p = name \<and> name \<noteq> []) procs)))"

definition used_checks :: "Process list \<Rightarrow> string list" where
  "used_checks procs =
     sorted_list_of_set (set (concat (map (\<lambda>p. map fst (p_OnCheckFailure p) @ (if p_ReadyCheck p \<noteq> [] then [p_ReadyCheck p] else [])) procs)))"

definition orphaned :: "string list \<Rightarrow> config \<Rightarrow> string \<Rightarrow> bool" where
  "orphaned excluded cfg name =
     (map_of (c_Checks cfg) name \<noteq> None \<and> list_all (\<lambda>u. u \<in> set excluded) (check_users (c_Processes cfg) name))"

definition excludeOrphanedChecks :: "string list \<Rightarrow> config \<Rightarrow> config" where
  "excludeOrphanedChecks excluded cfg =
     (let names = filter (orphaned excluded cfg) (used_checks (c_Processes cfg))
      in cfg\<lparr>c_Checks := filter (\<lambda>(k, c). k \<notin> set names) (c_Checks cfg),
             c_ExcludedChecks := map (\<lambda>k. (k, Only_used_by (check_users (c_Processes cfg) k))) names\<rparr>)"

section \<open>Rules\<close>

definition is_scheduled :: "Process \<Rightarrow> bool" where
  "is_scheduled p = (p_Startup p = ''scheduled'' \<or> p_Startup p = ''disabled'' \<and> p_Schedule p \<noteq> [])"

text \<open>\<open>cron.Parse\<close> always returns, so its search is not in the way here.\<close>

definition scheduled_contract :: "string \<Rightarrow> Process \<Rightarrow> config_error + unit" where
  "scheduled_contract name p =
     result_bind (guard (p_Schedule p \<noteq> []) (Schedule_required name)) (\<lambda>_.
     result_bind (case Cron.Parse (p_Schedule p) of Some (Inl e) \<Rightarrow> Inl (Bad_cron name e) | _ \<Rightarrow> Inr ()) (\<lambda>_.
     result_bind (guard (p_OnSuccess p = []) (Scheduled_on_success name)) (\<lambda>_.
     result_bind (guard (p_OnFailure p = []) (Scheduled_on_failure name)) (\<lambda>_.
     result_bind (guard (p_BackoffDelay p = [] \<and> p_BackoffLimit p = []) (Scheduled_backoff name)) (\<lambda>_.
     result_bind (guard (p_After p = [] \<and> p_Before p = [] \<and> p_Requires p = []) (Scheduled_order name)) (\<lambda>_.
     guard (p_StartupTimeout p = [] \<or> ParseDuration (p_StartupTimeout p) \<noteq> None) (Scheduled_timeout name (p_StartupTimeout p))))))))"

definition validateScheduled :: "string \<Rightarrow> string list \<Rightarrow> Process \<Rightarrow> config_error + unit" where
  "validateScheduled name scheduledSet p =
     result_bind (if is_scheduled p then scheduled_contract name p else guard (p_Schedule p = []) (Schedule_not_allowed name)) (\<lambda>_.
     check_each (\<lambda>dep. guard (dep \<notin> set scheduledSet) (Orders_against_scheduled name dep))
       (p_After p @ p_Before p @ p_Requires p))"

definition reserved_keys :: "int list \<Rightarrow> string list" where
  "reserved_keys shutdownSet = ''SIGHUP'' # map SignalName shutdownSet"

definition validateSignalRewrite :: "string \<Rightarrow> int list \<Rightarrow> (string \<times> string) list \<Rightarrow> config_error + unit" where
  "validateSignalRewrite name shutdownSet rewrite =
     check_each (\<lambda>kv. guard (fst kv \<notin> set (reserved_keys shutdownSet)) (Reserved_rewrite name (fst kv))) rewrite"

definition name_space :: "char \<Rightarrow> bool" where
  "name_space c = (c \<in> {CHR '' '', tab, carriage_return, newline, CHR 0x0B, CHR 0x0C})"

definition validate_process :: "int list \<Rightarrow> string list \<Rightarrow> Process \<Rightarrow> config_error + unit" where
  "validate_process shutdownSet scheduledSet p =
     (let name = procName p in
      result_bind (guard (p_Command p \<noteq> []) (Command_required (if name = [] then ''(unnamed)'' else name))) (\<lambda>_.
      result_bind (guard (\<not> list_ex name_space name) (Name_whitespace name)) (\<lambda>_.
      result_bind (guard (ValidateExitAction (p_OnSuccess p)) (Bad_success_action name)) (\<lambda>_.
      result_bind (guard (ValidateExitAction (p_OnFailure p)) (Bad_failure_action name)) (\<lambda>_.
      result_bind (guard (p_StopSignal p = [] \<or> ParseSignal (p_StopSignal p) \<noteq> None) (Bad_stop_signal name)) (\<lambda>_.
      result_bind (check_each (\<lambda>ca. guard (ValidateExitAction (snd ca)) (Bad_check_failure_action name (fst ca))) (p_OnCheckFailure p)) (\<lambda>_.
      result_bind (validateSignalRewrite name shutdownSet (p_SignalRewrite p)) (\<lambda>_.
        validateScheduled name scheduledSet p))))))))"

section \<open>The whole file\<close>

definition check_init_stop :: "string \<Rightarrow> config_error + unit" where
  "check_init_stop name =
     (case ParseSignal name of
        None \<Rightarrow> Inl (Bad_init_stop_signal name)
      | Some sig \<Rightarrow> guard (sig \<noteq> SIGKILL \<and> sig \<noteq> SIGSTOP) (Uncatchable name))"

definition socket_mode :: "string \<Rightarrow> config_error + int" where
  "socket_mode s = (if s = [] then Inr 0 else case parse_octal32 s of None \<Rightarrow> Inl (Bad_socket_mode s) | Some m \<Rightarrow> Inr m)"

definition default_flag :: "bool option \<Rightarrow> bool option \<Rightarrow> bool option" where
  "default_flag global own = (if own = None then global else own)"

text \<open>One item of \<open>processes\<close>: the process, and why it is left out.\<close>

definition load_process :: "fsys \<Rightarrow> env \<Rightarrow> config \<Rightarrow> node \<Rightarrow> config_error + Process \<times> exclusion_reason option" where
  "load_process fs env cfg item =
     result_bind (parseProcess fs env item) (\<lambda>p.
       Inr (p\<lparr>p_PassEnv := default_flag (c_PassEnv cfg) (p_PassEnv p), p_LogCapture := default_flag (c_LogCapture cfg) (p_LogCapture p),
              p_ExportSocket := default_flag (c_ExportSocket cfg) (p_ExportSocket p)\<rparr>, conditionEnvUnmet env item))"

definition load_globals :: "node option \<Rightarrow> config_error + config" where
  "load_globals n =
     result_bind (check_each check_init_stop (Strings (Get n ''init-stop-signal''))) (\<lambda>_.
     result_bind (guard (String_of (Get n ''shutdown-order'') \<in> {[], ShutdownReverseDep, ShutdownDep, ShutdownSimultaneous})
       (Bad_shutdown_order (String_of (Get n ''shutdown-order'')))) (\<lambda>_.
     result_bind (socket_mode (String_of (Get (Get n ''control'') ''socket-mode''))) (\<lambda>mode.
       Inr \<lparr>c_Checks = [], c_LogTargets = [], c_Excluded = [], c_ExcludedChecks = [], c_Prefix = String_of (Get n ''prefix''),
            c_PassEnv = BoolPtr (Get n ''pass-env''), c_LogCapture = BoolPtr (Get n ''log-capture''),
            c_ExportSocket = BoolPtr (Get n ''export-socket''), c_ShutdownOrder = String_of (Get n ''shutdown-order''),
            c_InitStopSignal = Strings (Get n ''init-stop-signal''),
            c_Control = \<lparr>sock_Path = String_of (Get (Get n ''control'') ''socket''), sock_Mode = mode\<rparr>,
            c_Processes = [], c_NoLogo = Bool_of (Get n ''no-logo''), c_Subreaper = Bool_of (Get n ''subreaper'')\<rparr>)))"

definition load_checks :: "(string \<times> node) list \<Rightarrow> config_error + (string \<times> check_config) list" where
  "load_checks es =
     result_bind (map_each (\<lambda>(k, v). case parseCheck v of Inl e \<Rightarrow> Inl (In_check k e) | Inr c \<Rightarrow> Inr (k, c)) es)
       (\<lambda>cs. Inr (fold (\<lambda>(k, c). AList.update k c) cs []))"

definition load_targets :: "(string \<times> node) list \<Rightarrow> (string \<times> TargetConfig) list" where
  "load_targets es = fold (\<lambda>(k, v). AList.update k (parseLogTarget v)) es []"

definition scheduled_names :: "Process list \<Rightarrow> string list" where
  "scheduled_names ps = map procName (filter is_scheduled ps)"

definition validate :: "config \<Rightarrow> config_error + unit" where
  "validate cfg =
     result_bind (guard (c_Processes cfg \<noteq> []) No_processes) (\<lambda>_.
       check_each (validate_process (ShutdownSignals cfg) (scheduled_names (c_Processes cfg))) (c_Processes cfg))"

definition exclude :: "config \<Rightarrow> config" where
  "exclude cfg =
     (let excluded = map fst (c_Excluded cfg)
      in if excluded = [] then cfg
         else (excludeOrphanedChecks excluded cfg)\<lparr>c_Processes := excludeProcesses excluded (c_Processes cfg)\<rparr>)"

definition load_tree :: "fsys \<Rightarrow> string list \<Rightarrow> node option \<Rightarrow> config_error + config" where
  "load_tree fs environ n =
     result_bind (load_globals n) (\<lambda>cfg.
     result_bind (map_each (load_process fs (envFromOS environ) cfg) (Items (Get n ''processes''))) (\<lambda>ps.
     result_bind (load_checks (Entries (Get n ''checks''))) (\<lambda>checks.
     let cfg = cfg\<lparr>c_Checks := checks, c_LogTargets := load_targets (Entries (Get n ''log-targets'')), c_Processes := map fst ps,
           c_Excluded := List.map_filter (\<lambda>(p, r). map_option (\<lambda>why. (procName p, why)) r) ps\<rparr>
     in result_bind (validate cfg) (\<lambda>_. Inr (exclude cfg)))))"

definition Unmarshal :: "fsys \<Rightarrow> string list \<Rightarrow> string \<Rightarrow> config_error + config" where
  "Unmarshal fs environ text = result_bind (map_sum Yaml_error Some (Yaml.Parse text)) (load_tree fs environ)"

section \<open>What is accepted\<close>

lemma guard_iff [simp]: "guard b e = Inr u \<longleftrightarrow> b"
  by (simp add: guard_def)

lemma check_each_iff: "check_each f xs = Inr u \<longleftrightarrow> (\<forall>x\<in>set xs. f x = Inr ())"
  by (induction xs) (auto simp: result_bind_eq_Inr)

lemma map_each_iff: "map_each f xs = Inr ys \<longleftrightarrow> list_all2 (\<lambda>x y. f x = Inr y) xs ys"
  by (induction xs arbitrary: ys) (auto simp: result_bind_eq_Inr list_all2_Cons1)

lemma map_each_in: "map_each f xs = Inr ys \<Longrightarrow> y \<in> set ys \<Longrightarrow> \<exists>x\<in>set xs. f x = Inr y"
  by (induction xs arbitrary: ys) (auto simp: result_bind_eq_Inr)

lemma fold_update_in: "(k, v) \<in> set (fold (\<lambda>(k, v). AList.update k v) es acc) \<Longrightarrow> (k, v) \<in> set es \<or> (k, v) \<in> set acc"
proof (induction es arbitrary: acc)
  case (Cons e es)
  obtain a b where e: "e = (a, b)" by fastforce
  have "(k, v) \<in> set (AList.update a b acc) \<Longrightarrow> (k, v) = (a, b) \<or> (k, v) \<in> set acc" for acc
    by (induction acc) (auto split: if_splits)
  then show ?case using Cons e by fastforce
qed simp

text \<open>The fields the rules look at are those of the process before others were left out.\<close>

definition without :: "string list \<Rightarrow> Process \<Rightarrow> Process" where
  "without names p =
     p\<lparr>p_After := filter (\<lambda>d. d \<notin> set names) (p_After p), p_Before := filter (\<lambda>d. d \<notin> set names) (p_Before p),
       p_Requires := filter (\<lambda>d. d \<notin> set names) (p_Requires p)\<rparr>"

lemma without_simps [simp]:
  "p_Command (without ns p) = p_Command p" "p_Name (without ns p) = p_Name p" "p_Startup (without ns p) = p_Startup p"
  "p_Schedule (without ns p) = p_Schedule p" "p_StopSignal (without ns p) = p_StopSignal p"
  "p_OnSuccess (without ns p) = p_OnSuccess p" "p_OnFailure (without ns p) = p_OnFailure p"
  "p_OnCheckFailure (without ns p) = p_OnCheckFailure p" "p_SignalRewrite (without ns p) = p_SignalRewrite p"
  "p_KillDelay (without ns p) = p_KillDelay p" "p_BackoffDelay (without ns p) = p_BackoffDelay p"
  "p_BackoffLimit (without ns p) = p_BackoffLimit p"
  by (simp_all add: without_def)

lemma procName_without [simp]: "procName (without ns p) = procName p"
  by (simp add: procName_def)

lemma is_scheduled_without [simp]: "is_scheduled (without ns p) = is_scheduled p"
  by (simp add: is_scheduled_def)

lemma deps_without:
  "set (p_After (without ns p) @ p_Before (without ns p) @ p_Requires (without ns p)) =
   set (p_After p @ p_Before p @ p_Requires p) - set ns"
  by (auto simp: without_def)

lemma excludeProcesses_without:
  "excludeProcesses ns ps = map (without ns) (filter (\<lambda>p. procName p \<notin> set ns) ps)"
  by (simp add: excludeProcesses_def without_def Let_def)

lemma exclude_fields:
  "c_Excluded (exclude cfg) = c_Excluded cfg" "ShutdownSignals (exclude cfg) = ShutdownSignals cfg"
  "c_Processes (exclude cfg) = excludeProcesses (map fst (c_Excluded cfg)) (c_Processes cfg)"
  by (simp_all add: exclude_def excludeOrphanedChecks_def Let_def ShutdownSignals_def excludeProcesses_def)

lemma scheduled_names_exclude: "set (scheduled_names (c_Processes (exclude cfg))) \<subseteq> set (scheduled_names (c_Processes cfg))"
  by (auto simp: scheduled_names_def exclude_fields excludeProcesses_without)

text \<open>The rules, as \<open>validate\<close> checks them.\<close>

lemma validate_process_iff:
  "validate_process sd sc p = Inr u \<longleftrightarrow>
     p_Command p \<noteq> [] \<and> \<not> list_ex name_space (procName p) \<and> ValidateExitAction (p_OnSuccess p) \<and> ValidateExitAction (p_OnFailure p) \<and>
     (p_StopSignal p = [] \<or> ParseSignal (p_StopSignal p) \<noteq> None) \<and>
     (\<forall>ca\<in>set (p_OnCheckFailure p). ValidateExitAction (snd ca)) \<and>
     (\<forall>kv\<in>set (p_SignalRewrite p). fst kv \<notin> set (reserved_keys sd)) \<and> validateScheduled (procName p) sc p = Inr ()"
  unfolding validate_process_def Let_def validateSignalRewrite_def
  by (auto simp: result_bind_eq_Inr check_each_iff)

lemma validateScheduled_deps:
  "validateScheduled name sc p = Inr u \<Longrightarrow> set (p_After p @ p_Before p @ p_Requires p) \<inter> set sc = {}"
  unfolding validateScheduled_def by (auto simp: result_bind_eq_Inr check_each_iff)

lemma validateScheduled_cron:
  "validateScheduled name sc p = Inr u \<Longrightarrow> p_Startup p = ''scheduled'' \<Longrightarrow> Cron.Parse (p_Schedule p) \<noteq> Some (Inl e)"
  unfolding validateScheduled_def scheduled_contract_def is_scheduled_def
  by (auto simp: result_bind_eq_Inr split: option.splits sum.splits)

definition duration_error :: "svc_error \<Rightarrow> bool" where
  "duration_error e =
     (case e of Bad_kill_delay s \<Rightarrow> True | Negative_kill_delay s \<Rightarrow> True | Bad_backoff_delay s \<Rightarrow> True
      | Bad_backoff_limit s \<Rightarrow> True | _ \<Rightarrow> False)"

lemma ParseExitAction_valid: "ValidateExitAction s \<Longrightarrow> ParseExitAction s a \<noteq> Inl e"
  by (auto simp: ValidateExitAction_def ParseExitAction_def split: option.split)

lemma check_actions_valid: "\<forall>ca\<in>set cs. ValidateExitAction (snd ca) \<Longrightarrow> check_actions cs \<noteq> Inl e"
  by (induction cs rule: check_actions.induct)
    (auto simp: result_bind_eq_Inl ParseExitAction_valid split: sum.split)

lemma parse_delay_error: "parse_delay err d s = Inl e \<Longrightarrow> e = err s"
  by (auto simp: parse_delay_def split: if_splits option.splits)

lemma ParseSignal_default: "ParseSignal [] = Some SIGTERM"
  by code_simp

lemma map_sum_Inl: "map_sum f g r = Inl y \<longleftrightarrow> (\<exists>x. r = Inl x \<and> y = f x)"
  by (cases r) auto

lemma svc_New_without: "svc_New (without ns p) g = Some (Inl e) \<Longrightarrow> svc_New p g = Some (Inl e)"
  unfolding svc_New_def without_simps by (auto simp: result_bind_eq_Inl)

lemma svc_New_errors:
  assumes "validate_process sd sc p = Inr ()" "svc_New p g = Some (Inl e)"
  shows "duration_error e"
proof -
  note v = assms(1) [unfolded validate_process_iff]
  have s: "ParseSignal (p_StopSignal p) \<noteq> None" using v ParseSignal_default by auto
  have a: "check_actions (p_OnCheckFailure p) \<noteq> Inl x" "ParseExitAction (p_OnSuccess p) d \<noteq> Inl y"
      "ParseExitAction (p_OnFailure p) d \<noteq> Inl z" for x y z d
    using v check_actions_valid ParseExitAction_valid by auto
  have c: "p_Startup p = ''scheduled'' \<Longrightarrow> Cron.Parse (p_Schedule p) \<noteq> Some (Inl x)" for x
    using v validateScheduled_cron by blast
  show ?thesis
    using assms(2) s a c unfolding svc_New_def
    by (auto simp: result_bind_eq_Inl map_sum_Inl duration_error_def dest!: parse_delay_error split: if_splits option.splits)
qed

text \<open>Signals that have a name, and entries of \<open>signal-rewrite\<close> between two of them.\<close>

definition named_signal :: "int \<Rightarrow> bool" where
  "named_signal sig = (sig \<in> snd ` set signalMap)"

lemma ParseSignal_named: "ParseSignal s = Some sig \<Longrightarrow> named_signal sig"
proof -
  assume p: "ParseSignal s = Some sig"
  have "named_signal SIGTERM" by code_simp
  then show ?thesis
    using p by (auto simp: ParseSignal_def Let_def named_signal_def image_iff split: if_splits dest!: map_of_SomeD) force+
qed

definition named_rewrite :: "string \<times> string \<Rightarrow> bool" where
  "named_rewrite kv = (\<exists>from to. kv = (SignalName from, SignalName to) \<and> named_signal from \<and> named_signal to)"

definition rewrite_ok :: "int list \<Rightarrow> string \<times> string \<Rightarrow> bool" where
  "rewrite_ok sd kv =
     (\<exists>from to. kv = (SignalName from, SignalName to) \<and> named_signal from \<and> named_signal to \<and> from \<noteq> SIGHUP \<and> from \<notin> set sd)"

lemma canon_rewrite_named:
  assumes "canon_rewrite name raw = Inr es" "kv \<in> set es"
  shows "named_rewrite kv"
proof -
  obtain xs where xs: "map_each (rewrite_entry name) raw = Inr xs" "kv \<in> set xs"
    using assms fold_update_in [of "fst kv" "snd kv" _ "[]"] by (auto simp: canon_rewrite_def result_bind_eq_Inr)
  then obtain r where "rewrite_entry name r = Inr kv" using map_each_in by metis
  then show ?thesis
    using ParseSignal_named by (auto simp: rewrite_entry_def named_rewrite_def split: option.splits)
qed

lemma raw_process_startup: "p_Startup (raw_process n startup) = startup"
  by (simp add: raw_process_def Let_def)

lemma parseProcess_facts:
  assumes "parseProcess fs env node = Inr p"
  shows "p_Startup p \<in> set startups \<and>
    list_all named_rewrite (p_SignalRewrite p)"
proof -
  obtain startup codes rewrite factor name raw where r: "startup_of fs env (Some node) = Inr startup"
      "canon_rewrite name raw = Inr rewrite"
      "p = (raw_process (Some node) startup)\<lparr>p_ExitCodeMap := codes, p_SignalRewrite := rewrite, p_BackoffFactor := factor,
         p_Prefix := String_of (Get (Some node) ''prefix'')\<rparr>"
    using assms unfolding parseProcess_def Let_def by (auto simp: result_bind_eq_Inr)
  have "startup \<in> set startups"
    using r(1) unfolding startup_of_def Let_def by (auto split: sum.splits if_splits prod.splits)
  then show ?thesis using r(3) canon_rewrite_named [OF r(2)] by (simp add: raw_process_startup list_all_iff)
qed

lemma rewrite_ok_intro:
  assumes "fst kv \<notin> set (reserved_keys sd)"
    "named_rewrite kv"
  shows "rewrite_ok sd kv"
proof -
  obtain a b where r: "kv = (SignalName a, SignalName b)" "named_signal a" "named_signal b"
    using assms(2) by (auto simp: named_rewrite_def)
  have "SignalName SIGHUP = ''SIGHUP''" by code_simp
  then have "a \<noteq> SIGHUP" "a \<notin> set sd" using assms(1) r(1) by (auto simp: reserved_keys_def)
  then show ?thesis using r unfolding rewrite_ok_def by blast
qed

lemma load_tree_cases:
  assumes "load_tree fs environ n = Inr cfg"
  shows "\<exists>cfg0 items ps. cfg = exclude cfg0 \<and> validate cfg0 = Inr () \<and>
    (\<forall>pr\<in>set ps. \<exists>item. load_process fs (envFromOS environ) items item = Inr pr) \<and> c_Processes cfg0 = map fst ps"
proof -
  obtain c ps checks cfg0 where c: "map_each (load_process fs (envFromOS environ) c) (Items (Get n ''processes'')) = Inr ps"
      "cfg0 = c\<lparr>c_Checks := checks, c_LogTargets := load_targets (Entries (Get n ''log-targets'')), c_Processes := map fst ps,
         c_Excluded := List.map_filter (\<lambda>(p, r). map_option (\<lambda>why. (procName p, why)) r) ps\<rparr>"
      "validate cfg0 = Inr ()" "cfg = exclude cfg0"
    using assms unfolding load_tree_def Let_def by (auto simp: result_bind_eq_Inr)
  then show ?thesis by (intro exI [of _ cfg0] exI [of _ c] exI [of _ ps]) (auto dest: map_each_in)
qed

lemma load_process_facts:
  assumes "load_process fs env cfg item = Inr (p, r)"
  shows "p_Startup p \<in> set startups \<and>
    list_all named_rewrite (p_SignalRewrite p)"
  using assms parseProcess_facts [of fs env item] by (auto simp: load_process_def result_bind_eq_Inr)



end
