(* ===== verification/Restart_Backoff.thy ===== *)
theory Restart_Backoff
  imports Service Resource_Limits
begin

text \<open>
  \<open>Next\<close> of \<open>internal/backoff/backoff.go\<close>, in the double arithmetic of \<open>Go_Float\<close>. \<open>math.Pow\<close> and the
  random number are arguments, as is the machine's conversion of a value out of range.
\<close>

fun fadd :: "float64 \<Rightarrow> float64 \<Rightarrow> float64" where
  "fadd NaN y = NaN"
| "fadd x NaN = NaN"
| "fadd (Finite x) (Finite y) = round64 (x + y)"
| "fadd (Infinite s) (Finite y) = Infinite s"
| "fadd (Finite x) (Infinite t) = Infinite t"
| "fadd (Infinite s) (Infinite t) = (if s = t then Infinite s else NaN)"

fun fless :: "float64 \<Rightarrow> float64 \<Rightarrow> bool" where
  "fless (Finite x) (Finite y) = (x < y)"
| "fless (Infinite s) (Finite y) = (\<not> s)"
| "fless (Finite x) (Infinite t) = t"
| "fless (Infinite s) (Infinite t) = (\<not> s \<and> t)"
| "fless x y = False"

definition to_duration :: "int \<Rightarrow> float64 \<Rightarrow> duration" where
  "to_duration oor x = (case x of Finite v \<Rightarrow> to_int64 oor v | _ \<Rightarrow> oor)"

text \<open>The delay before jitter, and the backoff with its limit noted.\<close>

definition base_delay :: "(float64 \<Rightarrow> float64 \<Rightarrow> float64) \<Rightarrow> Backoff \<Rightarrow> float64 \<times> Backoff" where
  "base_delay pow b =
     (let limit = round64 (of_int (bo_Limit b))
      in if bo_atLimit b then (limit, b)
         else let d = fmul (round64 (of_int (bo_delay b))) (pow (bo_factor b) (round64 (of_int (bo_attempt b))))
              in if fless limit d then (limit, b\<lparr>bo_atLimit := True\<rparr>) else (d, b))"

definition backoff_Next :: "(float64 \<Rightarrow> float64 \<Rightarrow> float64) \<Rightarrow> float64 \<Rightarrow> int \<Rightarrow> Backoff \<Rightarrow> duration \<times> Backoff" where
  "backoff_Next pow rand oor b =
     (case base_delay pow b of
        (d, b1) \<Rightarrow>
          let jitter = fmul (fmul d (round64 (1 / 10))) (fadd (fmul (Finite 2) rand) (Finite (- 1)));
              d1 = fadd d jitter;
              d2 = (if fless d1 (Finite 0) then Finite 0 else d1)
          in (to_duration oor d2, b1\<lparr>bo_attempt := wrap64 (bo_attempt b1 + 1)\<rparr>))"

text \<open>Once the limit is reached the delay no longer depends on the power, until \<open>Reset\<close>.\<close>

lemma Next_at_limit:
  assumes "bo_atLimit b"
  shows "fst (backoff_Next pow rand oor b) = fst (backoff_Next pow' rand oor b) \<and> bo_atLimit (snd (backoff_Next pow rand oor b))"
  using assms by (simp add: backoff_Next_def base_delay_def Let_def)

text \<open>No delay is negative, where the machine's out-of-range value is not.\<close>

lemma Next_nonneg: "0 \<le> oor \<Longrightarrow> 0 \<le> fst (backoff_Next pow rand oor b)"
proof -
  assume oor: "0 \<le> oor"
  have "0 \<le> to_duration oor (if fless d (Finite 0) then Finite 0 else d)" for d
    using oor by (cases d) (auto simp: to_duration_def to_int64_def Go_Float.truncate_def)
  then show ?thesis by (simp add: backoff_Next_def Let_def case_prod_beta)
qed

end
