(* ===== verification/Daemon.thy ===== *)
theory Daemon
  imports Yml_Config Order Metrics Reaper Restart_Backoff
begin

text \<open>
  The supervisor itself: \<open>daemon.go\<close>, the reap loop of \<open>run.go\<close>, \<open>lifecycle.go\<close> and \<open>sched.go\<close>. A
  \<open>*service.Service\<close> is an index into the heap of instances, because a reload replaces the instance of
  a name while the old one is still running. Everything that happens under \<open>d.mu\<close> is one step; a
  goroutine that waits in between (the shutdown, an ordered restart, a reload) is a program counter in
  the state. What the outside answers is the record \<open>world\<close>.
\<close>

section \<open>State\<close>

record restartReq =
  req_svc :: nat
  req_done :: "nat option"
  req_delay :: duration

text \<open>Where the goroutine of \<open>stopAll\<close> is; the lists are the names still to visit and those stopped.\<close>

datatype stopper =
    Not_called
  | Called
  | Ordered "string list" "string list"
  | Wait_ordered nat "nat option" "string list" "string list"
  | Others "string list" "string list"
  | Wait_others nat "nat option" "string list" "string list"
  | Wait_all "(nat \<times> nat option) list"
  | Stopped

text \<open>Where an ordered restart is: instances to stop, one being waited for, instances to start.\<close>

datatype job_pc =
    J_stop "nat list"
  | J_wait nat "nat option" "nat list"
  | J_start "nat list"
  | J_end

record job =
  j_cfg :: config
  j_svc :: nat
  j_deps :: "nat list"
  j_pc :: job_pc
  j_stopped :: nat

datatype reload_pc = R_idle | R_wait "(nat \<times> nat option) list" "nat list" | R_start "nat list"

record daemon =
  d_cfg :: config
  d_heap :: "svc list"
  d_services :: "(string \<times> nat) list"
  d_m :: metrics
  d_pidMap :: "(int \<times> nat) list"
  d_requests :: "restartReq list"
  d_reaper :: registry
  d_restartPending :: "string list"
  d_pendingRestarts :: int
  d_shuttingDown :: bool
  d_started :: bool
  d_exitCode :: int
  d_calls :: "int list"
  d_stopper :: stopper
  d_jobs :: "job list"
  d_reload :: reload_pc
  d_controlSocket :: string
  d_shutdownMode :: string
  d_entrypointArgs :: "string list"
  d_shutdownSeq :: "string list"
  d_kills :: "kill list"

record world =
  w_now :: int
  w_stat :: "string \<Rightarrow> string + bool"
  w_text :: "condition_reason \<Rightarrow> string"
  w_host :: host
  w_listen :: bool
  w_pipes :: bool
  w_spawn :: "int option"
  w_pow :: "float64 \<Rightarrow> float64 \<Rightarrow> float64"
  w_rand :: float64
  w_oor :: int
  w_url_ok :: "string \<Rightarrow> bool"
  w_ready :: bool
  w_notify :: bool

abbreviation inst :: "daemon \<Rightarrow> nat \<Rightarrow> svc" where
  "inst d i \<equiv> d_heap d ! i"

definition set_inst :: "nat \<Rightarrow> svc \<Rightarrow> daemon \<Rightarrow> daemon" where
  "set_inst i s d = d\<lparr>d_heap := (d_heap d)[i := s]\<rparr>"

text \<open>A receive on a captured channel returns.\<close>

definition chan_closed :: "daemon \<Rightarrow> nat \<Rightarrow> nat option \<Rightarrow> bool" where
  "chan_closed d i c = (case c of None \<Rightarrow> True | Some k \<Rightarrow> dones (inst d i) ! k)"

definition stop_inst :: "int \<Rightarrow> nat \<Rightarrow> daemon \<Rightarrow> daemon" where
  "stop_inst now i d =
     (case svc_Stop now (inst d i) of (ks, s) \<Rightarrow> (set_inst i s d)\<lparr>d_kills := d_kills d @ ks\<rparr>)"

definition with_m :: "(metrics \<Rightarrow> metrics) \<Rightarrow> daemon \<Rightarrow> daemon" where
  "with_m f d = d\<lparr>d_m := f (d_m d)\<rparr>"

section \<open>Reading the configuration file\<close>

definition maxConfigFileSize :: nat where "maxConfigFileSize = 4 * 2 ^ 20"

datatype config_file_error =
    Config_symlink | Config_open | Config_stat | Config_not_regular | Config_world_writable | Config_owner nat
  | Config_read | Config_size

datatype config_open = Cfg_eloop | Cfg_open_failed | Cfg_stat_failed | Cfg_opened bool nat int "string option"

definition readConfigFile :: "nat \<Rightarrow> config_open \<Rightarrow> config_file_error + string" where
  "readConfigFile own f =
     (case f of
        Cfg_eloop \<Rightarrow> Inl Config_symlink
      | Cfg_open_failed \<Rightarrow> Inl Config_open
      | Cfg_stat_failed \<Rightarrow> Inl Config_stat
      | Cfg_opened reg uid fmode content \<Rightarrow>
          if \<not> reg then Inl Config_not_regular
          else if and fmode 2 \<noteq> 0 then Inl Config_world_writable
          else if uid \<noteq> 0 \<and> uid \<noteq> own then Inl (Config_owner uid)
          else case content of
            None \<Rightarrow> Inl Config_read
          | Some s \<Rightarrow> if maxConfigFileSize < length s then Inl Config_size else Inr s)"

section \<open>Starting\<close>

datatype start_fail =
    Shutting_down | Service_replaced | Already_running int | Condition_unmet
  | Prepare_failed prepare_error | Finish_failed Service.start_error

text \<open>The part of \<open>startService\<close> under the lock.\<close>

definition start_locked :: "world \<Rightarrow> StartPlan \<Rightarrow> nat \<Rightarrow> daemon \<Rightarrow> (start_fail + int) \<times> daemon" where
  "start_locked w plan i d =
     (let s = inst d i
      in if d_shuttingDown d then (Inl Shutting_down, d)
         else if map_of (d_services d) (s_Name s) \<noteq> Some i then (Inl Service_replaced, d)
         else if IsRunning s then (Inl (Already_running (s_Pid s)), d)
         else case FinishStart (w_now w) (w_listen w) (w_pipes w) (w_spawn w) plan s of
           (Inl e, s') \<Rightarrow> (Inl (Finish_failed e), set_inst i s' d)
         | (Inr pid, s') \<Rightarrow>
             (Inr pid, with_m (ServiceStarted (s_Name s) pid (w_now w))
               ((set_inst i s' d)\<lparr>d_pidMap := AList.update pid i (d_pidMap d)\<rparr>)))"

definition startService :: "world \<Rightarrow> nat \<Rightarrow> daemon \<Rightarrow> (start_fail + int) \<times> daemon" where
  "startService w i d =
     (case UnmetCondition (w_stat w) (inst d i) of
        Some r \<Rightarrow> (Inl Condition_unmet, with_m (ServiceSkipped (s_Name (inst d i)) (w_text w r)) d)
      | None \<Rightarrow>
          (case PrepareStart (w_host w) (d_controlSocket d) (inst d i) of
             Inl e \<Rightarrow> (Inl (Prepare_failed e), d)
           | Inr plan \<Rightarrow> start_locked w (StartPlan.truncate plan) i d))"

definition benign :: "start_fail \<Rightarrow> bool" where
  "benign e = (case e of Shutting_down \<Rightarrow> True | Service_replaced \<Rightarrow> True | Already_running p \<Rightarrow> True | Condition_unmet \<Rightarrow> True | _ \<Rightarrow> False)"

section \<open>Restart requests\<close>

definition markRestartPending :: "string \<Rightarrow> daemon \<Rightarrow> daemon" where
  "markRestartPending name d = d\<lparr>d_restartPending := List.insert name (d_restartPending d)\<rparr>"

definition takeRestartPending :: "string \<Rightarrow> daemon \<Rightarrow> bool \<times> daemon" where
  "takeRestartPending name d =
     (name \<in> set (d_restartPending d), d\<lparr>d_restartPending := filter (\<lambda>n. n \<noteq> name) (d_restartPending d)\<rparr>)"

definition enqueue :: "restartReq \<Rightarrow> daemon \<Rightarrow> daemon" where
  "enqueue req d = d\<lparr>d_requests := d_requests d @ [req], d_pendingRestarts := d_pendingRestarts d + 1\<rparr>"

text \<open>Stop the instance if it runs, and count its exit as a restart.\<close>

definition stop_and_mark :: "int \<Rightarrow> nat \<Rightarrow> daemon \<Rightarrow> daemon" where
  "stop_and_mark now i d =
     (let name = s_Name (inst d i)
      in with_m (ServiceRestarted name)
           (if IsRunning (inst d i) then markRestartPending name (stop_inst now i d) else d))"

definition restart_now :: "int \<Rightarrow> nat \<Rightarrow> daemon \<Rightarrow> daemon" where
  "restart_now now i d =
     enqueue \<lparr>req_svc = i, req_done = done_chan (inst d i), req_delay = 0\<rparr> (stop_and_mark now i d)"

text \<open>
  \<open>handleRestartReq\<close> for the \<open>k\<close>-th request, once its channel is closed and its delay is over; the
  goroutine around it takes the request off the count.
\<close>

definition settle_request :: "nat \<Rightarrow> daemon \<Rightarrow> daemon" where
  "settle_request k d =
     d\<lparr>d_requests := take k (d_requests d) @ drop (Suc k) (d_requests d), d_pendingRestarts := d_pendingRestarts d - 1\<rparr>"

definition handleRestartReq :: "world \<Rightarrow> nat \<Rightarrow> daemon \<Rightarrow> daemon option" where
  "handleRestartReq w k d =
     (let req = d_requests d ! k; i = req_svc req
      in if \<not> chan_closed d i (req_done req) then None
         else if IsRunning (inst d i) then Some (settle_request k d)
         else case startService w i d of
           (Inr pid, d') \<Rightarrow> Some (settle_request k d')
         | (Inl e, d') \<Rightarrow> Some (settle_request k (if benign e then d' else d'\<lparr>d_calls := d_calls d' @ [1]\<rparr>)))"

section \<open>Shutdown\<close>

definition to_int32 :: "int \<Rightarrow> int" where
  "to_int32 c = (c + 2 ^ 31) mod 2 ^ 32 - 2 ^ 31"

definition reverseSeq :: "daemon \<Rightarrow> string list" where
  "reverseSeq d = rev (d_shutdownSeq d)"

definition running_names :: "daemon \<Rightarrow> (string \<times> nat) list" where
  "running_names d = filter (\<lambda>(n, i). IsRunning (inst d i)) (d_services d)"

text \<open>The flag is swapped by the first of the pending calls; the lock is taken in a later step.\<close>

definition initiateShutdown :: "int \<Rightarrow> daemon \<Rightarrow> daemon" where
  "initiateShutdown code d =
     (if d_shuttingDown d then d
      else d\<lparr>d_shuttingDown := True, d_exitCode := to_int32 code, d_stopper := Called\<rparr>)"

definition stopSimultaneous :: "int \<Rightarrow> daemon \<Rightarrow> daemon" where
  "stopSimultaneous now d =
     (fold (\<lambda>(n, i). stop_inst now i) (running_names d) d)
       \<lparr>d_stopper := Wait_all (map (\<lambda>(n, i). (i, done_chan (inst d i))) (running_names d))\<rparr>"

definition stopAll :: "int \<Rightarrow> daemon \<Rightarrow> daemon" where
  "stopAll now d =
     (if d_shutdownMode d = [] \<or> d_shutdownMode d = ShutdownReverseDep then d\<lparr>d_stopper := Ordered (reverseSeq d) []\<rparr>
      else if d_shutdownMode d = ShutdownDep then d\<lparr>d_stopper := Ordered (d_shutdownSeq d) []\<rparr>
      else stopSimultaneous now d)"

text \<open>
  The next step of the goroutine of \<open>stopAll\<close>; \<^const>\<open>None\<close> while it waits for an exit. \<open>WaitGroupExit\<close>
  only delays it and changes nothing of the daemon.
\<close>

definition stop_visit ::
  "int \<Rightarrow> nat \<Rightarrow> (nat \<Rightarrow> nat option \<Rightarrow> stopper) \<Rightarrow> daemon \<Rightarrow> daemon" where
  "stop_visit now i next_pc d = (stop_inst now i d)\<lparr>d_stopper := next_pc i (done_chan (inst d i))\<rparr>"

fun stopper_step :: "int \<Rightarrow> stopper \<Rightarrow> daemon \<Rightarrow> daemon option" where
  "stopper_step now Not_called d = None"
| "stopper_step now Called d = Some (stopAll now d)"
| "stopper_step now (Ordered [] st) d = Some (d\<lparr>d_stopper := Others (map fst (d_services d)) st\<rparr>)"
| "stopper_step now (Ordered (n # ns) st) d =
     Some (case map_of (d_services d) n of
             None \<Rightarrow> d\<lparr>d_stopper := Ordered ns st\<rparr>
           | Some i \<Rightarrow>
               if IsRunning (inst d i) then stop_visit now i (\<lambda>i c. Wait_ordered i c ns (n # st)) d
               else d\<lparr>d_stopper := Ordered ns st\<rparr>)"
| "stopper_step now (Wait_ordered i c ns st) d =
     (if chan_closed d i c then Some (d\<lparr>d_stopper := Ordered ns st\<rparr>) else None)"
| "stopper_step now (Others [] st) d = Some (d\<lparr>d_stopper := Stopped\<rparr>)"
| "stopper_step now (Others (n # ns) st) d =
     Some (case map_of (d_services d) n of
             None \<Rightarrow> d\<lparr>d_stopper := Others ns st\<rparr>
           | Some i \<Rightarrow>
               if n \<notin> set st \<and> IsRunning (inst d i) then stop_visit now i (\<lambda>i c. Wait_others i c ns st) d
               else d\<lparr>d_stopper := Others ns st\<rparr>)"
| "stopper_step now (Wait_others i c ns st) d =
     (if chan_closed d i c then Some (d\<lparr>d_stopper := Others ns st\<rparr>) else None)"
| "stopper_step now (Wait_all []) d = Some (d\<lparr>d_stopper := Stopped\<rparr>)"
| "stopper_step now (Wait_all ((i, c) # ws)) d =
     (if chan_closed d i c then Some (d\<lparr>d_stopper := Wait_all ws\<rparr>) else None)"
| "stopper_step now Stopped d = None"

section \<open>Failed checks\<close>

fun check_failure_loop :: "int \<Rightarrow> string \<Rightarrow> (string \<times> nat) list \<Rightarrow> daemon \<Rightarrow> daemon" where
  "check_failure_loop now checkName [] d = d"
| "check_failure_loop now checkName ((n, i) # rest) d =
     (case map_of (s_OnCheckFailure (inst d i)) checkName of
        None \<Rightarrow> check_failure_loop now checkName rest d
      | Some ActionRestart \<Rightarrow> check_failure_loop now checkName rest (restart_now now i d)
      | Some ActionShutdown \<Rightarrow> d\<lparr>d_calls := d_calls d @ [1]\<rparr>
      | Some ActionSuccessShutdown \<Rightarrow> d\<lparr>d_calls := d_calls d @ [0]\<rparr>
      | Some ActionFailureShutdown \<Rightarrow> d\<lparr>d_calls := d_calls d @ [1]\<rparr>
      | Some ActionIgnore \<Rightarrow> check_failure_loop now checkName rest d)"

definition handleCheckFailure :: "int \<Rightarrow> string \<Rightarrow> daemon \<Rightarrow> daemon" where
  "handleCheckFailure now checkName d =
     (if d_shuttingDown d then d else check_failure_loop now checkName (d_services d) d)"

section \<open>The reap loop\<close>

text \<open>The action that follows an exit.\<close>

definition exit_action :: "svc \<Rightarrow> int \<Rightarrow> ExitAction" where
  "exit_action s effectiveCode =
     (if WasStopped s then ActionIgnore
      else if s_Scheduled s then ActionIgnore
      else if s_Oneshot s then
        (if effectiveCode = 0 then ActionIgnore
         else case ParseExitAction (p_OnFailure (Proc s)) ActionIgnore of Inl e \<Rightarrow> ActionIgnore | Inr a \<Rightarrow> a)
      else if effectiveCode = 0 then s_OnSuccess s
      else s_OnFailure s)"

definition fails_dependents :: "svc \<Rightarrow> int \<Rightarrow> bool" where
  "fails_dependents s effectiveCode = (\<not> WasStopped s \<and> \<not> s_Scheduled s \<and> \<not> s_Oneshot s \<and> effectiveCode \<noteq> 0)"

definition stop_dependents :: "int \<Rightarrow> string \<Rightarrow> daemon \<Rightarrow> daemon" where
  "stop_dependents now name d =
     fold (\<lambda>(n, i) d. if name \<in> set (s_Requires (inst d i)) \<and> IsRunning (inst d i) then stop_inst now i d else d) (d_services d) d"

definition restart_after_exit :: "world \<Rightarrow> duration \<Rightarrow> nat \<Rightarrow> daemon \<Rightarrow> daemon" where
  "restart_after_exit w runDuration i d =
     (let s = inst d i;
          b = (if bo_Limit (s_Backoff s) \<le> runDuration then backoff_Reset (s_Backoff s) else s_Backoff s)
      in case backoff_Next (w_pow w) (w_rand w) (w_oor w) b of
           (delay, b') \<Rightarrow>
             enqueue \<lparr>req_svc = i, req_done = done_chan s, req_delay = delay\<rparr>
               (with_m (ServiceRestarted (s_Name s)) (set_inst i (s\<lparr>s_Backoff := b'\<rparr>) d)))"

definition take_action :: "world \<Rightarrow> duration \<Rightarrow> nat \<Rightarrow> int \<Rightarrow> ExitAction \<Rightarrow> daemon \<Rightarrow> daemon" where
  "take_action w runDuration i effectiveCode action d =
     (case action of
        ActionRestart \<Rightarrow> restart_after_exit w runDuration i d
      | ActionShutdown \<Rightarrow> d\<lparr>d_exitCode := (if d_exitCode d = 0 then to_int32 effectiveCode else d_exitCode d), d_calls := d_calls d @ [effectiveCode]\<rparr>
      | ActionFailureShutdown \<Rightarrow> d\<lparr>d_exitCode := (if d_exitCode d = 0 then to_int32 effectiveCode else d_exitCode d), d_calls := d_calls d @ [effectiveCode]\<rparr>
      | ActionSuccessShutdown \<Rightarrow> d\<lparr>d_calls := d_calls d @ [0]\<rparr>
      | ActionIgnore \<Rightarrow> d)"

text \<open>The code an exit counts as: mapped first, then 0 for a signal death that was asked for.\<close>

definition effective_code :: "svc \<Rightarrow> int \<Rightarrow> int" where
  "effective_code s code =
     (let c = RemapExitCode s code in if WasStopped s \<and> 128 < c then 0 else c)"

definition managed_exit :: "world \<Rightarrow> duration \<Rightarrow> nat \<Rightarrow> int \<Rightarrow> daemon \<Rightarrow> daemon" where
  "managed_exit w runDuration i code d =
     (let s = inst d i; eff = effective_code s code in
      case takeRestartPending (s_Name s) d of
        (consumed, d1) \<Rightarrow>
          if d_shuttingDown d1 then (if consumed then d1 else with_m (ServiceExited (s_Name s) eff) d1)
          else
            let action = exit_action s eff;
                d2 = (if fails_dependents s eff then stop_dependents (w_now w) (s_Name s) d1 else d1);
                d3 = (if \<not> consumed \<and> action \<noteq> ActionRestart then with_m (ServiceExited (s_Name s) eff) d2 else d2)
            in take_action w runDuration i eff action d3)"

text \<open>\<open>Wait4\<close> returned a child. \<^const>\<open>None\<close> is a panic or a blocked send.\<close>

definition reap :: "world \<Rightarrow> int \<Rightarrow> wait_status \<Rightarrow> daemon \<Rightarrow> daemon option" where
  "reap w pid ws d =
     (case map_of (d_pidMap d) pid of
        Some i \<Rightarrow>
          (case MarkExited (w_now w) (inst d i) of
             None \<Rightarrow> None
           | Some (runDuration, s') \<Rightarrow>
               Some (managed_exit w runDuration i (waitStatusCode ws)
                 (set_inst i s' (d\<lparr>d_pidMap := AList.delete pid (d_pidMap d)\<rparr>))))
      | None \<Rightarrow> map_option (\<lambda>(r, b). d\<lparr>d_reaper := r\<rparr>) (Deliver pid (waitStatusCode ws) (d_reaper d)))"

text \<open>The loop ends after a reap, or when there is no child left.\<close>

definition loop_ends :: "daemon \<Rightarrow> bool" where
  "loop_ends d = (d_shuttingDown d \<and> d_pidMap d = [])"

end
