(* ===== verification/Lifecycle.thy ===== *)
theory Lifecycle
  imports Daemon
begin

text \<open>
  The commands of the control socket and what they set in motion: \<open>lifecycle.go\<close>, the callbacks of
  \<open>setupControl\<close> in \<open>daemon.go\<close> and the scheduled runs of \<open>sched.go\<close>. What a waiting client is told
  depends on the outcome of its wait, an argument; the work goes on in any case.
\<close>

section \<open>Dependents\<close>

text \<open>The inner loop of \<open>dependentClosure\<close>: the names it adds go to the closure and to the frontier.\<close>

definition add_dependent :: "string \<Rightarrow> string \<Rightarrow> string list \<Rightarrow> string \<times> string list \<Rightarrow> string list \<Rightarrow> string list" where
  "add_dependent name cur closure other new =
     (if cur \<in> set (snd other) \<and> fst other \<notin> set (closure @ new) \<and> fst other \<noteq> name then new @ [fst other] else new)"

definition dependents_of :: "(string \<times> string list) list \<Rightarrow> string \<Rightarrow> string \<Rightarrow> string list \<Rightarrow> string list" where
  "dependents_of reqs name cur closure = fold (add_dependent name cur closure) reqs []"

definition requirers :: "(string \<times> string list) list \<Rightarrow> string \<Rightarrow> string set" where
  "requirers reqs cur = {n. \<exists>rs. (n, rs) \<in> set reqs \<and> cur \<in> set rs}"

lemma fold_add_dependent:
  "set (fold (add_dependent name cur closure) reqs acc) = set acc \<union> (requirers reqs cur - set closure - {name})"
  "distinct acc \<Longrightarrow> distinct (fold (add_dependent name cur closure) reqs acc)"
proof (induction reqs arbitrary: acc)
  case (Cons x reqs)
  have r: "requirers (x # reqs) cur = requirers reqs cur \<union> (if cur \<in> set (snd x) then {fst x} else {})"
    by (cases x) (auto simp: requirers_def)
  { case 1 show ?case unfolding r using Cons(1) [of "add_dependent name cur closure x acc"] by (auto simp: add_dependent_def) }
  { case 2 then show ?case using Cons(2) [of "add_dependent name cur closure x acc"] by (auto simp: add_dependent_def) }
qed (simp_all add: requirers_def)

lemma dependents_of_set:
  "set (dependents_of reqs name cur closure) = requirers reqs cur - set closure - {name}"
  "distinct (dependents_of reqs name cur closure)"
  by (simp_all add: dependents_of_def fold_add_dependent)

function closure_loop :: "(string \<times> string list) list \<Rightarrow> string \<Rightarrow> string list \<Rightarrow> string list \<Rightarrow> string list" where
  "closure_loop reqs name [] closure = closure"
| "closure_loop reqs name (cur # frontier) closure =
     (let new = dependents_of reqs name cur closure
      in closure_loop reqs name (frontier @ new) (closure @ new))"
  by pat_completeness auto

termination
proof (relation "measure (\<lambda>(reqs, name, frontier, closure). 2 * card (fst ` set reqs - set closure) + length frontier)", goal_cases)
  case (2 reqs name cur frontier closure new)
  have new: "set new \<subseteq> fst ` set reqs - set closure" "distinct new"
    using 2 dependents_of_set [of reqs name cur closure] by (force simp: requirers_def)+
  have "card (fst ` set reqs - set (closure @ new)) = card (fst ` set reqs - set closure - set new)"
    by (simp add: Diff_eq Int_assoc)
  also have "\<dots> = card (fst ` set reqs - set closure) - length new"
    using new by (simp add: card_Diff_subset distinct_card)
  finally have "card (fst ` set reqs - set (closure @ new)) + length new = card (fst ` set reqs - set closure)"
    using card_mono [OF _ new(1)] distinct_card [OF new(2)] by simp
  then show ?case by simp
qed simp

definition requirements :: "daemon \<Rightarrow> (string \<times> string list) list" where
  "requirements d = map (\<lambda>(n, i). (s_Name (inst d i), s_Requires (inst d i))) (d_services d)"

definition dependentClosure :: "daemon \<Rightarrow> string \<Rightarrow> string list" where
  "dependentClosure d name = closure_loop (requirements d) name [name] []"

definition runningDependentsLocked :: "daemon \<Rightarrow> string \<Rightarrow> nat list" where
  "runningDependentsLocked d name =
     List.map_filter (\<lambda>n. if n \<in> set (dependentClosure d name)
       then (case map_of (d_services d) n of Some i \<Rightarrow> if IsRunning (inst d i) then Some i else None | None \<Rightarrow> None)
       else None) (d_shutdownSeq d)"

text \<open>The closure is the transitive closure of \<open>requires\<close>, the service itself left out.\<close>

definition requires_rel :: "(string \<times> string list) list \<Rightarrow> (string \<times> string) set" where
  "requires_rel reqs = {(n, r). n \<in> requirers reqs r}"

definition closure_inv :: "(string \<times> string list) list \<Rightarrow> string \<Rightarrow> string list \<Rightarrow> string list \<Rightarrow> bool" where
  "closure_inv reqs name frontier closure =
     (set closure \<subseteq> {n. (n, name) \<in> (requires_rel reqs)\<^sup>+} - {name} \<and> set frontier \<subseteq> insert name (set closure) \<and>
      (\<forall>c \<in> insert name (set closure) - set frontier. requirers reqs c - {name} \<subseteq> set closure))"

lemma closure_inv_step:
  assumes "closure_inv reqs name (cur # frontier) closure"
  shows "closure_inv reqs name (frontier @ dependents_of reqs name cur closure) (closure @ dependents_of reqs name cur closure)"
proof -
  have "(n, name) \<in> (requires_rel reqs)\<^sup>+" if "n \<in> requirers reqs cur" for n
  proof (cases "cur = name")
    case True
    then show ?thesis using that by (auto simp: requires_rel_def)
  next
    case False
    then have "(cur, name) \<in> (requires_rel reqs)\<^sup>+" using assms by (auto simp: closure_inv_def)
    moreover have "(n, cur) \<in> requires_rel reqs" using that by (simp add: requires_rel_def)
    ultimately show ?thesis by (rule trancl_into_trancl2 [rotated])
  qed
  then have new: "set (dependents_of reqs name cur closure) = requirers reqs cur - set closure - {name}"
      "requirers reqs cur \<subseteq> {n. (n, name) \<in> (requires_rel reqs)\<^sup>+}"
    using dependents_of_set(1) by auto
  note old = assms [unfolded closure_inv_def]
  have "set (closure @ dependents_of reqs name cur closure) \<subseteq> {n. (n, name) \<in> (requires_rel reqs)\<^sup>+} - {name}"
    using old new by auto
  moreover have "set (frontier @ dependents_of reqs name cur closure) \<subseteq> insert name (set (closure @ dependents_of reqs name cur closure))"
    using old by auto
  moreover have "requirers reqs c - {name} \<subseteq> set (closure @ dependents_of reqs name cur closure)"
    if "c \<in> insert name (set (closure @ dependents_of reqs name cur closure)) - set (frontier @ dependents_of reqs name cur closure)" for c
    using that old unfolding set_append new(1) by (cases "c = cur") (simp_all, blast+)
  ultimately show ?thesis unfolding closure_inv_def by blast
qed

lemma closure_inv_end:
  assumes "closure_inv reqs name [] closure"
  shows "set closure = {n. (n, name) \<in> (requires_rel reqs)\<^sup>+} - {name}"
proof -
  have all: "requirers reqs c - {name} \<subseteq> set closure" if "c \<in> insert name (set closure)" for c
    using assms that unfolding closure_inv_def by auto
  have "n \<in> insert name (set closure)" if "(n, name) \<in> (requires_rel reqs)\<^sup>+" for n
    using that
  proof (induction rule: converse_trancl_induct)
    case (base n)
    then show ?case using all [of name] by (simp add: requires_rel_def) blast
  next
    case (step n c)
    then show ?case using all [of c] by (simp add: requires_rel_def) blast
  qed
  then show ?thesis using assms unfolding closure_inv_def by blast
qed

lemma closure_loop_correct:
  "closure_inv reqs name frontier closure \<Longrightarrow>
   set (closure_loop reqs name frontier closure) = {n. (n, name) \<in> (requires_rel reqs)\<^sup>+} - {name}"
proof (induction reqs name frontier closure rule: closure_loop.induct)
  case (1 reqs name closure)
  then show ?case using closure_inv_end by simp
next
  case (2 reqs name cur frontier closure)
  show ?case using 2(1) [OF refl closure_inv_step [OF 2(2)]] by (simp only: closure_loop.simps Let_def)
qed

lemma dependentClosure_set: "set (dependentClosure d name) = {n. (n, name) \<in> (requires_rel (requirements d))\<^sup>+} - {name}"
  unfolding dependentClosure_def by (rule closure_loop_correct) (auto simp: closure_inv_def)

section \<open>Starting through the gates\<close>

datatype gate_error =
    Check_not_found string | Check_invalid check_error | Bad_ready_timeout string | Not_ready string | Not_notified
  | Start_failed start_fail

definition ready_gate :: "world \<Rightarrow> config \<Rightarrow> svc \<Rightarrow> gate_error + unit" where
  "ready_gate w cfg s =
     (let rc = p_ReadyCheck (Proc s); rt = p_ReadyTimeout (Proc s)
      in if rc = [] then Inr ()
         else case map_of (c_Checks cfg) rc of
           None \<Rightarrow> Inl (Check_not_found rc)
         | Some checkCfg \<Rightarrow>
             (case check_New (w_url_ok w) rc checkCfg False False of
                Inl e \<Rightarrow> Inl (Check_invalid e)
              | Inr c \<Rightarrow>
                  if rt \<noteq> [] \<and> ParseDuration rt = None then Inl (Bad_ready_timeout rt)
                  else if w_ready w then Inr () else Inl (Not_ready rc)))"

text \<open>The answer is \<open>None\<close> for success; \<open>Already_running\<close> after the gates counts as one for the callers.\<close>

definition startGated :: "world \<Rightarrow> config \<Rightarrow> nat \<Rightarrow> daemon \<Rightarrow> gate_error option \<times> daemon" where
  "startGated w cfg i d =
     (case ready_gate w cfg (inst d i) of
        Inl e \<Rightarrow> (Some e, d)
      | Inr _ \<Rightarrow>
          (case startService w i d of
             (r, d') \<Rightarrow>
               let again = (case r of Inl (Already_running p) \<Rightarrow> True | _ \<Rightarrow> False)
               in case r of
                 Inl e \<Rightarrow>
                   if \<not> again then (Some (Start_failed e), d')
                   else if p_SDNotify (Proc (inst d i)) \<and> \<not> w_notify w then (Some Not_notified, d')
                   else (Some (Start_failed e), d')
               | Inr pid \<Rightarrow>
                   if p_SDNotify (Proc (inst d i)) \<and> \<not> w_notify w then (Some Not_notified, d') else (None, d')))"

section \<open>Ordered restarts\<close>

definition stopForRestart :: "int \<Rightarrow> nat \<Rightarrow> daemon \<Rightarrow> daemon" where
  "stopForRestart now i d =
     (stop_and_mark now i d)\<lparr>d_pendingRestarts := d_pendingRestarts d + 1\<rparr>"

text \<open>Whether the leg is done, or why the restart ends; a failure that is not benign shuts the daemon down.\<close>

definition startForRestart :: "world \<Rightarrow> config \<Rightarrow> nat \<Rightarrow> daemon \<Rightarrow> gate_error option \<times> daemon" where
  "startForRestart w cfg i d =
     (case startGated w cfg i d of
        (None, d') \<Rightarrow> (None, d')
      | (Some (Start_failed (Already_running p)), d') \<Rightarrow> (None, d')
      | (Some (Start_failed Service_replaced), d') \<Rightarrow> (None, d')
      | (Some (Start_failed Condition_unmet), d') \<Rightarrow> (Some (Start_failed Condition_unmet), d')
      | (Some (Start_failed Shutting_down), d') \<Rightarrow> (Some (Start_failed Shutting_down), d')
      | (Some e, d') \<Rightarrow> (Some e, d'\<lparr>d_calls := d_calls d' @ [1]\<rparr>))"

definition new_job :: "config \<Rightarrow> nat \<Rightarrow> nat list \<Rightarrow> job" where
  "new_job cfg i deps = \<lparr>j_cfg = cfg, j_svc = i, j_deps = deps, j_pc = J_stop (rev deps @ [i]), j_stopped = 0\<rparr>"

definition end_job :: "job \<Rightarrow> daemon \<Rightarrow> job \<times> daemon" where
  "end_job j d = (j\<lparr>j_pc := J_end, j_stopped := 0\<rparr>, d\<lparr>d_pendingRestarts := d_pendingRestarts d - int (j_stopped j)\<rparr>)"

text \<open>
  One step of \<open>runRestart\<close>; \<^const>\<open>None\<close> while it waits. A wait may end with the exit or with the
  beginning of the shutdown, whichever the runtime picks when both are there: \<open>see_exit\<close>.
\<close>

definition job_step :: "world \<Rightarrow> bool \<Rightarrow> job \<Rightarrow> daemon \<Rightarrow> (job \<times> daemon) option" where
  "job_step w see_exit j d =
     (case j_pc j of
        J_stop [] \<Rightarrow> Some (j\<lparr>j_pc := J_start (j_svc j # j_deps j)\<rparr>, d)
      | J_stop (i # is) \<Rightarrow>
          if d_shuttingDown d then Some (end_job j d)
          else Some (j\<lparr>j_pc := J_wait i (done_chan (inst d i)) is, j_stopped := Suc (j_stopped j)\<rparr>, stopForRestart (w_now w) i d)
      | J_wait i c is \<Rightarrow>
          if chan_closed d i c \<and> see_exit then Some (j\<lparr>j_pc := J_stop is\<rparr>, d)
          else if d_shuttingDown d then Some (end_job j d)
          else None
      | J_start [] \<Rightarrow> Some (end_job j d)
      | J_start (i # is) \<Rightarrow>
          (case startForRestart w (j_cfg j) i d of
             (None, d') \<Rightarrow> Some (j\<lparr>j_pc := J_start is\<rparr>, d')
           | (Some e, d') \<Rightarrow>
               if e = Start_failed Condition_unmet \<and> length is < length (j_deps j) then Some (j\<lparr>j_pc := J_start is\<rparr>, d')
               else Some (end_job j d'))
      | J_end \<Rightarrow> None)"

section \<open>Callbacks\<close>

datatype wait_outcome = Wait_done | Wait_shutdown | Wait_timeout

datatype answer =
    Unknown_service string | Is_running string int | Was_started string int | Is_ready string int | Is_skipped string
  | Start_error string gate_error | Already_stopped string | Stop_sent string | Has_stopped string
  | Still_running string | Daemon_stopping | Not_running string | Unknown_signal string | Signal_sent string string
  | Restart_scheduled string "string list" | Restarted string | In_progress string

definition StartFn_d :: "world \<Rightarrow> wait_outcome \<Rightarrow> string \<Rightarrow> ActionOptions \<Rightarrow> daemon \<Rightarrow> daemon \<times> answer" where
  "StartFn_d w outcome name opts d =
     (case map_of (d_services d) name of
        None \<Rightarrow> (d, Unknown_service name)
      | Some i \<Rightarrow>
          if IsRunning (inst d i) then (d, Is_running name (s_Pid (inst d i)))
          else if opt_Wait opts then
            (case startGated w (d_cfg d) i d of
               (r, d') \<Rightarrow>
                 (d', case outcome of
                        Wait_shutdown \<Rightarrow> Start_error name (Start_failed Shutting_down)
                      | Wait_timeout \<Rightarrow> In_progress name
                      | Wait_done \<Rightarrow>
                          (case r of
                             None \<Rightarrow> if p_SDNotify (Proc (inst d i)) then Is_ready name (s_Pid (inst d' i)) else Was_started name (s_Pid (inst d' i))
                           | Some (Start_failed (Already_running p)) \<Rightarrow> Is_running name (s_Pid (inst d' i))
                           | Some (Start_failed Condition_unmet) \<Rightarrow> Is_skipped name
                           | Some e \<Rightarrow> Start_error name e)))
          else
            (case startService w i d of
               (r, d') \<Rightarrow>
                 (d', case r of
                        Inr pid \<Rightarrow> Was_started name pid
                      | Inl (Already_running p) \<Rightarrow> Is_running name p
                      | Inl Condition_unmet \<Rightarrow> Is_skipped name
                      | Inl e \<Rightarrow> Start_error name (Start_failed e))))"

definition StopFn_d :: "int \<Rightarrow> wait_outcome \<Rightarrow> string \<Rightarrow> ActionOptions \<Rightarrow> daemon \<Rightarrow> daemon \<times> answer" where
  "StopFn_d now outcome name opts d =
     (case map_of (d_services d) name of
        None \<Rightarrow> (d, Unknown_service name)
      | Some i \<Rightarrow>
          if \<not> IsRunning (inst d i) then (d, Already_stopped name)
          else (stop_inst now i d,
                if \<not> opt_Wait opts then Stop_sent name
                else case outcome of Wait_done \<Rightarrow> Has_stopped name | Wait_shutdown \<Rightarrow> Daemon_stopping | Wait_timeout \<Rightarrow> Still_running name))"

definition SignalFn_d :: "string \<Rightarrow> string \<Rightarrow> daemon \<Rightarrow> daemon \<times> answer" where
  "SignalFn_d name sigName d =
     (case map_of (d_services d) name of
        None \<Rightarrow> (d, Unknown_service name)
      | Some i \<Rightarrow>
          if \<not> IsRunning (inst d i) then (d, Not_running name)
          else case ParseSignal sigName of
            None \<Rightarrow> (d, Unknown_signal sigName)
          | Some sig \<Rightarrow> (d\<lparr>d_kills := d_kills d @ svc_Signal sig (inst d i)\<rparr>, Signal_sent name sigName))"

definition RestartFn_d :: "int \<Rightarrow> wait_outcome \<Rightarrow> string \<Rightarrow> ActionOptions \<Rightarrow> daemon \<Rightarrow> daemon \<times> answer" where
  "RestartFn_d now outcome name opts d =
     (case map_of (d_services d) name of
        None \<Rightarrow> (d, Unknown_service name)
      | Some i \<Rightarrow>
          if d_shuttingDown d then (d, Daemon_stopping)
          else
            let deps = (if p_RestartWithDependents (Proc (inst d i)) then runningDependentsLocked d name else [])
            in if opt_Wait opts \<or> deps \<noteq> []
               then (d\<lparr>d_jobs := d_jobs d @ [new_job (d_cfg d) i deps]\<rparr>,
                     if \<not> opt_Wait opts then Restart_scheduled name (map (\<lambda>k. s_Name (inst d k)) deps)
                     else case outcome of Wait_done \<Rightarrow> Restarted name | Wait_shutdown \<Rightarrow> Daemon_stopping | Wait_timeout \<Rightarrow> In_progress name)
               else (restart_now now i d, Restart_scheduled name []))"

text \<open>The signals the daemon handles, and what it does with one.\<close>

definition subscribed :: "config \<Rightarrow> int list" where
  "subscribed cfg = ShutdownSignals cfg @ [SIGHUP, SIGUSR1, SIGUSR2]"

definition forward :: "int \<Rightarrow> daemon \<Rightarrow> daemon" where
  "forward sig d =
     fold (\<lambda>(n, i) d. case RewriteSignal (inst d i) sig of
        None \<Rightarrow> d | Some sig' \<Rightarrow> d\<lparr>d_kills := d_kills d @ svc_Signal sig' (inst d i)\<rparr>) (d_services d) d"

datatype on_signal = Shut_down | Do_reload | Forwarded

definition dispatch :: "int list \<Rightarrow> int \<Rightarrow> on_signal" where
  "dispatch shutdownSet sig =
     (if sig \<in> set shutdownSet then Shut_down else if sig = SIGHUP then Do_reload else Forwarded)"

section \<open>Scheduled runs\<close>

text \<open>A tick of \<open>schedRunner\<close>, and the timer that bounds a run: it stops only the run it was armed for.\<close>

definition scheduled_tick :: "world \<Rightarrow> nat \<Rightarrow> daemon \<Rightarrow> (start_fail + int) option \<times> daemon" where
  "scheduled_tick w i d =
     (if IsRunning (inst d i) then (None, d) else case startService w i d of (r, d') \<Rightarrow> (Some r, d'))"

definition run_limit :: "svc \<Rightarrow> duration option" where
  "run_limit s =
     (if p_StartupTimeout (Proc s) = [] then None
      else case ParseDuration (p_StartupTimeout (Proc s)) of None \<Rightarrow> None | Some dur \<Rightarrow> if dur \<le> 0 then None else Some dur)"

definition overstay :: "int \<Rightarrow> nat \<Rightarrow> int \<Rightarrow> daemon \<Rightarrow> daemon" where
  "overstay now i pid d = (if IsRunning (inst d i) \<and> s_Pid (inst d i) = pid then stop_inst now i d else d)"

end
