(* ===== verification/Reload.thy ===== *)
theory Reload
  imports Lifecycle
begin

text \<open>
  Hot reload: \<open>reload\<close>, \<open>buildServices\<close>, \<open>buildOrderServices\<close> and \<open>processConfigChanged\<close> of
  \<open>daemon.go\<close>. The new configuration is checked as a whole before the lock is taken; under the lock the
  running instances are kept, replaced or removed; the starts follow after it. The log targets of the
  writers and the goroutines of checks and schedulers are not part of the state.
\<close>

section \<open>Services of a configuration\<close>

definition buildOrderServices :: "config \<Rightarrow> order_service list" where
  "buildOrderServices cfg =
     map (\<lambda>p. \<lparr>svc_name = procName p, svc_after = p_After p, svc_before = p_Before p, svc_requires = p_Requires p\<rparr>) (c_Processes cfg)"

text \<open>The process as \<open>buildServices\<close> hands it to \<open>service.New\<close>.\<close>

definition effective_process :: "config \<Rightarrow> string list \<Rightarrow> Process \<Rightarrow> Process" where
  "effective_process cfg entrypointArgs p =
     (let p1 = (if p_UseEntrypointArgs p \<and> 0 < length entrypointArgs then p\<lparr>p_Args := p_Args p @ entrypointArgs\<rparr> else p)
      in if p_Prefix p1 = [] then p1\<lparr>p_Prefix := c_Prefix cfg\<rparr> else p1)"

definition install_service :: "svc \<Rightarrow> daemon \<Rightarrow> daemon" where
  "install_service s d =
     with_m (RegisterService (s_Name s) (s_Enabled s))
       (d\<lparr>d_heap := d_heap d @ [s], d_services := AList.update (s_Name s) (length (d_heap d)) (d_services d)\<rparr>)"

fun build_list :: "Process list \<Rightarrow> daemon \<Rightarrow> (svc_error + daemon) option" where
  "build_list [] d = Some (Inr d)"
| "build_list (p # ps) d =
     (case svc_New (effective_process (d_cfg d) (d_entrypointArgs d) p) (c_Prefix (d_cfg d)) of
        None \<Rightarrow> None
      | Some (Inl e) \<Rightarrow> Some (Inl e)
      | Some (Inr s) \<Rightarrow> build_list ps (install_service s d))"

definition buildServices :: "daemon \<Rightarrow> (svc_error + daemon) option" where
  "buildServices d = build_list (c_Processes (d_cfg d)) (d\<lparr>d_services := []\<rparr>)"

section \<open>What a change needs\<close>

definition processConfigChanged :: "Process \<Rightarrow> Process \<Rightarrow> bool" where
  "processConfigChanged oldp newp =
     (p_Prefix oldp \<noteq> p_Prefix newp \<or> p_Startup oldp \<noteq> p_Startup newp \<or> p_Command oldp \<noteq> p_Command newp \<or>
      p_Args oldp \<noteq> p_Args newp \<or> p_User oldp \<noteq> p_User newp \<or> p_Group oldp \<noteq> p_Group newp \<or>
      p_UserID oldp \<noteq> p_UserID newp \<or> p_GroupID oldp \<noteq> p_GroupID newp \<or> p_Umask oldp \<noteq> p_Umask newp \<or>
      p_StrictGroups oldp \<noteq> p_StrictGroups newp \<or> p_WorkingDir oldp \<noteq> p_WorkingDir newp \<or>
      p_StopSignal oldp \<noteq> p_StopSignal newp \<or> p_PassEnv oldp \<noteq> p_PassEnv newp \<or>
      p_LogCapture oldp \<noteq> p_LogCapture newp \<or> p_ExportSocket oldp \<noteq> p_ExportSocket newp \<or>
      map_of (p_Environment oldp) \<noteq> map_of (p_Environment newp) \<or> p_RemoveEnv oldp \<noteq> p_RemoveEnv newp \<or>
      p_DotEnv oldp \<noteq> p_DotEnv newp \<or> p_DotEnvFollow oldp \<noteq> p_DotEnvFollow newp \<or>
      p_ReadyCheck oldp \<noteq> p_ReadyCheck newp \<or> p_ReadyTimeout oldp \<noteq> p_ReadyTimeout newp \<or>
      p_KillDelay oldp \<noteq> p_KillDelay newp \<or> p_SDNotify oldp \<noteq> p_SDNotify newp \<or>
      p_SDNotifyTimeout oldp \<noteq> p_SDNotifyTimeout newp \<or> p_ParentDeathSignal oldp \<noteq> p_ParentDeathSignal newp)"

text \<open>The fields a kept instance takes over.\<close>

definition take_policy :: "svc \<Rightarrow> svc \<Rightarrow> svc" where
  "take_policy new old =
     SetFileConditions (Process_FileConditions (Proc new))
       (old\<lparr>s_OnSuccess := s_OnSuccess new, s_OnFailure := s_OnFailure new, s_OnCheckFailure := s_OnCheckFailure new,
            s_Requires := s_Requires new,
            Proc := (Proc old)\<lparr>p_ExitCodeMap := p_ExitCodeMap (Proc new), p_SignalRewrite := p_SignalRewrite (Proc new),
                     p_RestartWithDependents := p_RestartWithDependents (Proc new)\<rparr>\<rparr>)"

definition ignore_exit :: "svc \<Rightarrow> svc" where
  "ignore_exit s = s\<lparr>s_OnSuccess := ActionIgnore, s_OnFailure := ActionIgnore\<rparr>"

definition update_inst :: "nat \<Rightarrow> (svc \<Rightarrow> svc) \<Rightarrow> daemon \<Rightarrow> daemon" where
  "update_inst i f d = set_inst i (f (inst d i)) d"

definition remove_service :: "int \<Rightarrow> string \<times> nat \<Rightarrow> daemon \<Rightarrow> daemon" where
  "remove_service now ni d =
     (let d1 = update_inst (snd ni) ignore_exit d;
          d2 = (if IsRunning (inst d1 (snd ni)) then stop_inst now (snd ni) d1 else d1)
      in d2\<lparr>d_services := AList.delete (fst ni) (d_services d2)\<rparr>)"

text \<open>An instance from before the reload: kept, stopped, or nothing to do. The second result is what to wait for.\<close>

definition reconcile :: "int \<Rightarrow> string \<times> nat \<Rightarrow> daemon \<times> (nat \<times> nat option) list \<Rightarrow> daemon \<times> (nat \<times> nat option) list" where
  "reconcile now ni dw =
     (case dw of
        (d, ws) \<Rightarrow>
          (case map_of (d_services d) (fst ni) of
             None \<Rightarrow> (d, ws)
           | Some new \<Rightarrow>
               let i = snd ni; old = inst d i
               in if IsRunning old \<and> \<not> processConfigChanged (Proc old) (Proc (inst d new))
                  then ((update_inst i (take_policy (inst d new)) d)\<lparr>d_services := AList.update (fst ni) i (d_services d)\<rparr>, ws)
                  else if IsRunning old
                  then (stop_inst now i (update_inst i ignore_exit d), ws @ [(i, done_chan old)])
                  else (d, ws)))"

definition to_start :: "string list \<Rightarrow> daemon \<Rightarrow> nat list" where
  "to_start startOrd d =
     List.map_filter (\<lambda>n. case map_of (d_services d) n of
        None \<Rightarrow> None
      | Some i \<Rightarrow>
          let s = inst d i
          in if \<not> s_Enabled s \<or> s_Oneshot s \<or> s_Scheduled s \<or> IsRunning s then None else Some i) startOrd"

definition unregister_gone :: "(string \<times> nat) list \<Rightarrow> daemon \<Rightarrow> daemon" where
  "unregister_gone old d =
     fold (\<lambda>(n, i) d. if map_of (d_services d) n = None then with_m (UnregisterService n) d else d) old d"

text \<open>The part of \<open>reload\<close> under the lock, for a configuration that passed the checks below.\<close>

definition reload_locked :: "int \<Rightarrow> config \<Rightarrow> string list \<Rightarrow> daemon \<Rightarrow> (svc_error + daemon) option" where
  "reload_locked now cfg startOrd d =
     (let oldServices = d_services d;
          newNames = map procName (c_Processes cfg);
          d1 = fold (remove_service now) (filter (\<lambda>(n, i). n \<notin> set newNames) oldServices) d
      in map_option (\<lambda>r. result_bind r (\<lambda>d2.
           case fold (reconcile now) oldServices (unregister_gone oldServices d2, []) of
             (d3, ws) \<Rightarrow>
               let d4 = d3\<lparr>d_shutdownSeq := startOrd, d_shutdownMode := c_ShutdownOrder cfg\<rparr>
               in Inr (d4\<lparr>d_reload := R_wait ws (to_start startOrd d4)\<rparr>)))
         (buildServices (d1\<lparr>d_cfg := cfg\<rparr>)))"

datatype reload_error =
    Still_starting | Config_unreadable config_file_error | Config_invalid config_error | Two_entrypoints
  | Dependencies order_error | Bad_service svc_error | Is_shutting_down

text \<open>The checks before the lock: the graph, and a dry run of \<open>service.New\<close>.\<close>

fun dry_run :: "string \<Rightarrow> Process list \<Rightarrow> (svc_error + unit) option" where
  "dry_run globalPrefix [] = Some (Inr ())"
| "dry_run globalPrefix (p # ps) =
     (case svc_New p globalPrefix of
        None \<Rightarrow> None
      | Some (Inl e) \<Rightarrow> Some (Inl e)
      | Some (Inr s) \<Rightarrow> dry_run globalPrefix ps)"

definition check_config :: "config \<Rightarrow> (reload_error + string list) option" where
  "check_config cfg =
     (if 1 < length (filter p_UseEntrypointArgs (c_Processes cfg)) then Some (Inl Two_entrypoints)
      else case TopoSort (buildOrderServices cfg) of
        None \<Rightarrow> None
      | Some (Inl e) \<Rightarrow> Some (Inl (Dependencies e))
      | Some (Inr startOrd) \<Rightarrow>
          map_option (map_sum Bad_service (\<lambda>_. startOrd)) (dry_run (c_Prefix cfg) (c_Processes cfg)))"

definition reload :: "int \<Rightarrow> nat \<Rightarrow> config_open \<Rightarrow> fsys \<Rightarrow> string list \<Rightarrow> daemon \<Rightarrow> (reload_error + daemon) option" where
  "reload now own file fs environ d =
     (if \<not> d_started d then Some (Inl Still_starting)
      else case readConfigFile own file of
        Inl e \<Rightarrow> Some (Inl (Config_unreadable e))
      | Inr content \<Rightarrow>
          (case Unmarshal fs environ content of
             Inl e \<Rightarrow> Some (Inl (Config_invalid e))
           | Inr cfg \<Rightarrow>
               (case check_config cfg of
                  None \<Rightarrow> None
                | Some (Inl e) \<Rightarrow> Some (Inl e)
                | Some (Inr startOrd) \<Rightarrow>
                    if d_shuttingDown d then Some (Inl Is_shutting_down)
                    else map_option (map_sum Bad_service (\<lambda>d. d)) (reload_locked now cfg startOrd d))))"

text \<open>After the lock: wait for the instances that were stopped, then start what is missing.\<close>

definition reload_step :: "world \<Rightarrow> daemon \<Rightarrow> daemon option" where
  "reload_step w d =
     (case d_reload d of
        R_idle \<Rightarrow> None
      | R_wait [] ts \<Rightarrow> Some (d\<lparr>d_reload := R_start ts\<rparr>)
      | R_wait ((i, c) # ws) ts \<Rightarrow> if chan_closed d i c then Some (d\<lparr>d_reload := R_wait ws ts\<rparr>) else None
      | R_start [] \<Rightarrow> Some (d\<lparr>d_reload := R_idle\<rparr>)
      | R_start (i # is) \<Rightarrow> Some ((snd (startService w i d))\<lparr>d_reload := R_start is\<rparr>))"

end
