(* ===== verification/Spec2Isabelle.thy ===== *)
theory Spec2Isabelle
  imports Order Cron Yaml Signals Check Control Prefix_Writer Log_Target Reload
begin

text \<open>
  Gopherd is an init and process supervisor for containers.

  \<^item> \<open>Go_Prelude\<close>: the part of Go's language and standard library the sources use.
  \<^item> \<open>Order\<close>: \<open>src/internal/order/order.go\<close>, the start order of the services.
\<close>

end
